(* ===== verification/Mq_Prelude.thy ===== *)
theory Mq_Prelude
  imports Main "HOL-Library.Word"
begin

text \<open>
  The prelude of the development: the Rust types the components share, how fallible and stateful
  code is written, and the generic lemmas on bytes, lists and cursors the component proofs rest on.

  \<^item> Fixed-width integers are words (\<open>u8\<close>, \<open>u16\<close>, \<open>u32\<close>, \<open>u64\<close>); \<open>usize\<close> lengths and offsets are
    natural numbers, the lengths of slices that exist in memory.
  \<^item> \<open>Result<T, E>\<close> is the datatype \<open>result\<close>; the question mark operator is \<open>rbind\<close>.
  \<^item> Code that mutates a value \<open>self\<close> and may fail has the type \<open>('s, 'a, 'e) est\<close>: it returns its
    result and the state it leaves behind, on the error branches too.
\<close>

section \<open>Types\<close>

type_synonym u8 = "8 word"
type_synonym u16 = "16 word"
type_synonym u32 = "32 word"
type_synonym u64 = "64 word"
type_synonym bytes = "u8 list"

datatype ('a, 'e) result = Ok 'a | Err 'e

type_synonym ('s, 'a, 'e) est = "'s \<Rightarrow> ('a, 'e) result \<times> 's"

named_theorems codec_intros \<open>composition rules of the wire readers and writers\<close>
named_theorems inv_intros \<open>preservation of the component invariants\<close>

fun is_ok_result :: "('a, 'e) result \<Rightarrow> bool" where
  "is_ok_result (Ok _) = True"
| "is_ok_result (Err _) = False"

fun rbind :: "('a, 'e) result \<Rightarrow> ('a \<Rightarrow> ('b, 'e) result) \<Rightarrow> ('b, 'e) result" where
  "rbind (Ok x) k = k x"
| "rbind (Err e) k = Err e"

lemma rbind_Ok_iff: "rbind r k = Ok y \<longleftrightarrow> (\<exists>x. r = Ok x \<and> k x = Ok y)"
  by (cases r) auto

definition est_return :: "'a \<Rightarrow> ('s, 'a, 'e) est" where
  "est_return x s = (Ok x, s)"

definition est_fail :: "'e \<Rightarrow> ('s, 'a, 'e) est" where
  "est_fail e s = (Err e, s)"

definition est_bind :: "('s, 'a, 'e) est \<Rightarrow> ('a \<Rightarrow> ('s, 'b, 'e) est) \<Rightarrow> ('s, 'b, 'e) est" where
  "est_bind m k s = (case m s of (Ok x, s') \<Rightarrow> k x s' | (Err e, s') \<Rightarrow> (Err e, s'))"

lemma est_bind_assoc: "est_bind (est_bind m k) l = est_bind m (\<lambda>x. est_bind (k x) l)"
  by (rule ext) (simp add: est_bind_def split: result.splits prod.splits)

lemma est_bind_return [simp]: "est_bind (est_return x) k = k x"
  by (rule ext) (simp add: est_bind_def est_return_def)

lemma est_bind_fail [simp]: "est_bind (est_fail e) k = est_fail e"
  by (rule ext) (simp add: est_bind_def est_fail_def)

lemma est_bind_Ok: "m s = (Ok x, s') \<Longrightarrow> est_bind m k s = k x s'"
  by (simp add: est_bind_def)

lemma est_bind_Err: "m s = (Err e, s') \<Longrightarrow> est_bind m k s = (Err e, s')"
  by (simp add: est_bind_def)

lemma est_bind_OkE:
  assumes "est_bind m k s = (Ok y, t)"
  obtains x s' where "m s = (Ok x, s')" and "k x s' = (Ok y, t)"
  using assms by (auto simp: est_bind_def split: prod.splits result.splits)

section \<open>Bytes of words\<close>

text \<open>
  \<open>be_bytes n w\<close> is the last \<open>n\<close> bytes of \<open>w.to_be_bytes()\<close>, most significant first, and
  \<open>from_be\<close> the fold \<open>(v << 8) | b\<close> that reads them back.
\<close>

fun be_bytes :: "nat \<Rightarrow> 'a::len word \<Rightarrow> bytes" where
  "be_bytes 0 w = []"
| "be_bytes (Suc n) w = be_bytes n (drop_bit 8 w) @ [ucast w]"

definition from_be :: "bytes \<Rightarrow> 'a::len word" where
  "from_be bs = foldl (\<lambda>v b. or (push_bit 8 v) (ucast b)) 0 bs"

lemma length_be_bytes [simp]: "length (be_bytes n w) = n"
  by (induction n arbitrary: w) auto

lemma be_bytes_eq_Nil [simp]: "be_bytes n w = [] \<longleftrightarrow> n = 0"
  by (metis length_be_bytes length_0_conv)

lemma from_be_Nil [simp]: "from_be [] = 0"
  by (simp add: from_be_def)

lemma from_be_snoc: "from_be (bs @ [b]) = or (push_bit 8 (from_be bs)) (ucast b)"
  by (simp add: from_be_def)

lemma from_be_be_bytes: "from_be (be_bytes n w) = take_bit (8 * n) w"
proof (induction n arbitrary: w)
  case 0
  then show ?case by simp
next
  case (Suc n)
  have "or (push_bit 8 (take_bit (8 * n) (drop_bit 8 w))) (ucast (ucast w :: u8)) = take_bit (8 * Suc n) w"
    by (rule bit_word_eqI) (auto simp: bit_simps)
  with Suc show ?case by (simp add: from_be_snoc)
qed

lemma drop_be_bytes: "m \<le> n \<Longrightarrow> drop (n - m) (be_bytes n w) = be_bytes m w"
proof (induction m arbitrary: n w)
  case 0
  then show ?case by simp
next
  case (Suc m)
  then obtain k where n: "n = Suc k" and k: "m \<le> k" by (cases n) auto
  show ?case using Suc.IH [OF k, of "drop_bit 8 w"] k by (simp add: n)
qed

lemma be_bytes_take_bit: "8 * n \<le> m \<Longrightarrow> be_bytes n (take_bit m w) = be_bytes n w"
proof (induction n arbitrary: m w)
  case 0
  then show ?case by simp
next
  case (Suc n)
  have "drop_bit 8 (take_bit m w) = take_bit (m - 8) (drop_bit 8 w)"
    by (rule bit_word_eqI) (auto simp: bit_simps)
  moreover have "(ucast (take_bit m w) :: u8) = ucast w"
    using Suc.prems by (intro bit_word_eqI) (auto simp: bit_simps)
  ultimately show ?case using Suc.IH [of "m - 8" "drop_bit 8 w"] Suc.prems by simp
qed

lemma be_bytes_from_be:
  assumes "8 * length bs \<le> LENGTH('a::len)"
  shows "be_bytes (length bs) (from_be bs :: 'a word) = bs"
  using assms
proof (induction bs rule: rev_induct)
  case Nil
  then show ?case by simp
next
  case (snoc b bs)
  let ?v = "from_be bs :: 'a word"
  have low: "ucast (or (push_bit 8 ?v) (ucast b)) = b"
    using snoc.prems by (intro bit_word_eqI) (auto simp: bit_simps)
  have high: "drop_bit 8 (or (push_bit 8 ?v) (ucast b)) = take_bit (LENGTH('a) - 8) ?v"
    using snoc.prems by (intro bit_word_eqI) (auto simp: bit_simps dest: bit_imp_le_length)
  have IH: "be_bytes (length bs) ?v = bs"
    using snoc by simp
  have tk: "be_bytes (length bs) (take_bit (LENGTH('a) - 8) ?v) = be_bytes (length bs) ?v"
    using snoc.prems by (intro be_bytes_take_bit) simp
  show ?case using low high IH tk by (simp add: from_be_snoc)
qed

lemma be_bytes_Cons:
  "be_bytes (Suc n) w = ucast (drop_bit (8 * n) w) # be_bytes n w"
proof (induction n arbitrary: w)
  case 0
  then show ?case by simp
next
  case (Suc n)
  have "drop_bit (8 * n) (drop_bit 8 w) = drop_bit (8 * Suc n) w"
    by (simp add: drop_bit_drop_bit ac_simps)
  with Suc [of "drop_bit 8 w"] show ?case by simp
qed

lemma from_be_Cons_fold:
  "foldl (\<lambda>v b. or (push_bit 8 v) (ucast b)) (ucast b) bs = (from_be (b # bs) :: 'a::len word)"
  by (simp add: from_be_def)

lemma bit_imp_less_of_less_exp:
  fixes v :: "'a::len word"
  assumes "unat v < 2 ^ m" and "bit v i"
  shows "i < m"
proof (rule ccontr)
  assume "\<not> i < m"
  then have "(2::nat) ^ m \<le> 2 ^ i" by simp
  with assms(1) have "unat v < 2 ^ i" by (rule order_less_le_trans)
  then have "unat v div 2 ^ i = 0" by (rule div_less)
  then have "\<not> bit (unat v) i" by (simp add: bit_iff_odd)
  with assms(2) show False by (simp add: bit_unsigned_iff)
qed

lemma take_bit_of_less_exp:
  fixes v :: "'a::len word"
  assumes "unat v < 2 ^ m"
  shows "take_bit m v = v"
  by (rule bit_word_eqI) (auto simp: bit_simps dest: bit_imp_less_of_less_exp [OF assms])

lemma from_be_take_bit:
  assumes "8 * length bs \<le> LENGTH('a::len)"
  shows "take_bit (8 * length bs) (from_be bs :: 'a word) = from_be bs"
  using from_be_be_bytes [of "length bs" "from_be bs :: 'a word"] be_bytes_from_be [OF assms] by simp

lemma unat_less_of_take_bit: "take_bit m v = v \<Longrightarrow> m < LENGTH('a::len) \<Longrightarrow> unat (v :: 'a word) < 2 ^ m"
  by (metis take_bit_nat_less_exp unsigned_take_bit_eq)

end
