(* ===== verification/Wire_Varint.thy ===== *)
theory Wire_Varint
  imports Mq_Prelude
begin

text \<open>
  The QUIC variable-length integer of \<^verbatim>\<open>crates/mq-wire/src/varint.rs\<close>: \<open>varint_len\<close>,
  \<open>varint_encode\<close> (into a caller's buffer) and \<open>varint_decode\<close> (a total reader that accepts
  non-minimal encodings). \<open>varint_wire\<close> is the image of a value on the wire; the lemmas relate the
  two operations to it.
\<close>

section \<open>The code\<close>

definition varint_MAX :: u64 where
  "varint_MAX = 0x3FFFFFFFFFFFFFFF"

datatype varint_error = VarintTooLarge | VarintShort

definition varint_len :: "u64 \<Rightarrow> nat" where
  "varint_len v =
     (if v \<le> 0x3F then 1
      else if v \<le> 0x3FFF then 2
      else if v \<le> 0x3FFFFFFF then 4
      else 8)"

definition varint_prefix :: "nat \<Rightarrow> u8" where
  "varint_prefix n = (if n = 1 then 0x00 else if n = 2 then 0x40 else if n = 4 then 0x80 else 0xC0)"

definition varint_encode :: "u64 \<Rightarrow> (bytes, nat, varint_error) est" where
  "varint_encode v buf =
     (if varint_MAX < v then (Err VarintTooLarge, buf)
      else let n = varint_len v in
        if length buf < n then (Err VarintShort, buf)
        else let buf1 = drop (8 - n) (be_bytes 8 v) @ drop n buf;
                 buf2 = buf1[0 := or (and (buf1 ! 0) 0x3F) (varint_prefix n)]
             in (Ok n, buf2))"

definition varint_decode :: "bytes \<Rightarrow> (u64 \<times> nat, varint_error) result" where
  "varint_decode buf =
     (case buf of
        [] \<Rightarrow> Err VarintShort
      | first # _ \<Rightarrow>
          let n = 2 ^ unat (drop_bit 6 first) in
          if length buf < n then Err VarintShort
          else Ok (foldl (\<lambda>v b. or (push_bit 8 v) (ucast b)) (ucast (and first 0x3F))
                     (take (n - 1) (drop 1 buf)), n))"

section \<open>The image on the wire\<close>

definition varint_wire :: "u64 \<Rightarrow> bytes" where
  "varint_wire v =
     (let bs = be_bytes (varint_len v) v in
      or (and (hd bs) 0x3F) (varint_prefix (varint_len v)) # tl bs)"

lemma varint_len_cases:
  "varint_len v = 1 \<and> v \<le> 0x3F \<or> varint_len v = 2 \<and> v \<le> 0x3FFF
   \<or> varint_len v = 4 \<and> v \<le> 0x3FFFFFFF \<or> varint_len v = 8"
  by (simp add: varint_len_def)

lemma varint_len_pos [simp]: "0 < varint_len v"
  by (simp add: varint_len_def)

lemma varint_len_neq_0 [simp]: "varint_len v \<noteq> 0"
  by (simp add: varint_len_def)

lemma varint_len_le [simp]: "varint_len v \<le> 8"
  by (simp add: varint_len_def)

lemma length_varint_wire [simp]: "length (varint_wire v) = varint_len v"
  by (simp add: varint_wire_def Let_def)

lemma varint_value_bits:
  assumes "v \<le> varint_MAX"
  shows "unat v < 2 ^ (8 * varint_len v - 2)"
proof -
  have b: "v \<le> c \<Longrightarrow> unat v \<le> unat c" for c by (simp add: word_le_nat_alt)
  from assms have "unat v \<le> 0x3FFFFFFFFFFFFFFF" by (auto dest!: b simp: varint_MAX_def)
  with varint_len_cases [of v] show ?thesis by (auto dest!: b)
qed

lemma varint_encode_Ok:
  assumes "v \<le> varint_MAX" and "varint_len v \<le> length buf"
  shows "varint_encode v buf = (Ok (varint_len v), varint_wire v @ drop (varint_len v) buf)"
proof -
  let ?n = "varint_len v"
  have bs: "drop (8 - ?n) (be_bytes 8 v) = be_bytes ?n v"
    by (rule drop_be_bytes) simp
  obtain b t where bt: "be_bytes ?n v = b # t"
    by (cases "be_bytes ?n v") simp_all
  show ?thesis
    using assms by (simp add: varint_encode_def varint_wire_def Let_def bs bt not_less)
qed

lemma and_3F: "and b (0x3F :: u8) = take_bit 6 b"
  by (simp add: take_bit_eq_mask mask_eq_exp_minus_1)

lemma varint_first_byte:
  assumes "v \<le> varint_MAX"
  shows "and (hd (be_bytes (varint_len v) v)) 0x3F = hd (be_bytes (varint_len v) v)"
proof -
  obtain n where n: "varint_len v = Suc n"
    by (cases "varint_len v") simp_all
  have "bit v i \<Longrightarrow> i < 8 * n + 6" for i
    using bit_imp_less_of_less_exp [OF varint_value_bits [OF assms], of i] by (simp add: n)
  then have "take_bit 6 (ucast (drop_bit (8 * n) v) :: u8) = ucast (drop_bit (8 * n) v)"
    by (intro bit_word_eqI) (fastforce simp: bit_simps)
  then show ?thesis by (simp add: n be_bytes_Cons and_3F del: be_bytes.simps)
qed

lemma varint_prefix_len:
  assumes "and b 0x3F = b"
  shows "2 ^ unat (drop_bit 6 (or b (varint_prefix (varint_len v)))) = varint_len v"
    and "and (or b (varint_prefix (varint_len v))) 0x3F = b"
proof -
  let ?p = "varint_prefix (varint_len v)"
  have b: "take_bit 6 b = b" using assms by (simp add: and_3F)
  have "drop_bit 6 (take_bit 6 b) = 0" by (simp add: drop_bit_take_bit)
  then have "drop_bit 6 b = 0" by (simp add: b)
  then have d: "drop_bit 6 (or b ?p) = drop_bit 6 ?p" by (simp add: drop_bit_or)
  show "2 ^ unat (drop_bit 6 (or b ?p)) = varint_len v"
    unfolding d using varint_len_cases [of v] by (auto simp: varint_prefix_def drop_bit_eq_div)
  have "take_bit 6 ?p = 0"
    using varint_len_cases [of v] by (auto simp: varint_prefix_def)
  then show "and (or b ?p) 0x3F = b" by (simp add: and_3F take_bit_or b)
qed

lemma varint_decode_wire:
  assumes "v \<le> varint_MAX"
  shows "varint_decode (varint_wire v @ rest) = Ok (v, varint_len v)"
proof -
  let ?n = "varint_len v" and ?bs = "be_bytes (varint_len v) v"
  have bs: "?bs = hd ?bs # tl ?bs"
    by simp
  have len: "length (tl ?bs) = ?n - 1" by simp
  note first = varint_prefix_len [OF varint_first_byte [OF assms], of v]
  have "unat v < 2 ^ (8 * ?n)"
    using varint_value_bits [OF assms] by (rule order_less_le_trans) simp
  then have "from_be ?bs = v"
    by (simp add: from_be_be_bytes take_bit_of_less_exp)
  then have fold: "foldl (\<lambda>v b. or (push_bit 8 v) (ucast b)) (ucast (hd ?bs)) (tl ?bs) = v"
    using bs from_be_Cons_fold [of "hd ?bs" "tl ?bs"] by metis
  define b where "b = or (hd ?bs) (varint_prefix ?n)"
  have wire: "varint_wire v = b # tl ?bs"
    by (simp add: varint_wire_def Let_def varint_first_byte [OF assms] b_def)
  have "2 ^ unat (drop_bit 6 b) = ?n" and "and b 0x3F = hd ?bs"
    using first by (simp_all add: b_def)
  then show ?thesis
    unfolding wire varint_decode_def by (simp add: Let_def len fold)
qed

section \<open>What the reader returns\<close>

lemma unat_drop_bit_6: "unat (drop_bit 6 (b :: u8)) \<le> 3"
proof -
  have "unat (drop_bit 6 b) = unat b div 64" by (simp add: drop_bit_eq_div unat_div)
  moreover have "unat b < 256" using unsigned_less [of b] by simp
  ultimately show ?thesis by linarith
qed

lemma varint_decode_value_bits:
  assumes "length t = n" and "n < 8"
  shows "unat (from_be (and b 0x3F # t) :: u64) < 2 ^ (8 * n + 6)"
proof -
  let ?bs = "and b 0x3F # t"
  let ?v = "from_be ?bs :: u64"
  have len: "length ?bs = Suc n" and le: "8 * length ?bs \<le> LENGTH(64)" using assms by auto
  have "be_bytes (Suc n) ?v = ?bs"
    using be_bytes_from_be [OF le] unfolding len .
  then have b: "ucast (drop_bit (8 * n) ?v) = and b 0x3F"
    by (simp add: be_bytes_Cons del: be_bytes.simps)
  have v: "take_bit (8 * Suc n) ?v = ?v"
    using from_be_take_bit [OF le] unfolding len .
  have "bit ?v i \<Longrightarrow> i < 8 * n + 6" for i
  proof (rule ccontr)
    assume "bit ?v i" and "\<not> i < 8 * n + 6"
    define j where "j = i - 8 * n"
    with \<open>\<not> i < 8 * n + 6\<close> have i: "i = 8 * n + j" and j: "6 \<le> j" by auto
    from \<open>bit ?v i\<close> v have "i < 8 * Suc n" by (metis bit_take_bit_iff)
    with \<open>bit ?v i\<close> have "bit (ucast (drop_bit (8 * n) ?v) :: u8) j" by (simp add: bit_simps i)
    then have "bit (and b 0x3F) j" by (simp only: b)
    with j show False by (simp add: and_3F bit_simps)
  qed
  then have "take_bit (8 * n + 6) ?v = ?v" by (intro bit_word_eqI) (auto simp: bit_simps)
  then show ?thesis using assms(2) by (intro unat_less_of_take_bit) auto
qed

lemma varint_len_le_of_bits:
  assumes "unat v < 2 ^ (8 * n - 2)" and "n \<in> {1, 2, 4, 8}"
  shows "varint_len v \<le> n" and "v \<le> varint_MAX"
  using assms by (auto simp: varint_len_def varint_MAX_def word_le_nat_alt)

lemma varint_decode_OkE:
  assumes "varint_decode buf = Ok (v, n)"
  shows "n \<in> {1, 2, 4, 8}" and "n \<le> length buf" and "v \<le> varint_MAX" and "varint_len v \<le> n"
proof -
  from assms obtain b t where buf: "buf = b # t" by (auto simp: varint_decode_def split: list.splits)
  define m where "m = unat (drop_bit 6 b)"
  have m: "m \<le> 3" by (simp add: m_def unat_drop_bit_6)
  from assms have n: "n = 2 ^ m" and len: "n \<le> Suc (length t)"
    and v: "v = from_be (and b 0x3F # take (n - 1) t)"
    by (auto simp: varint_decode_def buf Let_def m_def from_be_Cons_fold split: if_splits)
  from m have "m = 0 \<or> m = 1 \<or> m = 2 \<or> m = 3" by auto
  then show cases: "n \<in> {1, 2, 4, 8}" by (auto simp: n)
  show "n \<le> length buf" using len by (simp add: buf)
  have "unat v < 2 ^ (8 * (n - 1) + 6)"
    unfolding v by (rule varint_decode_value_bits) (use len cases in auto)
  moreover have "8 * (n - 1) + 6 = 8 * n - 2" using cases by auto
  ultimately have "unat v < 2 ^ (8 * n - 2)" by simp
  from varint_len_le_of_bits [OF this cases]
  show "v \<le> varint_MAX" and "varint_len v \<le> n" by simp_all
qed

lemma varint_decode_append:
  "varint_decode buf = Ok r \<Longrightarrow> varint_decode (buf @ xs) = Ok r"
  by (auto simp: varint_decode_def Let_def split: list.splits if_splits)

lemma varint_decode_Err: "varint_decode buf = Err e \<Longrightarrow> e = VarintShort"
  by (auto simp: varint_decode_def Let_def split: list.splits if_splits)

section \<open>Properties\<close>

text \<open>A value up to \<open>VARINT_MAX\<close> is written into any buffer that has room for it, in
  \<open>varint_len\<close> bytes at the front and nowhere else, and reading the buffer gives the value and that
  length back; a value above it and a buffer that is too short are refused with the buffer untouched.\<close>

theorem varint_roundtrip:
  "if varint_MAX < v then varint_encode v buf = (Err VarintTooLarge, buf)
   else if length buf < varint_len v then varint_encode v buf = (Err VarintShort, buf)
   else (case varint_encode v buf of (r, buf') \<Rightarrow>
           r = Ok (varint_len v) \<and> length buf' = length buf
           \<and> drop (varint_len v) buf' = drop (varint_len v) buf
           \<and> varint_decode buf' = Ok (v, varint_len v))"
proof -
  consider "varint_MAX < v" | "v \<le> varint_MAX" "length buf < varint_len v"
    | "v \<le> varint_MAX" "varint_len v \<le> length buf"
    by (meson not_le)
  then show ?thesis
  proof cases
    case 3
    then show ?thesis
      by (simp add: varint_encode_Ok varint_decode_wire not_less)
  qed (simp_all add: varint_encode_def Let_def)
qed

text \<open>The reader accepts every encoding, minimal or not, whose announced bytes are there: the
  value fits 62 bits, its minimal length is at most the length consumed, which lies in the buffer,
  and the only error is a short buffer, which happens exactly when the announced bytes are missing.\<close>

theorem varint_decode_total:
  "case varint_decode buf of
     Ok (v, n) \<Rightarrow> n \<in> {1, 2, 4, 8} \<and> n \<le> length buf \<and> v \<le> varint_MAX \<and> varint_len v \<le> n
       \<and> n = 2 ^ (unat (hd buf) div 64)
   | Err e \<Rightarrow> e = VarintShort \<and> (buf = [] \<or> length buf < 2 ^ (unat (hd buf) div 64))"
proof (cases "varint_decode buf")
  case (Ok r)
  obtain v n where r: "r = (v, n)" by fastforce
  note vd = Ok [unfolded r]
  have "n = 2 ^ (unat (hd buf) div 64)"
    using vd by (auto simp: varint_decode_def Let_def drop_bit_eq_div unat_div split: list.splits if_splits)
  with varint_decode_OkE [OF vd] show ?thesis by (simp add: vd)
next
  case (Err e)
  then show ?thesis
    by (auto simp: varint_decode_def Let_def drop_bit_eq_div unat_div split: list.splits if_splits)
qed

end
