(* ===== verification/Wire_Frames.thy ===== *)
theory Wire_Frames
  imports Wire_Varint
begin

text \<open>
  The control frames of \<^verbatim>\<open>crates/mq-wire/src/frames.rs\<close>: AUTH, CONNECT_TCP and UDP_SESSION
  requests and responses. The two private cursors of the source are the records \<open>cursor\<close> and
  \<open>cursor_mut\<close>; their methods are computations of type \<open>est\<close>, so a frame that fails half-way
  leaves the bytes it already wrote in the output buffer, as the code does.

  The locale \<open>frame_codec\<close> is the contract of a frame with the stream code that feeds it: the wire
  image of a frame, what \<open>encode\<close> does with a buffer, and that \<open>decode\<close> is stable when more bytes
  arrive. Its lemmas are proved once and every frame of the file is an interpretation of it.
\<close>

section \<open>Constants and enumerations\<close>

definition MAX_FRAME :: nat where "MAX_FRAME = 512"
definition STREAM_TYPE_CONNECT_TCP :: u64 where "STREAM_TYPE_CONNECT_TCP = 0x01"
definition STREAM_TYPE_UDP_SESSION :: u64 where "STREAM_TYPE_UDP_SESSION = 0x02"
definition STATUS_OK :: u8 where "STATUS_OK = 0"
definition STATUS_ERROR :: u8 where "STATUS_ERROR = 1"
definition FEAT_UDP_RELAY :: u64 where "FEAT_UDP_RELAY = push_bit 0 1"
definition MAX_CLIENT_ID :: nat where "MAX_CLIENT_ID = 63"
definition MAX_AUTH_TOKEN :: nat where "MAX_AUTH_TOKEN = 255"
definition MAX_SERVER_ID :: nat where "MAX_SERVER_ID = 63"
definition MAX_HOST :: nat where "MAX_HOST = 255"
definition MAX_MESSAGE :: nat where "MAX_MESSAGE = 255"

lemmas frame_consts = MAX_FRAME_def STATUS_OK_def STATUS_ERROR_def MAX_CLIENT_ID_def
  MAX_AUTH_TOKEN_def MAX_SERVER_ID_def MAX_HOST_def MAX_MESSAGE_def

datatype auth_err = AuthOk | AuthFailed | AuthTokenExpired | AuthPolicyDenied

definition auth_err_from_raw :: "u64 \<Rightarrow> auth_err option" where
  "auth_err_from_raw v =
     (if v = 0 then Some AuthOk else if v = 1 then Some AuthFailed
      else if v = 2 then Some AuthTokenExpired else if v = 3 then Some AuthPolicyDenied else None)"

datatype tcp_err = TcpOk | TcpDnsFailed | TcpConnRefused | TcpTimeout | TcpPolicyDenied

definition tcp_err_from_raw :: "u64 \<Rightarrow> tcp_err option" where
  "tcp_err_from_raw v =
     (if v = 0 then Some TcpOk else if v = 1 then Some TcpDnsFailed
      else if v = 2 then Some TcpConnRefused else if v = 3 then Some TcpTimeout
      else if v = 4 then Some TcpPolicyDenied else None)"

datatype udp_err = UdpDnsFailed | UdpSocketFailed | UdpPolicyDenied | UdpSessionLimit

definition udp_err_from_raw :: "u64 \<Rightarrow> udp_err option" where
  "udp_err_from_raw v =
     (if v = 1 then Some UdpDnsFailed else if v = 2 then Some UdpSocketFailed
      else if v = 3 then Some UdpPolicyDenied else if v = 4 then Some UdpSessionLimit else None)"

datatype addr_type = Ipv4 | Domain | Ipv6

definition addr_type_from_raw :: "u8 \<Rightarrow> addr_type option" where
  "addr_type_from_raw v =
     (if v = 0x01 then Some Ipv4 else if v = 0x03 then Some Domain
      else if v = 0x04 then Some Ipv6 else None)"

text \<open>The discriminants, the value of \<open>address_type as u8\<close>.\<close>

fun addr_type_raw :: "addr_type \<Rightarrow> u8" where
  "addr_type_raw Ipv4 = 0x01"
| "addr_type_raw Domain = 0x03"
| "addr_type_raw Ipv6 = 0x04"

lemma addr_type_from_raw_raw [simp]: "addr_type_from_raw (addr_type_raw a) = Some a"
  by (cases a) (simp_all add: addr_type_from_raw_def)

datatype decode_error = DecShort | DecBadValue | DecInvalid
datatype encode_error = EncShort | EncTooLong | EncBadValue

section \<open>The frames\<close>

record auth_req =
  arq_version :: u64
  arq_client_id :: bytes
  arq_auth_token :: bytes
  arq_features :: u64

record auth_resp =
  ars_status :: u8
  ars_error_code :: u64
  ars_server_id :: bytes
  ars_features :: u64

record connect_tcp_req =
  ctq_flags :: u64
  ctq_address_type :: addr_type
  ctq_host :: bytes
  ctq_port :: u16

record connect_tcp_resp =
  ctr_status :: u8
  ctr_error_code :: u64
  ctr_message :: bytes

record udp_session_open =
  uso_session_id :: u32
  uso_flags :: u64
  uso_address_type :: addr_type
  uso_host :: bytes
  uso_port :: u16
  uso_idle_timeout_ms :: u64

record udp_session_resp =
  usr_status :: u8
  usr_error_code :: u64
  usr_message :: bytes
  usr_idle_timeout_ms :: u64

definition udp_session_resp_error :: "udp_session_resp \<Rightarrow> udp_err option" where
  "udp_session_resp_error f = udp_err_from_raw (usr_error_code f)"

definition udp_session_resp_is_ok :: "udp_session_resp \<Rightarrow> bool" where
  "udp_session_resp_is_ok f \<longleftrightarrow> usr_status f = STATUS_OK"

definition auth_resp_error :: "auth_resp \<Rightarrow> auth_err option" where
  "auth_resp_error f = auth_err_from_raw (ars_error_code f)"

definition auth_resp_is_ok :: "auth_resp \<Rightarrow> bool" where
  "auth_resp_is_ok f \<longleftrightarrow> ars_status f = STATUS_OK"

definition connect_tcp_resp_error :: "connect_tcp_resp \<Rightarrow> tcp_err option" where
  "connect_tcp_resp_error f = tcp_err_from_raw (ctr_error_code f)"

definition connect_tcp_resp_is_ok :: "connect_tcp_resp \<Rightarrow> bool" where
  "connect_tcp_resp_is_ok f \<longleftrightarrow> ctr_status f = STATUS_OK"

section \<open>The reading cursor\<close>

record cursor =
  cu_buf :: bytes
  cu_off :: nat

definition cursor_new :: "bytes \<Rightarrow> cursor" where
  "cursor_new buf = \<lparr>cu_buf = buf, cu_off = 0\<rparr>"

definition cursor_bytes :: "nat \<Rightarrow> (cursor, bytes, decode_error) est" where
  "cursor_bytes n c =
     (let rest = drop (cu_off c) (cu_buf c) in
      if length rest < n then (Err DecShort, c)
      else (Ok (take n rest), c\<lparr>cu_off := cu_off c + n\<rparr>))"

definition cursor_u8 :: "(cursor, u8, decode_error) est" where
  "cursor_u8 = est_bind (cursor_bytes 1) (\<lambda>b. est_return (b ! 0))"

definition cursor_u16 :: "(cursor, u16, decode_error) est" where
  "cursor_u16 = est_bind (cursor_bytes 2) (\<lambda>b. est_return (from_be [b ! 0, b ! 1]))"

definition cursor_varint :: "(cursor, u64, decode_error) est" where
  "cursor_varint c =
     (case varint_decode (drop (cu_off c) (cu_buf c)) of
        Err _ \<Rightarrow> (Err DecShort, c)
      | Ok (v, n) \<Rightarrow> (Ok v, c\<lparr>cu_off := cu_off c + n\<rparr>))"

definition cursor_string :: "nat \<Rightarrow> (cursor, bytes, decode_error) est" where
  "cursor_string cap =
     est_bind cursor_varint (\<lambda>len.
       if cap < unat len then est_fail DecBadValue else cursor_bytes (unat len))"

definition cursor_finish :: "(cursor, nat, decode_error) est" where
  "cursor_finish =
     est_bind cursor_varint (\<lambda>pad.
     est_bind (cursor_bytes (unat pad)) (\<lambda>_. \<lambda>c. (Ok (cu_off c), c)))"

section \<open>The writing cursor\<close>

record cursor_mut =
  cm_buf :: bytes
  cm_off :: nat

definition cursor_mut_new :: "bytes \<Rightarrow> cursor_mut" where
  "cursor_mut_new buf = \<lparr>cm_buf = buf, cm_off = 0\<rparr>"

definition cursor_mut_bytes :: "bytes \<Rightarrow> (cursor_mut, unit, encode_error) est" where
  "cursor_mut_bytes b w =
     (if length (drop (cm_off w) (cm_buf w)) < length b then (Err EncShort, w)
      else (Ok (), \<lparr>cm_buf = take (cm_off w) (cm_buf w) @ b @ drop (cm_off w + length b) (cm_buf w),
                    cm_off = cm_off w + length b\<rparr>))"

definition cursor_mut_varint :: "u64 \<Rightarrow> (cursor_mut, unit, encode_error) est" where
  "cursor_mut_varint v w =
     (case varint_encode v (drop (cm_off w) (cm_buf w)) of
        (Err VarintTooLarge, _) \<Rightarrow> (Err EncBadValue, w)
      | (Err VarintShort, _) \<Rightarrow> (Err EncShort, w)
      | (Ok n, rest) \<Rightarrow> (Ok (), \<lparr>cm_buf = take (cm_off w) (cm_buf w) @ rest, cm_off = cm_off w + n\<rparr>))"

definition cursor_mut_string :: "bytes \<Rightarrow> nat \<Rightarrow> (cursor_mut, unit, encode_error) est" where
  "cursor_mut_string s cap =
     (if cap < length s then est_fail EncTooLong
      else est_bind (cursor_mut_varint (of_nat (length s))) (\<lambda>_. cursor_mut_bytes s))"

definition cursor_mut_finish :: "(cursor_mut, nat, encode_error) est" where
  "cursor_mut_finish = est_bind (cursor_mut_varint 0) (\<lambda>_ w. (Ok (cm_off w), w))"

text \<open>A frame encoder owns the output buffer through its cursor.\<close>

definition run_encoder ::
  "(cursor_mut, nat, encode_error) est \<Rightarrow> bytes \<Rightarrow> (nat, encode_error) result \<times> bytes" where
  "run_encoder m out = (case m (cursor_mut_new out) of (r, w) \<Rightarrow> (r, cm_buf w))"

definition run_decoder :: "(cursor, 'a, decode_error) est \<Rightarrow> bytes \<Rightarrow> ('a, decode_error) result" where
  "run_decoder m buf = fst (m (cursor_new buf))"

section \<open>The frame codecs\<close>

definition auth_req_encode :: "auth_req \<Rightarrow> bytes \<Rightarrow> (nat, encode_error) result \<times> bytes" where
  "auth_req_encode f = run_encoder (
     est_bind (cursor_mut_varint (arq_version f)) (\<lambda>_.
     est_bind (cursor_mut_string (arq_client_id f) MAX_CLIENT_ID) (\<lambda>_.
     est_bind (cursor_mut_string (arq_auth_token f) MAX_AUTH_TOKEN) (\<lambda>_.
     est_bind (cursor_mut_varint (arq_features f)) (\<lambda>_.
     cursor_mut_finish)))))"

definition auth_req_decode :: "bytes \<Rightarrow> (auth_req \<times> nat, decode_error) result" where
  "auth_req_decode = run_decoder (
     est_bind cursor_varint (\<lambda>version.
     est_bind (cursor_string MAX_CLIENT_ID) (\<lambda>client_id.
     est_bind (cursor_string MAX_AUTH_TOKEN) (\<lambda>auth_token.
     est_bind cursor_varint (\<lambda>features.
     est_bind cursor_finish (\<lambda>n.
     est_return (\<lparr>arq_version = version, arq_client_id = client_id, arq_auth_token = auth_token,
                  arq_features = features\<rparr>, n)))))))"

definition auth_resp_encode :: "auth_resp \<Rightarrow> bytes \<Rightarrow> (nat, encode_error) result \<times> bytes" where
  "auth_resp_encode f = run_encoder (
     est_bind (cursor_mut_bytes [ars_status f]) (\<lambda>_.
     est_bind (cursor_mut_varint (ars_error_code f)) (\<lambda>_.
     est_bind (cursor_mut_string (ars_server_id f) MAX_SERVER_ID) (\<lambda>_.
     est_bind (cursor_mut_varint (ars_features f)) (\<lambda>_.
     cursor_mut_finish)))))"

definition auth_resp_decode :: "bytes \<Rightarrow> (auth_resp \<times> nat, decode_error) result" where
  "auth_resp_decode = run_decoder (
     est_bind cursor_u8 (\<lambda>status.
     est_bind cursor_varint (\<lambda>error_code.
     est_bind (cursor_string MAX_SERVER_ID) (\<lambda>server_id.
     est_bind cursor_varint (\<lambda>features.
     est_bind cursor_finish (\<lambda>n.
     est_return (\<lparr>ars_status = status, ars_error_code = error_code, ars_server_id = server_id,
                  ars_features = features\<rparr>, n)))))))"

definition connect_tcp_req_encode ::
  "connect_tcp_req \<Rightarrow> bytes \<Rightarrow> (nat, encode_error) result \<times> bytes" where
  "connect_tcp_req_encode f = run_encoder (
     est_bind (cursor_mut_varint (ctq_flags f)) (\<lambda>_.
     est_bind (cursor_mut_bytes [addr_type_raw (ctq_address_type f)]) (\<lambda>_.
     est_bind (cursor_mut_string (ctq_host f) MAX_HOST) (\<lambda>_.
     est_bind (cursor_mut_bytes (be_bytes 2 (ctq_port f))) (\<lambda>_.
     cursor_mut_finish)))))"

definition connect_tcp_req_decode :: "bytes \<Rightarrow> (connect_tcp_req \<times> nat, decode_error) result" where
  "connect_tcp_req_decode = run_decoder (
     est_bind cursor_varint (\<lambda>flags.
     est_bind cursor_u8 (\<lambda>raw.
     case addr_type_from_raw raw of
       None \<Rightarrow> est_fail DecBadValue
     | Some address_type \<Rightarrow>
     est_bind (cursor_string MAX_HOST) (\<lambda>host.
     est_bind cursor_u16 (\<lambda>port.
     est_bind cursor_finish (\<lambda>n.
     est_return (\<lparr>ctq_flags = flags, ctq_address_type = address_type, ctq_host = host,
                  ctq_port = port\<rparr>, n)))))))"

definition connect_tcp_resp_encode ::
  "connect_tcp_resp \<Rightarrow> bytes \<Rightarrow> (nat, encode_error) result \<times> bytes" where
  "connect_tcp_resp_encode f = run_encoder (
     est_bind (cursor_mut_bytes [ctr_status f]) (\<lambda>_.
     est_bind (cursor_mut_varint (ctr_error_code f)) (\<lambda>_.
     est_bind (cursor_mut_string (ctr_message f) MAX_MESSAGE) (\<lambda>_.
     cursor_mut_finish))))"

definition connect_tcp_resp_decode :: "bytes \<Rightarrow> (connect_tcp_resp \<times> nat, decode_error) result" where
  "connect_tcp_resp_decode = run_decoder (
     est_bind cursor_u8 (\<lambda>status.
     est_bind cursor_varint (\<lambda>error_code.
     est_bind (cursor_string MAX_MESSAGE) (\<lambda>message.
     est_bind cursor_finish (\<lambda>n.
     est_return (\<lparr>ctr_status = status, ctr_error_code = error_code, ctr_message = message\<rparr>, n))))))"

definition udp_session_open_encode ::
  "udp_session_open \<Rightarrow> bytes \<Rightarrow> (nat, encode_error) result \<times> bytes" where
  "udp_session_open_encode f = run_encoder (
     est_bind (cursor_mut_varint (ucast (uso_session_id f))) (\<lambda>_.
     est_bind (cursor_mut_varint (uso_flags f)) (\<lambda>_.
     est_bind (cursor_mut_bytes [addr_type_raw (uso_address_type f)]) (\<lambda>_.
     est_bind (cursor_mut_string (uso_host f) MAX_HOST) (\<lambda>_.
     est_bind (cursor_mut_bytes (be_bytes 2 (uso_port f))) (\<lambda>_.
     est_bind (cursor_mut_varint (uso_idle_timeout_ms f)) (\<lambda>_.
     cursor_mut_finish)))))))"

definition udp_session_open_decode :: "bytes \<Rightarrow> (udp_session_open \<times> nat, decode_error) result" where
  "udp_session_open_decode = run_decoder (
     est_bind cursor_varint (\<lambda>sid.
     if 2 ^ 32 \<le> unat sid then est_fail DecInvalid else
     est_bind cursor_varint (\<lambda>flags.
     est_bind cursor_u8 (\<lambda>raw.
     case addr_type_from_raw raw of
       None \<Rightarrow> est_fail DecInvalid
     | Some address_type \<Rightarrow>
     est_bind (cursor_string MAX_HOST) (\<lambda>host.
     est_bind cursor_u16 (\<lambda>port.
     est_bind cursor_varint (\<lambda>idle_timeout_ms.
     est_bind cursor_finish (\<lambda>n.
     est_return (\<lparr>uso_session_id = ucast sid, uso_flags = flags, uso_address_type = address_type,
                  uso_host = host, uso_port = port, uso_idle_timeout_ms = idle_timeout_ms\<rparr>, n)))))))))"

definition udp_status_code_valid :: "u8 \<Rightarrow> u64 \<Rightarrow> bool" where
  "udp_status_code_valid status error_code \<longleftrightarrow>
     (status = STATUS_OK \<and> error_code = 0) \<or>
     (status = STATUS_ERROR \<and> 1 \<le> error_code \<and> error_code \<le> 4)"

definition udp_session_resp_encode ::
  "udp_session_resp \<Rightarrow> bytes \<Rightarrow> (nat, encode_error) result \<times> bytes" where
  "udp_session_resp_encode f out =
     (if \<not> udp_status_code_valid (usr_status f) (usr_error_code f) then (Err EncBadValue, out)
      else run_encoder (
     est_bind (cursor_mut_bytes [usr_status f]) (\<lambda>_.
     est_bind (cursor_mut_varint (usr_error_code f)) (\<lambda>_.
     est_bind (cursor_mut_string (usr_message f) MAX_MESSAGE) (\<lambda>_.
     est_bind (cursor_mut_varint (usr_idle_timeout_ms f)) (\<lambda>_.
     cursor_mut_finish))))) out)"

definition udp_session_resp_decode :: "bytes \<Rightarrow> (udp_session_resp \<times> nat, decode_error) result" where
  "udp_session_resp_decode = run_decoder (
     est_bind cursor_u8 (\<lambda>status.
     est_bind cursor_varint (\<lambda>error_code.
     if \<not> udp_status_code_valid status error_code then est_fail DecInvalid else
     est_bind (cursor_string MAX_MESSAGE) (\<lambda>message.
     est_bind cursor_varint (\<lambda>idle_timeout_ms.
     est_bind cursor_finish (\<lambda>n.
     est_return (\<lparr>usr_status = status, usr_error_code = error_code, usr_message = message,
                  usr_idle_timeout_ms = idle_timeout_ms\<rparr>, n)))))))"

section \<open>How readers and writers compose\<close>

text \<open>
  \<open>reads m bs x\<close>: on any input with \<open>bs\<close> next, \<open>m\<close> consumes exactly \<open>bs\<close> and returns \<open>x\<close>.
  \<open>streaming m\<close>: \<open>m\<close> never moves backwards or past the end, and an answer other than \<open>Short\<close>
  does not change when more input is appended.
\<close>

definition reads :: "(cursor, 'a, decode_error) est \<Rightarrow> bytes \<Rightarrow> 'a \<Rightarrow> bool" where
  "reads m bs x \<longleftrightarrow>
     (\<forall>pre rest. m \<lparr>cu_buf = pre @ bs @ rest, cu_off = length pre\<rparr>
        = (Ok x, \<lparr>cu_buf = pre @ bs @ rest, cu_off = length (pre @ bs)\<rparr>))"

lemma reads_bind [codec_intros]:
  assumes "reads m bs x" and "reads (k x) cs y"
  shows "reads (est_bind m k) (bs @ cs) y"
  unfolding reads_def
proof (intro allI)
  fix pre rest
  have "m \<lparr>cu_buf = pre @ (bs @ cs) @ rest, cu_off = length pre\<rparr>
      = (Ok x, \<lparr>cu_buf = (pre @ bs) @ cs @ rest, cu_off = length (pre @ bs)\<rparr>)"
    using assms(1) [unfolded reads_def, rule_format, of pre "cs @ rest"] by simp
  then show "est_bind m k \<lparr>cu_buf = pre @ (bs @ cs) @ rest, cu_off = length pre\<rparr>
      = (Ok y, \<lparr>cu_buf = pre @ (bs @ cs) @ rest, cu_off = length (pre @ bs @ cs)\<rparr>)"
    using assms(2) [unfolded reads_def, rule_format, of "pre @ bs" rest] by (simp add: est_bind_def)
qed

lemma reads_return [codec_intros]: "reads (est_return x) [] x"
  by (simp add: reads_def est_return_def)

lemma reads_bytes [codec_intros]: "length bs = n \<Longrightarrow> reads (cursor_bytes n) bs bs"
  by (auto simp: reads_def cursor_bytes_def)

lemma reads_map: "reads m bs x \<Longrightarrow> reads (est_bind m (\<lambda>y. est_return (f y))) bs (f x)"
  using reads_bind [of m bs x "\<lambda>y. est_return (f y)" "[]" "f x"] reads_return [of "f x"] by simp

lemma reads_u8 [codec_intros]: "reads cursor_u8 [b] b"
  using reads_map [OF reads_bytes [of "[b]" 1], of "\<lambda>b. b ! 0"] by (simp add: cursor_u8_def)

lemma from_be_be_bytes_2: "from_be [be_bytes 2 w ! 0, be_bytes 2 w ! 1] = (w :: u16)"
proof -
  have "[be_bytes 2 w ! 0, be_bytes 2 w ! 1] = be_bytes 2 w"
    by (simp add: numeral_2_eq_2)
  then show ?thesis by (simp add: from_be_be_bytes take_bit_word_eq_self)
qed

lemma reads_u16 [codec_intros]: "reads cursor_u16 (be_bytes 2 p) p"
  using reads_map [OF reads_bytes [of "be_bytes 2 p" 2], of "\<lambda>b. from_be [b ! 0, b ! 1] :: u16"]
  by (simp add: cursor_u16_def from_be_be_bytes_2 [unfolded One_nat_def])

lemma reads_varint [codec_intros]: "v \<le> varint_MAX \<Longrightarrow> reads cursor_varint (varint_wire v) v"
  by (simp add: reads_def cursor_varint_def varint_decode_wire)

definition string_wire :: "bytes \<Rightarrow> bytes" where
  "string_wire s = varint_wire (of_nat (length s)) @ s"

lemma of_nat_length_varint:
  assumes "length s \<le> 255"
  shows "(of_nat (length s) :: u64) \<le> varint_MAX" and "unat (of_nat (length s) :: u64) = length s"
proof -
  show u: "unat (of_nat (length s) :: u64) = length s"
    using assms by (simp add: unat_of_nat)
  show "(of_nat (length s) :: u64) \<le> varint_MAX"
    using assms by (simp add: word_le_nat_alt u varint_MAX_def)
qed

lemma reads_string [codec_intros]:
  assumes "length s \<le> cap" and "cap \<le> 255"
  shows "reads (cursor_string cap) (string_wire s) s"
  unfolding cursor_string_def string_wire_def
  using assms of_nat_length_varint [of s]
  by (intro reads_bind [where x = "of_nat (length s)"] codec_intros) (auto intro: codec_intros)

definition streaming :: "(cursor, 'a, decode_error) est \<Rightarrow> bool" where
  "streaming m \<longleftrightarrow>
     (\<forall>c r c' xs. cu_off c \<le> length (cu_buf c) \<longrightarrow> m c = (r, c') \<longrightarrow>
        cu_buf c' = cu_buf c \<and> cu_off c \<le> cu_off c' \<and> cu_off c' \<le> length (cu_buf c) \<and>
        (r \<noteq> Err DecShort \<longrightarrow>
          m (c\<lparr>cu_buf := cu_buf c @ xs\<rparr>) = (r, c'\<lparr>cu_buf := cu_buf c @ xs\<rparr>)))"

lemma streaming_bind [codec_intros]:
  assumes "streaming m" and "\<And>x. streaming (k x)"
  shows "streaming (est_bind m k)"
  unfolding streaming_def
proof (intro allI impI)
  fix c r c' xs
  assume off: "cu_off c \<le> length (cu_buf c)" and run: "est_bind m k c = (r, c')"
  obtain q c1 where m: "m c = (q, c1)" by fastforce
  note M = assms(1) [unfolded streaming_def, rule_format, OF off m]
  show "cu_buf c' = cu_buf c \<and> cu_off c \<le> cu_off c' \<and> cu_off c' \<le> length (cu_buf c) \<and>
    (r \<noteq> Err DecShort \<longrightarrow>
      est_bind m k (c\<lparr>cu_buf := cu_buf c @ xs\<rparr>) = (r, c'\<lparr>cu_buf := cu_buf c @ xs\<rparr>))"
  proof (cases q)
    case (Err e)
    with run m have "r = Err e" and "c' = c1" by (auto simp: est_bind_def)
    with M [of xs] Err show ?thesis by (auto simp: est_bind_def)
  next
    case (Ok x)
    with run m have kx: "k x c1 = (r, c')" by (simp add: est_bind_def)
    have b1: "cu_buf c1 = cu_buf c" and o1: "cu_off c1 \<le> length (cu_buf c1)"
      and mx: "m (c\<lparr>cu_buf := cu_buf c @ xs\<rparr>) = (Ok x, c1\<lparr>cu_buf := cu_buf c1 @ xs\<rparr>)"
      using M [of xs] Ok by auto
    note K = assms(2) [of x, unfolded streaming_def, rule_format, OF o1 kx]
    from K [of xs] M [of xs] b1 mx show ?thesis by (auto simp: est_bind_def)
  qed
qed

lemma streaming_return [codec_intros]: "streaming (est_return x)"
  by (auto simp: streaming_def est_return_def)

lemma streaming_fail [codec_intros]: "streaming (est_fail e)"
  by (auto simp: streaming_def est_fail_def)

lemma streaming_if [codec_intros]: "streaming m \<Longrightarrow> streaming n \<Longrightarrow> streaming (if b then m else n)"
  by simp

lemma streaming_option [codec_intros]:
  "streaming m \<Longrightarrow> (\<And>x. streaming (f x)) \<Longrightarrow> streaming (case z of None \<Rightarrow> m | Some x \<Rightarrow> f x)"
  by (cases z) simp_all

lemma streaming_bytes [codec_intros]: "streaming (cursor_bytes n)"
  by (auto simp: streaming_def cursor_bytes_def Let_def split: if_splits)

lemma streaming_u8 [codec_intros]: "streaming cursor_u8"
  unfolding cursor_u8_def by (intro codec_intros)

lemma streaming_u16 [codec_intros]: "streaming cursor_u16"
  unfolding cursor_u16_def by (intro codec_intros)

lemma streaming_varint [codec_intros]: "streaming cursor_varint"
  unfolding streaming_def
proof (intro allI impI)
  fix c c' :: cursor and r xs
  let ?d = "drop (cu_off c) (cu_buf c)"
  assume off: "cu_off c \<le> length (cu_buf c)" and run: "cursor_varint c = (r, c')"
  show "cu_buf c' = cu_buf c \<and> cu_off c \<le> cu_off c' \<and> cu_off c' \<le> length (cu_buf c) \<and>
    (r \<noteq> Err DecShort \<longrightarrow>
      cursor_varint (c\<lparr>cu_buf := cu_buf c @ xs\<rparr>) = (r, c'\<lparr>cu_buf := cu_buf c @ xs\<rparr>))"
  proof (cases "varint_decode ?d")
    case (Err e)
    with run off show ?thesis by (auto simp: cursor_varint_def)
  next
    case (Ok q)
    obtain v n where q: "q = (v, n)" by fastforce
    have "n \<le> length ?d" and "varint_decode (?d @ xs) = Ok (v, n)"
      using Ok q by (auto dest: varint_decode_OkE(2) varint_decode_append)
    with run off Ok q show ?thesis by (auto simp: cursor_varint_def)
  qed
qed

lemma streaming_string [codec_intros]: "streaming (cursor_string cap)"
  unfolding cursor_string_def by (auto intro!: codec_intros)

lemma streaming_finish [codec_intros]: "streaming cursor_finish"
proof -
  have "streaming (\<lambda>c. (Ok (cu_off c), c) :: (nat, decode_error) result \<times> cursor)"
    by (auto simp: streaming_def)
  then show ?thesis unfolding cursor_finish_def by (intro codec_intros)
qed

text \<open>
  \<open>emits m bs g\<close>: the writer \<open>m\<close> puts exactly \<open>bs\<close> at the cursor when it fits and returns \<open>g\<close>
  of the new offset; otherwise it is \<open>Short\<close>. \<open>refuses m\<close>: it never succeeds.
\<close>

definition emits :: "(cursor_mut, 'a, encode_error) est \<Rightarrow> bytes \<Rightarrow> (nat \<Rightarrow> 'a) \<Rightarrow> bool" where
  "emits m bs g \<longleftrightarrow>
     (\<forall>buf off. off \<le> length buf \<longrightarrow>
        (if off + length bs \<le> length buf
         then m \<lparr>cm_buf = buf, cm_off = off\<rparr>
           = (Ok (g (off + length bs)),
              \<lparr>cm_buf = take off buf @ bs @ drop (off + length bs) buf, cm_off = off + length bs\<rparr>)
         else fst (m \<lparr>cm_buf = buf, cm_off = off\<rparr>) = Err EncShort))"

definition refuses :: "(cursor_mut, 'a, encode_error) est \<Rightarrow> bool" where
  "refuses m \<longleftrightarrow> (\<forall>w. \<not> is_ok_result (fst (m w)))"

lemma emits_bind [codec_intros]:
  assumes "emits a xs (\<lambda>_. ())" and "emits b ys g"
  shows "emits (est_bind a (\<lambda>_. b)) (xs @ ys) g"
  unfolding emits_def
proof (intro allI impI)
  fix buf :: bytes and off
  assume off: "off \<le> length buf"
  let ?w = "\<lparr>cm_buf = buf, cm_off = off\<rparr>"
  note A = assms(1) [unfolded emits_def, rule_format, OF off]
  show "if off + length (xs @ ys) \<le> length buf
     then est_bind a (\<lambda>_. b) ?w
       = (Ok (g (off + length (xs @ ys))),
          \<lparr>cm_buf = take off buf @ (xs @ ys) @ drop (off + length (xs @ ys)) buf,
           cm_off = off + length (xs @ ys)\<rparr>)
     else fst (est_bind a (\<lambda>_. b) ?w) = Err EncShort"
  proof (cases "off + length xs \<le> length buf")
    case False
    with A show ?thesis by (auto simp: est_bind_def split: prod.splits result.splits)
  next
    case True
    let ?buf1 = "take off buf @ xs @ drop (off + length xs) buf"
    have len1: "length ?buf1 = length buf" using True by simp
    have a: "a ?w = (Ok (), \<lparr>cm_buf = ?buf1, cm_off = off + length xs\<rparr>)"
      using A True by simp
    have bind: "est_bind a (\<lambda>_. b) ?w = b \<lparr>cm_buf = ?buf1, cm_off = off + length xs\<rparr>"
      by (simp add: est_bind_def a)
    have pre: "take (off + length xs) ?buf1 = take off buf @ xs" using off by simp
    have post: "drop (off + length xs + length ys) ?buf1 = drop (off + length xs + length ys) buf"
      using off True by (simp add: drop_append) (simp add: add.commute add.left_commute)
    have "off + length xs \<le> length ?buf1" using True len1 by simp
    from assms(2) [unfolded emits_def, rule_format, OF this] show ?thesis
      by (simp only: len1 pre post bind) (simp add: add.assoc split: if_splits)
  qed
qed

lemma emits_bytes [codec_intros]: "emits (cursor_mut_bytes bs) bs (\<lambda>_. ())"
  by (auto simp: emits_def cursor_mut_bytes_def)

lemma emits_varint [codec_intros]:
  assumes "v \<le> varint_MAX"
  shows "emits (cursor_mut_varint v) (varint_wire v) (\<lambda>_. ())"
proof -
  have "varint_encode v d = (Err VarintShort, d)" if "length d < varint_len v" for d
    using that assms by (simp add: varint_encode_def)
  then show ?thesis using assms
    by (auto simp: emits_def cursor_mut_varint_def varint_encode_Ok add.commute)
qed

lemma emits_string [codec_intros]:
  assumes "length s \<le> cap" and "cap \<le> 255"
  shows "emits (cursor_mut_string s cap) (string_wire s) (\<lambda>_. ())"
  using assms of_nat_length_varint [of s]
  by (auto simp: cursor_mut_string_def string_wire_def intro!: codec_intros)

text \<open>Padding on the wire: its length, then that many bytes, which the reader skips.\<close>

definition pad_wire :: "bytes \<Rightarrow> bytes" where
  "pad_wire p = varint_wire (of_nat (length p)) @ p"

lemma emits_finish [codec_intros]: "emits cursor_mut_finish (pad_wire []) (\<lambda>n. n)"
proof -
  have "emits (\<lambda>w. (Ok (cm_off w), w)) [] (\<lambda>n. n)" by (simp add: emits_def)
  then have "emits cursor_mut_finish (varint_wire 0 @ []) (\<lambda>n. n)"
    unfolding cursor_mut_finish_def by (intro emits_bind emits_varint) (simp_all add: varint_MAX_def)
  then show ?thesis by (simp add: pad_wire_def)
qed

lemma refuses_bind: "(\<not> refuses a \<Longrightarrow> refuses b) \<Longrightarrow> refuses (est_bind a (\<lambda>_. b))"
  by (auto simp: refuses_def est_bind_def split: prod.splits result.splits)
    (metis is_ok_result.simps(1) fst_conv)

lemma refuses_string: "cap < length s \<Longrightarrow> refuses (cursor_mut_string s cap)"
  by (simp add: refuses_def cursor_mut_string_def est_fail_def)

lemma refuses_varint: "varint_MAX < v \<Longrightarrow> refuses (cursor_mut_varint v)"
  by (simp add: refuses_def cursor_mut_varint_def varint_encode_def)

text \<open>What a whole encoder does with the caller's buffer.\<close>

definition enc_outcome :: "bytes \<Rightarrow> bytes \<Rightarrow> (nat, encode_error) result \<times> bytes \<Rightarrow> bool" where
  "enc_outcome w out res \<longleftrightarrow>
     (if length w \<le> length out then res = (Ok (length w), w @ drop (length w) out)
      else fst res = Err EncShort)"

lemma run_encoder_emits:
  assumes "emits m bs (\<lambda>n. n)"
  shows "enc_outcome bs out (run_encoder m out)"
  using assms [unfolded emits_def, rule_format, of 0 out]
  by (auto simp: run_encoder_def enc_outcome_def cursor_mut_new_def split: prod.splits if_splits)

lemma run_encoder_refuses:
  "refuses m \<Longrightarrow> \<not> is_ok_result (fst (run_encoder m out))"
  by (auto simp: refuses_def run_encoder_def split: prod.splits) (metis fst_conv)

text \<open>\<open>decodes\<close> is \<open>reads\<close> for a whole frame: the frame and its length from the start of the input.\<close>

definition decodes :: "(cursor, 'a \<times> nat, decode_error) est \<Rightarrow> bytes \<Rightarrow> 'a \<Rightarrow> bool" where
  "decodes m bs x \<longleftrightarrow>
     (\<forall>pre rest. fst (m \<lparr>cu_buf = pre @ bs @ rest, cu_off = length pre\<rparr>) = Ok (x, length (pre @ bs)))"

lemma decodes_bind [codec_intros]:
  assumes "reads m bs x" and "decodes (k x) cs y"
  shows "decodes (est_bind m k) (bs @ cs) y"
  unfolding decodes_def
proof (intro allI)
  fix pre rest
  have "m \<lparr>cu_buf = pre @ (bs @ cs) @ rest, cu_off = length pre\<rparr>
      = (Ok x, \<lparr>cu_buf = (pre @ bs) @ cs @ rest, cu_off = length (pre @ bs)\<rparr>)"
    using assms(1) [unfolded reads_def, rule_format, of pre "cs @ rest"] by simp
  then show "fst (est_bind m k \<lparr>cu_buf = pre @ (bs @ cs) @ rest, cu_off = length pre\<rparr>)
      = Ok (y, length (pre @ bs @ cs))"
    using assms(2) [unfolded decodes_def, rule_format, of "pre @ bs" rest] by (simp add: est_bind_def)
qed

lemma decodes_u8 [codec_intros]:
  assumes "decodes (k b) cs y"
  shows "decodes (est_bind cursor_u8 k) (b # cs) y"
  using decodes_bind [OF reads_u8 [of b], of k cs y] assms by simp

lemma decodes_finish [codec_intros]:
  assumes "length p \<le> unat varint_MAX" and "x = y"
  shows "decodes (est_bind cursor_finish (\<lambda>n. est_return (x, n))) (pad_wire p) y"
proof -
  have u: "unat (of_nat (length p) :: u64) = length p"
    using assms(1) by (simp add: unat_of_nat varint_MAX_def)
  then have le: "(of_nat (length p) :: u64) \<le> varint_MAX"
    using assms by (simp add: word_le_nat_alt)
  have "decodes (est_bind (cursor_bytes (length p)) (\<lambda>_ c. (Ok (x, cu_off c), c))) p x"
    by (auto simp: decodes_def est_bind_def cursor_bytes_def)
  with reads_varint [OF le]
  have "decodes (est_bind cursor_varint (\<lambda>pad. est_bind (cursor_bytes (unat pad)) (\<lambda>_ c. (Ok (x, cu_off c), c))))
      (pad_wire p) x"
    unfolding pad_wire_def by (intro decodes_bind [where x = "of_nat (length p)"]) (simp_all only: u)
  moreover have "est_bind cursor_finish (\<lambda>n. est_return (x, n))
      = est_bind cursor_varint (\<lambda>pad. est_bind (cursor_bytes (unat pad)) (\<lambda>_ c. (Ok (x, cu_off c), c)))"
    unfolding cursor_finish_def est_bind_assoc
    by (rule arg_cong [where f = "est_bind cursor_varint"])
      (auto simp: est_bind_def est_return_def fun_eq_iff split: prod.splits result.splits)
  ultimately show ?thesis by (simp add: assms(2))
qed

lemma run_decoder_decodes: "decodes m bs x \<Longrightarrow> run_decoder m (bs @ rest) = Ok (x, length bs)"
  by (auto simp: decodes_def run_decoder_def cursor_new_def dest: spec [of _ "[]"])

lemma run_decoder_padded:
  "decodes m (b @ p) x \<Longrightarrow> run_decoder m (b @ p @ rest) = Ok (x, length (b @ p))"
  using run_decoder_decodes [of m "b @ p" x rest] by simp

lemma run_decoder_OkE:
  assumes "run_decoder m buf = Ok x"
  obtains c' where "m (cursor_new buf) = (Ok x, c')"
  using assms by (cases "m (cursor_new buf)") (auto simp: run_decoder_def)

lemma run_decoder_streaming:
  assumes "streaming m" and "run_decoder m buf \<noteq> Err DecShort"
  shows "run_decoder m (buf @ xs) = run_decoder m buf"
proof -
  obtain r c' where run: "m (cursor_new buf) = (r, c')" by fastforce
  have "cu_off (cursor_new buf) \<le> length (cu_buf (cursor_new buf))" by (simp add: cursor_new_def)
  from assms(1) [unfolded streaming_def, rule_format, OF this run, of xs] assms(2) run
  show ?thesis by (auto simp: run_decoder_def cursor_new_def)
qed

lemma cursor_varint_Ok: "cursor_varint c = (Ok v, c') \<Longrightarrow> v \<le> varint_MAX"
  by (auto simp: cursor_varint_def split: result.splits dest: varint_decode_OkE(3))

lemma cursor_string_Ok: "cursor_string cap c = (Ok s, c') \<Longrightarrow> length s \<le> cap"
  by (auto simp: cursor_string_def cursor_bytes_def est_fail_def Let_def elim!: est_bind_OkE split: if_splits)

lemma cursor_finish_Ok: "cursor_finish c = (Ok n, c') \<Longrightarrow> n = cu_off c'"
  by (auto simp: cursor_finish_def elim!: est_bind_OkE)

text \<open>The length a frame decoder reports never exceeds its input.\<close>

definition reports_len :: "(cursor, 'a \<times> nat, decode_error) est \<Rightarrow> bool" where
  "reports_len m \<longleftrightarrow> (\<forall>c x n c'. m c = (Ok (x, n), c') \<longrightarrow> n = cu_off c')"

lemma reports_len_bind [codec_intros]: "(\<And>x. reports_len (k x)) \<Longrightarrow> reports_len (est_bind m k)"
  by (auto simp: reports_len_def elim!: est_bind_OkE)

lemma reports_len_fail [codec_intros]: "reports_len (est_fail e)"
  by (auto simp: reports_len_def est_fail_def)

lemma reports_len_if [codec_intros]:
  "reports_len m \<Longrightarrow> reports_len n \<Longrightarrow> reports_len (if b then m else n)"
  by simp

lemma reports_len_option [codec_intros]:
  "reports_len m \<Longrightarrow> (\<And>x. reports_len (f x)) \<Longrightarrow> reports_len (case z of None \<Rightarrow> m | Some x \<Rightarrow> f x)"
  by (cases z) simp_all

lemma reports_len_finish [codec_intros]:
  "reports_len (est_bind cursor_finish (\<lambda>n. est_return (x, n)))"
  by (auto simp: reports_len_def est_return_def elim!: est_bind_OkE dest: cursor_finish_Ok)

lemma run_decoder_len:
  assumes "streaming m" and "reports_len m" and "run_decoder m buf = Ok (x, n)"
  shows "n \<le> length buf"
proof -
  obtain r c' where run: "m (cursor_new buf) = (r, c')" by fastforce
  have "cu_off (cursor_new buf) \<le> length (cu_buf (cursor_new buf))" by (simp add: cursor_new_def)
  from assms(1) [unfolded streaming_def, rule_format, OF this run] assms(2,3) run
  show ?thesis by (auto simp: run_decoder_def cursor_new_def reports_len_def)
qed

section \<open>The contract of a frame\<close>

locale frame_codec =
  fixes body :: "'f \<Rightarrow> bytes"
    and wf :: "'f \<Rightarrow> bool"
    and encode :: "'f \<Rightarrow> bytes \<Rightarrow> (nat, encode_error) result \<times> bytes"
    and decode :: "bytes \<Rightarrow> ('f \<times> nat, decode_error) result"
  assumes encode_wf: "wf f \<Longrightarrow> enc_outcome (body f @ pad_wire []) out (encode f out)"
    and encode_not_wf: "\<not> wf f \<Longrightarrow> \<not> is_ok_result (fst (encode f out))"
    and decode_body: "wf f \<Longrightarrow> length p \<le> unat varint_MAX \<Longrightarrow>
      decode (body f @ pad_wire p @ rest) = Ok (f, length (body f @ pad_wire p))"
    and decode_more: "decode buf \<noteq> Err DecShort \<Longrightarrow> decode (buf @ xs) = decode buf"
    and decode_wf: "decode buf = Ok (f, n) \<Longrightarrow> wf f"
    and decode_len: "decode buf = Ok (f, n) \<Longrightarrow> n \<le> length buf"
    and body_bound: "wf f \<Longrightarrow> length (body f) < MAX_FRAME"
begin

lemma encode_Ok_wf: "encode f out = (Ok n, out') \<Longrightarrow> wf f"
  using encode_not_wf [of f out] by auto

lemma encode_Ok_image:
  assumes "encode f out = (Ok n, out')"
  shows "n = length (body f @ pad_wire []) \<and> n \<le> length out \<and> out' = body f @ pad_wire [] @ drop n out"
  using encode_wf [OF encode_Ok_wf [OF assms], of out] assms
  by (auto simp: enc_outcome_def split: if_splits)

lemma roundtrip:
  assumes "encode f out = (Ok n, out')"
  shows "decode out' = Ok (f, n) \<and> n \<le> length out \<and> length out' = length out \<and> drop n out' = drop n out"
proof -
  note img = encode_Ok_image [OF assms]
  then have "decode out' = Ok (f, n)"
    using decode_body [OF encode_Ok_wf [OF assms], of "[]" "drop n out"] by simp
  with img show ?thesis by simp
qed

lemma encode_succeeds:
  assumes "MAX_FRAME \<le> length out"
  shows "is_ok_result (fst (encode f out)) \<longleftrightarrow> wf f"
proof
  assume "wf f"
  then have "length (body f @ pad_wire []) \<le> length out"
    using assms body_bound [of f] by (simp add: pad_wire_def varint_len_def)
  with encode_wf [OF \<open>wf f\<close>, of out] show "is_ok_result (fst (encode f out))"
    by (simp add: enc_outcome_def)
qed (use encode_not_wf in blast)

lemma truncated_is_short:
  assumes "wf f" and "length p \<le> unat varint_MAX" and "k < length (body f @ pad_wire p)"
  shows "decode (take k (body f @ pad_wire p)) = Err DecShort"
proof (rule ccontr)
  let ?w = "body f @ pad_wire p"
  assume ns: "decode (take k ?w) \<noteq> Err DecShort"
  have "decode ?w = decode (take k ?w)"
    using decode_more [OF ns, of "drop k ?w"] by (simp only: append_take_drop_id)
  moreover have "decode ?w = Ok (f, length ?w)"
    using decode_body [OF assms(1,2), of "[]"] by simp
  ultimately have "decode (take k ?w) = Ok (f, length ?w)" by simp
  then have "length ?w \<le> length (take k ?w)" by (rule decode_len)
  with assms(3) show False by simp
qed

lemma encoded_prefix_short:
  assumes "encode f out = (Ok n, out')" and "k < n"
  shows "decode (take k out') = Err DecShort"
proof -
  note img = encode_Ok_image [OF assms(1)]
  from assms(2) img have k: "k < length (body f @ pad_wire [])" by simp
  from img have "take k out' = take k (body f @ pad_wire [])" using k by simp
  with truncated_is_short [OF encode_Ok_wf [OF assms(1)] _ k] show ?thesis by simp
qed

lemma prefix_free:
  assumes "wf f" and "wf g" and "length p \<le> unat varint_MAX" and "length q \<le> unat varint_MAX"
    and "body f @ pad_wire p @ r = body g @ pad_wire q @ r'"
  shows "f = g \<and> r = r'"
proof -
  note df = decode_body [OF assms(1,3), of r] and dg = decode_body [OF assms(2,4), of r']
  have "Ok (f, length (body f @ pad_wire p)) = (Ok (g, length (body g @ pad_wire q)) :: ('f \<times> nat, decode_error) result)"
    unfolding df [symmetric] dg [symmetric] assms(5) ..
  then have fg: "f = g" and len: "length (body f @ pad_wire p) = length (body g @ pad_wire q)"
    unfolding result.inject prod.inject by blast+
  have "(body f @ pad_wire p) @ r = (body g @ pad_wire q) @ r'" using assms(5) by simp
  with len have "r = r'" by (metis append_eq_append_conv)
  with fg show ?thesis by simp
qed

end

section \<open>Every frame meets the contract\<close>

definition auth_req_body :: "auth_req \<Rightarrow> bytes" where
  "auth_req_body f = varint_wire (arq_version f) @ string_wire (arq_client_id f)
     @ string_wire (arq_auth_token f) @ varint_wire (arq_features f)"

definition auth_req_wf :: "auth_req \<Rightarrow> bool" where
  "auth_req_wf f \<longleftrightarrow> arq_version f \<le> varint_MAX \<and> length (arq_client_id f) \<le> MAX_CLIENT_ID
     \<and> length (arq_auth_token f) \<le> MAX_AUTH_TOKEN \<and> arq_features f \<le> varint_MAX"

definition auth_resp_body :: "auth_resp \<Rightarrow> bytes" where
  "auth_resp_body f = [ars_status f] @ varint_wire (ars_error_code f)
     @ string_wire (ars_server_id f) @ varint_wire (ars_features f)"

definition auth_resp_wf :: "auth_resp \<Rightarrow> bool" where
  "auth_resp_wf f \<longleftrightarrow> ars_error_code f \<le> varint_MAX \<and> length (ars_server_id f) \<le> MAX_SERVER_ID
     \<and> ars_features f \<le> varint_MAX"

definition connect_tcp_req_body :: "connect_tcp_req \<Rightarrow> bytes" where
  "connect_tcp_req_body f = varint_wire (ctq_flags f) @ [addr_type_raw (ctq_address_type f)]
     @ string_wire (ctq_host f) @ be_bytes 2 (ctq_port f)"

definition connect_tcp_req_wf :: "connect_tcp_req \<Rightarrow> bool" where
  "connect_tcp_req_wf f \<longleftrightarrow> ctq_flags f \<le> varint_MAX \<and> length (ctq_host f) \<le> MAX_HOST"

definition connect_tcp_resp_body :: "connect_tcp_resp \<Rightarrow> bytes" where
  "connect_tcp_resp_body f = [ctr_status f] @ varint_wire (ctr_error_code f) @ string_wire (ctr_message f)"

definition connect_tcp_resp_wf :: "connect_tcp_resp \<Rightarrow> bool" where
  "connect_tcp_resp_wf f \<longleftrightarrow> ctr_error_code f \<le> varint_MAX \<and> length (ctr_message f) \<le> MAX_MESSAGE"

definition udp_session_open_body :: "udp_session_open \<Rightarrow> bytes" where
  "udp_session_open_body f = varint_wire (ucast (uso_session_id f)) @ varint_wire (uso_flags f)
     @ [addr_type_raw (uso_address_type f)] @ string_wire (uso_host f) @ be_bytes 2 (uso_port f)
     @ varint_wire (uso_idle_timeout_ms f)"

definition udp_session_open_wf :: "udp_session_open \<Rightarrow> bool" where
  "udp_session_open_wf f \<longleftrightarrow> uso_flags f \<le> varint_MAX \<and> length (uso_host f) \<le> MAX_HOST
     \<and> uso_idle_timeout_ms f \<le> varint_MAX"

definition udp_session_resp_body :: "udp_session_resp \<Rightarrow> bytes" where
  "udp_session_resp_body f = [usr_status f] @ varint_wire (usr_error_code f)
     @ string_wire (usr_message f) @ varint_wire (usr_idle_timeout_ms f)"

definition udp_session_resp_wf :: "udp_session_resp \<Rightarrow> bool" where
  "udp_session_resp_wf f \<longleftrightarrow> udp_status_code_valid (usr_status f) (usr_error_code f)
     \<and> length (usr_message f) \<le> MAX_MESSAGE \<and> usr_idle_timeout_ms f \<le> varint_MAX"

lemma length_string_wire: "length s \<le> 255 \<Longrightarrow> length (string_wire s) \<le> 2 + length s"
  by (simp add: string_wire_def varint_len_def word_le_nat_alt of_nat_length_varint(2))

lemma udp_status_code_valid_le: "udp_status_code_valid st c \<Longrightarrow> c \<le> varint_MAX"
  by (auto simp: udp_status_code_valid_def varint_MAX_def elim: order_trans)

lemma unat_le_cases_4: "unat (w :: u64) \<le> 4 \<Longrightarrow> w \<in> {0, 1, 2, 3, 4}"
proof -
  assume "unat w \<le> 4"
  then have "unat w = 0 \<or> unat w = 1 \<or> unat w = 2 \<or> unat w = 3 \<or> unat w = 4" by arith
  then show ?thesis
    by (elim disjE) (drule arg_cong [where f = "of_nat :: nat \<Rightarrow> u64"], simp)+
qed

lemma ucast_sid_le: "(ucast (i :: u32) :: u64) \<le> varint_MAX"
proof -
  have "unat i < 2 ^ 32" using unsigned_less [of i] by simp
  then show ?thesis by (simp add: word_le_nat_alt varint_MAX_def unsigned_ucast_eq take_bit_eq_mod)
qed

lemma unat_ucast_sid [simp]: "unat (ucast (i :: u32) :: u64) = unat i"
  using unsigned_less [of i, where ?'a = nat] by (simp add: unsigned_ucast_eq take_bit_eq_mod)

lemma ucast_ucast_sid [simp]: "(ucast (ucast (i :: u32) :: u64) :: u32) = i"
  by (rule bit_word_eqI) (simp add: bit_simps)

lemma unat_u32_less [simp]: "unat (i :: u32) < 4294967296" "\<not> 4294967296 \<le> unat (i :: u32)"
  using unsigned_less [of i, where ?'a = nat] by simp_all

lemmas frame_elims = run_decoder_OkE est_bind_OkE
lemmas frame_dests = cursor_varint_Ok cursor_string_Ok

interpretation arq: frame_codec auth_req_body auth_req_wf auth_req_encode auth_req_decode
proof (unfold_locales, goal_cases)
  case (1 f out)
  then show ?case unfolding auth_req_encode_def auth_req_body_def append_assoc
    by (intro run_encoder_emits codec_intros) (auto simp: auth_req_wf_def frame_consts ucast_sid_le)
next
  case (2 f out)
  then show ?case unfolding auth_req_encode_def auth_req_wf_def
    by (intro run_encoder_refuses refuses_bind) (auto simp: not_le refuses_string refuses_varint)
next
  case (3 f p rest)
  then show ?case unfolding auth_req_decode_def
    by (intro run_decoder_padded, unfold auth_req_body_def append_assoc, intro codec_intros)
      (auto simp: auth_req_wf_def frame_consts ucast_sid_le udp_status_code_valid_le intro!: codec_intros)
next
  case (4 buf xs)
  then show ?case unfolding auth_req_decode_def
    by (intro run_decoder_streaming codec_intros)
next
  case (5 buf f n)
  then show ?case unfolding auth_req_decode_def
    by (auto simp: auth_req_wf_def est_return_def est_fail_def elim!: frame_elims split: option.splits if_splits)
      (erule frame_dests)+
next
  case (6 buf f n)
  then show ?case unfolding auth_req_decode_def
    by (rule run_decoder_len [rotated 2]) (intro codec_intros)+
next
  case (7 f)
  then show ?case
    using varint_len_le [of "arq_version f"] varint_len_le [of "arq_features f"]
      length_string_wire [of "arq_client_id f"] length_string_wire [of "arq_auth_token f"]
    by (auto simp: auth_req_body_def auth_req_wf_def frame_consts simp del: varint_len_le)
qed

interpretation ars: frame_codec auth_resp_body auth_resp_wf auth_resp_encode auth_resp_decode
proof (unfold_locales, goal_cases)
  case (1 f out)
  then show ?case unfolding auth_resp_encode_def auth_resp_body_def append_assoc
    by (intro run_encoder_emits codec_intros) (auto simp: auth_resp_wf_def frame_consts ucast_sid_le)
next
  case (2 f out)
  then show ?case unfolding auth_resp_encode_def auth_resp_wf_def
    by (intro run_encoder_refuses refuses_bind) (auto simp: not_le refuses_string refuses_varint)
next
  case (3 f p rest)
  then show ?case unfolding auth_resp_decode_def
    by (intro run_decoder_padded, unfold auth_resp_body_def append_assoc, intro codec_intros)
      (auto simp: auth_resp_wf_def frame_consts ucast_sid_le udp_status_code_valid_le intro!: codec_intros)
next
  case (4 buf xs)
  then show ?case unfolding auth_resp_decode_def
    by (intro run_decoder_streaming codec_intros)
next
  case (5 buf f n)
  then show ?case unfolding auth_resp_decode_def
    by (auto simp: auth_resp_wf_def est_return_def est_fail_def elim!: frame_elims split: option.splits if_splits)
      (erule frame_dests)+
next
  case (6 buf f n)
  then show ?case unfolding auth_resp_decode_def
    by (rule run_decoder_len [rotated 2]) (intro codec_intros)+
next
  case (7 f)
  then show ?case
    using varint_len_le [of "ars_error_code f"] varint_len_le [of "ars_features f"]
      length_string_wire [of "ars_server_id f"]
    by (auto simp: auth_resp_body_def auth_resp_wf_def frame_consts simp del: varint_len_le)
qed

interpretation ctq: frame_codec connect_tcp_req_body connect_tcp_req_wf connect_tcp_req_encode connect_tcp_req_decode
proof (unfold_locales, goal_cases)
  case (1 f out)
  then show ?case unfolding connect_tcp_req_encode_def connect_tcp_req_body_def append_assoc
    by (intro run_encoder_emits codec_intros) (auto simp: connect_tcp_req_wf_def frame_consts ucast_sid_le)
next
  case (2 f out)
  then show ?case unfolding connect_tcp_req_encode_def connect_tcp_req_wf_def
    by (intro run_encoder_refuses refuses_bind) (auto simp: not_le refuses_string refuses_varint)
next
  case (3 f p rest)
  then show ?case unfolding connect_tcp_req_decode_def
    by (intro run_decoder_padded, unfold connect_tcp_req_body_def append_assoc, intro codec_intros)
      (auto simp: connect_tcp_req_wf_def frame_consts ucast_sid_le udp_status_code_valid_le intro!: codec_intros)
next
  case (4 buf xs)
  then show ?case unfolding connect_tcp_req_decode_def
    by (intro run_decoder_streaming codec_intros)
next
  case (5 buf f n)
  then show ?case unfolding connect_tcp_req_decode_def
    by (auto simp: connect_tcp_req_wf_def est_return_def est_fail_def elim!: frame_elims split: option.splits if_splits)
      (erule frame_dests)+
next
  case (6 buf f n)
  then show ?case unfolding connect_tcp_req_decode_def
    by (rule run_decoder_len [rotated 2]) (intro codec_intros)+
next
  case (7 f)
  then show ?case
    using varint_len_le [of "ctq_flags f"]
      length_string_wire [of "ctq_host f"]
    by (auto simp: connect_tcp_req_body_def connect_tcp_req_wf_def frame_consts simp del: varint_len_le)
qed

interpretation ctr: frame_codec connect_tcp_resp_body connect_tcp_resp_wf connect_tcp_resp_encode connect_tcp_resp_decode
proof (unfold_locales, goal_cases)
  case (1 f out)
  then show ?case unfolding connect_tcp_resp_encode_def connect_tcp_resp_body_def append_assoc
    by (intro run_encoder_emits codec_intros) (auto simp: connect_tcp_resp_wf_def frame_consts ucast_sid_le)
next
  case (2 f out)
  then show ?case unfolding connect_tcp_resp_encode_def connect_tcp_resp_wf_def
    by (intro run_encoder_refuses refuses_bind) (auto simp: not_le refuses_string refuses_varint)
next
  case (3 f p rest)
  then show ?case unfolding connect_tcp_resp_decode_def
    by (intro run_decoder_padded, unfold connect_tcp_resp_body_def append_assoc, intro codec_intros)
      (auto simp: connect_tcp_resp_wf_def frame_consts ucast_sid_le udp_status_code_valid_le intro!: codec_intros)
next
  case (4 buf xs)
  then show ?case unfolding connect_tcp_resp_decode_def
    by (intro run_decoder_streaming codec_intros)
next
  case (5 buf f n)
  then show ?case unfolding connect_tcp_resp_decode_def
    by (auto simp: connect_tcp_resp_wf_def est_return_def est_fail_def elim!: frame_elims split: option.splits if_splits)
      (erule frame_dests)+
next
  case (6 buf f n)
  then show ?case unfolding connect_tcp_resp_decode_def
    by (rule run_decoder_len [rotated 2]) (intro codec_intros)+
next
  case (7 f)
  then show ?case
    using varint_len_le [of "ctr_error_code f"]
      length_string_wire [of "ctr_message f"]
    by (auto simp: connect_tcp_resp_body_def connect_tcp_resp_wf_def frame_consts simp del: varint_len_le)
qed

interpretation uso: frame_codec udp_session_open_body udp_session_open_wf udp_session_open_encode udp_session_open_decode
proof (unfold_locales, goal_cases)
  case (1 f out)
  then show ?case unfolding udp_session_open_encode_def udp_session_open_body_def append_assoc
    by (intro run_encoder_emits codec_intros) (auto simp: udp_session_open_wf_def frame_consts ucast_sid_le)
next
  case (2 f out)
  then show ?case unfolding udp_session_open_encode_def udp_session_open_wf_def
    by (intro run_encoder_refuses refuses_bind) (auto simp: not_le refuses_string refuses_varint)
next
  case (3 f p rest)
  then show ?case unfolding udp_session_open_decode_def
    by (intro run_decoder_padded, unfold udp_session_open_body_def append_assoc, intro codec_intros)
      (auto simp: udp_session_open_wf_def frame_consts ucast_sid_le udp_status_code_valid_le intro!: codec_intros)
next
  case (4 buf xs)
  then show ?case unfolding udp_session_open_decode_def
    by (intro run_decoder_streaming codec_intros)
next
  case (5 buf f n)
  then show ?case unfolding udp_session_open_decode_def
    by (auto simp: udp_session_open_wf_def est_return_def est_fail_def elim!: frame_elims split: option.splits if_splits)
      (erule frame_dests)+
next
  case (6 buf f n)
  then show ?case unfolding udp_session_open_decode_def
    by (rule run_decoder_len [rotated 2]) (intro codec_intros)+
next
  case (7 f)
  then show ?case
    using varint_len_le [of "ucast (uso_session_id f)"] varint_len_le [of "uso_flags f"] varint_len_le [of "uso_idle_timeout_ms f"]
      length_string_wire [of "uso_host f"]
    by (auto simp: udp_session_open_body_def udp_session_open_wf_def frame_consts simp del: varint_len_le)
qed

interpretation usr: frame_codec udp_session_resp_body udp_session_resp_wf udp_session_resp_encode udp_session_resp_decode
proof (unfold_locales, goal_cases)
  case (1 f out)
  then have "udp_status_code_valid (usr_status f) (usr_error_code f)" by (simp add: udp_session_resp_wf_def)
  then show ?case using 1 unfolding udp_session_resp_encode_def udp_session_resp_body_def append_assoc
    by (simp only: not_True_eq_False if_False) (intro run_encoder_emits codec_intros, auto simp: udp_session_resp_wf_def frame_consts udp_status_code_valid_le)
next
  case (2 f out)
  then show ?case unfolding udp_session_resp_encode_def udp_session_resp_wf_def
    by (auto intro!: run_encoder_refuses refuses_bind simp: not_le refuses_string refuses_varint)
next
  case (3 f p rest)
  then show ?case unfolding udp_session_resp_decode_def
    by (intro run_decoder_padded, unfold udp_session_resp_body_def append_assoc, intro codec_intros)
      (auto simp: udp_session_resp_wf_def frame_consts ucast_sid_le udp_status_code_valid_le intro!: codec_intros)
next
  case (4 buf xs)
  then show ?case unfolding udp_session_resp_decode_def
    by (intro run_decoder_streaming codec_intros)
next
  case (5 buf f n)
  then show ?case unfolding udp_session_resp_decode_def
    by (auto simp: udp_session_resp_wf_def est_return_def est_fail_def elim!: frame_elims split: option.splits if_splits)
      (erule frame_dests)+
next
  case (6 buf f n)
  then show ?case unfolding udp_session_resp_decode_def
    by (rule run_decoder_len [rotated 2]) (intro codec_intros)+
next
  case (7 f)
  then show ?case
    using varint_len_le [of "usr_error_code f"] varint_len_le [of "usr_idle_timeout_ms f"]
      length_string_wire [of "usr_message f"]
    by (auto simp: udp_session_resp_body_def udp_session_resp_wf_def frame_consts simp del: varint_len_le)
qed

section \<open>Properties\<close>

text \<open>C3. Frame round trip: whatever buffer a frame is encoded into, if \<open>encode\<close> reports \<open>n\<close> bytes
  then it changed the first \<open>n\<close> bytes of the buffer only, and decoding the buffer (those bytes with
  anything after them) returns the frame and consumes exactly \<open>n\<close>. Stated for all six frames.\<close>

theorem frame_roundtrip:
  "(auth_req_encode f1 out = (Ok n, out') \<longrightarrow> auth_req_decode out' = Ok (f1, n) \<and> n \<le> length out
         \<and> length out' = length out \<and> drop n out' = drop n out)
     \<and> (auth_resp_encode f2 out = (Ok n, out') \<longrightarrow> auth_resp_decode out' = Ok (f2, n) \<and> n \<le> length out
         \<and> length out' = length out \<and> drop n out' = drop n out)
     \<and> (connect_tcp_req_encode f3 out = (Ok n, out') \<longrightarrow> connect_tcp_req_decode out' = Ok (f3, n) \<and> n \<le> length out
         \<and> length out' = length out \<and> drop n out' = drop n out)
     \<and> (connect_tcp_resp_encode f4 out = (Ok n, out') \<longrightarrow> connect_tcp_resp_decode out' = Ok (f4, n) \<and> n \<le> length out
         \<and> length out' = length out \<and> drop n out' = drop n out)
     \<and> (udp_session_open_encode f5 out = (Ok n, out') \<longrightarrow> udp_session_open_decode out' = Ok (f5, n) \<and> n \<le> length out
         \<and> length out' = length out \<and> drop n out' = drop n out)
     \<and> (udp_session_resp_encode f6 out = (Ok n, out') \<longrightarrow> udp_session_resp_decode out' = Ok (f6, n) \<and> n \<le> length out
         \<and> length out' = length out \<and> drop n out' = drop n out)"
  using arq.roundtrip ars.roundtrip ctq.roundtrip ctr.roundtrip uso.roundtrip usr.roundtrip by meson

definition sample_connect :: connect_tcp_req where
  "sample_connect = \<lparr>ctq_flags = 0, ctq_address_type = Domain, ctq_host = [97, 46, 98], ctq_port = 443\<rparr>"

lemma sample_connect_wf: "connect_tcp_req_wf sample_connect"
  by (simp add: connect_tcp_req_wf_def sample_connect_def frame_consts varint_MAX_def)

lemma sample_connect_encodes:
  "\<exists>n out'. connect_tcp_req_encode sample_connect (replicate 512 0) = (Ok n, out') \<and> 2 < n"
proof -
  obtain r out' where enc: "connect_tcp_req_encode sample_connect (replicate 512 0) = (r, out')"
    by fastforce
  have "is_ok_result r"
    using ctq.encode_succeeds [of "replicate 512 0" sample_connect] sample_connect_wf enc
    by (simp add: frame_consts)
  then obtain n where r: "r = Ok n" by (cases r) auto
  with ctq.encode_Ok_image [OF enc [unfolded r]] have "2 < n"
    by (auto simp: connect_tcp_req_body_def sample_connect_def string_wire_def varint_len_def)
  with enc r show ?thesis by blast
qed

theorem frame_roundtrip_witness:
  "\<exists>n out'. connect_tcp_req_encode sample_connect (replicate 512 0) = (Ok n, out')
     \<and> connect_tcp_req_decode out' = Ok (sample_connect, n)"
proof -
  obtain n out' where enc: "connect_tcp_req_encode sample_connect (replicate 512 0) = (Ok n, out')"
    using sample_connect_encodes by blast
  with frame_roundtrip [of undefined "replicate 512 0" n out' undefined sample_connect]
  show ?thesis by blast
qed

text \<open>C22. A frame is refused exactly when a field breaks its limit (a string over its cap, an integer
  over 62 bits, a UDP response whose status and error code disagree): in a buffer of \<open>MAX_FRAME\<close>
  bytes every other frame is written.\<close>

theorem frame_encode_succeeds:
  assumes "MAX_FRAME \<le> length out"
  shows "(is_ok_result (fst (auth_req_encode f1 out)) \<longleftrightarrow> auth_req_wf f1)
     \<and> (is_ok_result (fst (auth_resp_encode f2 out)) \<longleftrightarrow> auth_resp_wf f2)
     \<and> (is_ok_result (fst (connect_tcp_req_encode f3 out)) \<longleftrightarrow> connect_tcp_req_wf f3)
     \<and> (is_ok_result (fst (connect_tcp_resp_encode f4 out)) \<longleftrightarrow> connect_tcp_resp_wf f4)
     \<and> (is_ok_result (fst (udp_session_open_encode f5 out)) \<longleftrightarrow> udp_session_open_wf f5)
     \<and> (is_ok_result (fst (udp_session_resp_encode f6 out)) \<longleftrightarrow> udp_session_resp_wf f6)"
  using arq.encode_succeeds [OF assms] ars.encode_succeeds [OF assms] ctq.encode_succeeds [OF assms]
    ctr.encode_succeeds [OF assms] uso.encode_succeeds [OF assms] usr.encode_succeeds [OF assms]
  by blast

theorem frame_encode_succeeds_witness:
  "is_ok_result (fst (connect_tcp_req_encode sample_connect (replicate 512 0)))
   \<and> \<not> is_ok_result (fst (udp_session_resp_encode
        \<lparr>usr_status = 0, usr_error_code = 3, usr_message = [], usr_idle_timeout_ms = 0\<rparr> (replicate 512 0)))"
proof -
  have "\<not> udp_session_resp_wf \<lparr>usr_status = 0, usr_error_code = 3, usr_message = [], usr_idle_timeout_ms = 0\<rparr>"
    by (simp add: udp_session_resp_wf_def udp_status_code_valid_def frame_consts)
  with sample_connect_wf show ?thesis
    using frame_encode_succeeds [of "replicate 512 0" undefined undefined sample_connect undefined undefined
        "\<lparr>usr_status = 0, usr_error_code = 3, usr_message = [], usr_idle_timeout_ms = 0\<rparr>"]
    by (simp add: frame_consts)
qed

text \<open>Incremental parsing: every proper prefix of an encoded frame asks for more bytes
  (\<open>Short\<close>), never for an error or another frame.\<close>

theorem frame_prefix_short:
  assumes "k < n"
  shows "(auth_req_encode f1 out = (Ok n, out') \<longrightarrow> auth_req_decode (take k out') = Err DecShort)
     \<and> (auth_resp_encode f2 out = (Ok n, out') \<longrightarrow> auth_resp_decode (take k out') = Err DecShort)
     \<and> (connect_tcp_req_encode f3 out = (Ok n, out') \<longrightarrow> connect_tcp_req_decode (take k out') = Err DecShort)
     \<and> (connect_tcp_resp_encode f4 out = (Ok n, out') \<longrightarrow> connect_tcp_resp_decode (take k out') = Err DecShort)
     \<and> (udp_session_open_encode f5 out = (Ok n, out') \<longrightarrow> udp_session_open_decode (take k out') = Err DecShort)
     \<and> (udp_session_resp_encode f6 out = (Ok n, out') \<longrightarrow> udp_session_resp_decode (take k out') = Err DecShort)"
  using arq.encoded_prefix_short ars.encoded_prefix_short ctq.encoded_prefix_short
    ctr.encoded_prefix_short uso.encoded_prefix_short usr.encoded_prefix_short assms by metis

theorem frame_prefix_short_witness:
  "\<exists>n out'. connect_tcp_req_encode sample_connect (replicate 512 0) = (Ok n, out')
     \<and> connect_tcp_req_decode (take 2 out') = Err DecShort"
proof -
  obtain n out' where "connect_tcp_req_encode sample_connect (replicate 512 0) = (Ok n, out')" and "2 < n"
    using sample_connect_encodes by blast
  then show ?thesis
    using frame_prefix_short [of 2 n undefined "replicate 512 0" out' undefined sample_connect] by blast
qed

text \<open>C26. A decision the reader has taken is final: once a decoder does not answer \<open>Short\<close>, its
  answer, a frame or an error, is the same whatever bytes follow; and a frame it returns respects
  every limit of the encoder and was read inside the buffer.\<close>

theorem frame_decode_stable:
  "((auth_req_decode buf \<noteq> Err DecShort \<longrightarrow> auth_req_decode (buf @ rest) = auth_req_decode buf)
         \<and> (auth_req_decode buf = Ok (f1, n) \<longrightarrow> auth_req_wf f1 \<and> n \<le> length buf))
     \<and> ((auth_resp_decode buf \<noteq> Err DecShort \<longrightarrow> auth_resp_decode (buf @ rest) = auth_resp_decode buf)
         \<and> (auth_resp_decode buf = Ok (f2, n) \<longrightarrow> auth_resp_wf f2 \<and> n \<le> length buf))
     \<and> ((connect_tcp_req_decode buf \<noteq> Err DecShort \<longrightarrow> connect_tcp_req_decode (buf @ rest) = connect_tcp_req_decode buf)
         \<and> (connect_tcp_req_decode buf = Ok (f3, n) \<longrightarrow> connect_tcp_req_wf f3 \<and> n \<le> length buf))
     \<and> ((connect_tcp_resp_decode buf \<noteq> Err DecShort \<longrightarrow> connect_tcp_resp_decode (buf @ rest) = connect_tcp_resp_decode buf)
         \<and> (connect_tcp_resp_decode buf = Ok (f4, n) \<longrightarrow> connect_tcp_resp_wf f4 \<and> n \<le> length buf))
     \<and> ((udp_session_open_decode buf \<noteq> Err DecShort \<longrightarrow> udp_session_open_decode (buf @ rest) = udp_session_open_decode buf)
         \<and> (udp_session_open_decode buf = Ok (f5, n) \<longrightarrow> udp_session_open_wf f5 \<and> n \<le> length buf))
     \<and> ((udp_session_resp_decode buf \<noteq> Err DecShort \<longrightarrow> udp_session_resp_decode (buf @ rest) = udp_session_resp_decode buf)
         \<and> (udp_session_resp_decode buf = Ok (f6, n) \<longrightarrow> udp_session_resp_wf f6 \<and> n \<le> length buf))"
  using arq.decode_more arq.decode_wf arq.decode_len ars.decode_more ars.decode_wf ars.decode_len
    ctq.decode_more ctq.decode_wf ctq.decode_len ctr.decode_more ctr.decode_wf ctr.decode_len
    uso.decode_more uso.decode_wf uso.decode_len usr.decode_more usr.decode_wf usr.decode_len
  by simp

theorem frame_decode_stable_witness:
  "connect_tcp_resp_decode [1, 2, 0, 0] = Ok (\<lparr>ctr_status = 1, ctr_error_code = 2, ctr_message = []\<rparr>, 4)
   \<and> connect_tcp_resp_decode ([1, 2, 0, 0] @ [7]) = connect_tcp_resp_decode [1, 2, 0, 0]"
proof -
  have d: "connect_tcp_resp_decode [1, 2, 0, 0]
      = Ok (\<lparr>ctr_status = 1, ctr_error_code = 2, ctr_message = []\<rparr>, 4)"
    by code_simp
  then have "connect_tcp_resp_decode [1, 2, 0, 0] \<noteq> Err DecShort" by simp
  with d frame_decode_stable [of "[1, 2, 0, 0]" "[7]"] show ?thesis by blast
qed

text \<open>A UDP session response that was decoded and is not a success carries one of the four
  known error codes, so the accessor the client matches on never returns nothing.\<close>

theorem udp_session_resp_error_known:
  assumes "udp_session_resp_decode buf = Ok (f, n)"
  shows "udp_session_resp_is_ok f \<longleftrightarrow> udp_session_resp_error f = None"
proof -
  have valid: "udp_status_code_valid (usr_status f) (usr_error_code f)"
    using usr.decode_wf [OF assms] by (simp add: udp_session_resp_wf_def)
  have u: "usr_error_code f \<le> 4 \<Longrightarrow> usr_error_code f \<in> {0, 1, 2, 3, 4}"
    using unat_le_cases_4 [of "usr_error_code f"] by (simp add: word_le_nat_alt)
  from valid u show ?thesis
    by (auto simp: udp_status_code_valid_def udp_session_resp_is_ok_def udp_session_resp_error_def
        udp_err_from_raw_def frame_consts)
qed

theorem udp_session_resp_error_known_witness:
  "udp_session_resp_decode [1, 3, 0, 0, 0]
     = Ok (\<lparr>usr_status = 1, usr_error_code = 3, usr_message = [], usr_idle_timeout_ms = 0\<rparr>, 5)
   \<and> udp_session_resp_error \<lparr>usr_status = 1, usr_error_code = 3, usr_message = [], usr_idle_timeout_ms = 0\<rparr> \<noteq> None"
proof -
  have d: "udp_session_resp_decode [1, 3, 0, 0, 0]
     = Ok (\<lparr>usr_status = 1, usr_error_code = 3, usr_message = [], usr_idle_timeout_ms = 0\<rparr>, 5)"
    by code_simp
  from udp_session_resp_error_known [OF d] d show ?thesis
    by (simp add: udp_session_resp_is_ok_def frame_consts)
qed

end
