(* ===== verification/Wire_UdpMsg.thy ===== *)
theory Wire_UdpMsg
  imports Mq_Prelude
begin

text \<open>
  The header of a relayed UDP datagram and the fragment split, \<^verbatim>\<open>crates/mq-wire/src/udp_msg.rs\<close>.
  \<open>udp_split\<close> hands its fragments to a callback in the source; here it returns the list of calls,
  in order, beside its result. \<open>fragments\<close> is the list of slices a payload is cut into.
\<close>

section \<open>The code\<close>

definition UDP_MSG_HDR :: nat where "UDP_MSG_HDR = 9"

record udp_msg_hdr =
  umh_session_id :: u32
  umh_packet_id :: u16
  umh_flags :: u8
  umh_frag_id :: u8
  umh_frag_count :: u8

definition udp_msg_hdr_encode :: "udp_msg_hdr \<Rightarrow> bytes" where
  "udp_msg_hdr_encode h =
     be_bytes 4 (umh_session_id h) @ be_bytes 2 (umh_packet_id h) @ [umh_flags h, umh_frag_id h, umh_frag_count h]"

definition udp_msg_hdr_decode :: "bytes \<Rightarrow> udp_msg_hdr option" where
  "udp_msg_hdr_decode buf =
     (if length buf < UDP_MSG_HDR then None
      else let b = take UDP_MSG_HDR buf in
        Some \<lparr>umh_session_id = from_be [b ! 0, b ! 1, b ! 2, b ! 3],
              umh_packet_id = from_be [b ! 4, b ! 5],
              umh_flags = b ! 6, umh_frag_id = b ! 7, umh_frag_count = b ! 8\<rparr>)"

datatype split_error = TooManyFrags | ZeroMss

text \<open>\<open>usize::div_ceil\<close> and \<open>slice::chunks\<close> of the standard library.\<close>

definition div_ceil :: "nat \<Rightarrow> nat \<Rightarrow> nat" where
  "div_ceil a b = a div b + (if 0 < a mod b then 1 else 0)"

function chunks :: "nat \<Rightarrow> 'a list \<Rightarrow> 'a list list" where
  "chunks n xs = (if n = 0 \<or> xs = [] then [] else take n xs # chunks n (drop n xs))"
  by auto
termination by (relation "measure (\<lambda>(n, xs). length xs)") auto

declare chunks.simps [simp del]

definition udp_split ::
  "u32 \<Rightarrow> u16 \<Rightarrow> bytes \<Rightarrow> nat \<Rightarrow> (unit, split_error) result \<times> (udp_msg_hdr \<times> bytes) list" where
  "udp_split sid packet_id payload mss_payload =
     (if mss_payload = 0 then (Err ZeroMss, [])
      else let nfrags = max (div_ceil (length payload) mss_payload) 1 in
        if 256 \<le> nfrags then (Err TooManyFrags, [])
        else let hdr = \<lparr>umh_session_id = sid, umh_packet_id = packet_id, umh_flags = 0,
                        umh_frag_id = 0, umh_frag_count = of_nat nfrags\<rparr> in
          if payload = [] then (Ok (), [(hdr, payload)])
          else (Ok (), map (\<lambda>(i, chunk). (hdr\<lparr>umh_frag_id := of_nat i\<rparr>, chunk))
                         (enumerate 0 (chunks mss_payload payload))))"

section \<open>Chunks\<close>

lemma chunks_Nil [simp]: "chunks n [] = []"
  by (simp add: chunks.simps)

lemma chunks_step: "0 < n \<Longrightarrow> xs \<noteq> [] \<Longrightarrow> chunks n xs = take n xs # chunks n (drop n xs)"
  by (subst chunks.simps) simp

lemma concat_chunks [simp]: "0 < n \<Longrightarrow> concat (chunks n xs) = xs"
proof (induction n xs rule: chunks.induct)
  case (1 n xs)
  show ?case
  proof (cases "xs = []")
    case False
    with 1 have "concat (chunks n (drop n xs)) = drop n xs" by blast
    with False 1(2) show ?thesis by (subst chunks_step) simp_all
  qed simp
qed

lemma chunks_bounds: "0 < n \<Longrightarrow> c \<in> set (chunks n xs) \<Longrightarrow> c \<noteq> [] \<and> length c \<le> n"
proof (induction n xs arbitrary: c rule: chunks.induct)
  case (1 n xs)
  show ?case
  proof (cases "xs = []")
    case False
    with 1(3) have "c = take n xs \<or> c \<in> set (chunks n (drop n xs))"
      by (subst (asm) chunks_step [OF 1(2)]) simp_all
    with 1 False show ?thesis by auto
  qed (use 1(3) in simp)
qed

lemma div_ceil_le_iff: "0 < b \<Longrightarrow> div_ceil a b \<le> k \<longleftrightarrow> a \<le> k * b"
proof -
  assume b: "0 < b"
  have a: "a = b * (a div b) + a mod b" by simp
  have r: "a mod b < b" using b by simp
  show ?thesis
  proof (cases "a mod b = 0")
    case True
    with a have "a = (a div b) * b" by (simp add: mult.commute)
    then have "a \<le> k * b \<longleftrightarrow> (a div b) * b \<le> k * b" by simp
    with True b show ?thesis by (simp add: div_ceil_def)
  next
    case False
    have "a div b < k \<longleftrightarrow> a < k * b" using b by (simp add: less_mult_imp_div_less div_less_iff_less_mult)
    moreover have "a \<noteq> k * b" using False by auto
    ultimately show ?thesis using False by (auto simp: div_ceil_def)
  qed
qed

lemma length_chunks: "0 < n \<Longrightarrow> length (chunks n xs) = div_ceil (length xs) n"
proof (induction n xs rule: chunks.induct)
  case (1 n xs)
  show ?case
  proof (cases "xs = []")
    case True
    then show ?thesis by (simp add: div_ceil_def)
  next
    case False
    have len: "length (chunks n xs) = Suc (div_ceil (length xs - n) n)"
      using 1 False by (subst chunks_step) simp_all
    show ?thesis
    proof (cases "length xs < n")
      case True
      with False show ?thesis using len by (simp add: div_ceil_def)
    next
      case False
      then have "length xs div n = Suc ((length xs - n) div n)" and "length xs mod n = (length xs - n) mod n"
        using 1(2) by (simp_all add: le_div_geq le_mod_geq)
      with len show ?thesis by (simp add: div_ceil_def)
    qed
  qed
qed

lemma map_case_prod_fst: "map (\<lambda>(x, y). f x) zs = map f (map fst zs)"
  by (induction zs) auto

section \<open>The fragments of a payload\<close>

definition fragments :: "nat \<Rightarrow> bytes \<Rightarrow> bytes list" where
  "fragments mss payload = (if payload = [] then [[]] else chunks mss payload)"

lemma concat_fragments [simp]: "0 < mss \<Longrightarrow> concat (fragments mss payload) = payload"
  by (simp add: fragments_def)

lemma length_fragments:
  "0 < mss \<Longrightarrow> length (fragments mss payload) = max (div_ceil (length payload) mss) 1"
proof (cases "payload = []")
  case False
  assume "0 < mss"
  with False have "0 < length (chunks mss payload)" by (subst chunks_step) simp_all
  with False \<open>0 < mss\<close> show ?thesis by (simp add: fragments_def length_chunks)
qed (simp add: fragments_def div_ceil_def)

lemma fragments_bound: "0 < mss \<Longrightarrow> f \<in> set (fragments mss payload) \<Longrightarrow> length f \<le> mss"
  by (auto simp: fragments_def dest: chunks_bounds split: if_splits)

definition frag_hdr :: "u32 \<Rightarrow> u16 \<Rightarrow> nat \<Rightarrow> nat \<Rightarrow> udp_msg_hdr" where
  "frag_hdr sid packet_id n i =
     \<lparr>umh_session_id = sid, umh_packet_id = packet_id, umh_flags = 0, umh_frag_id = of_nat i,
      umh_frag_count = of_nat n\<rparr>"

lemma udp_split_Ok:
  assumes "0 < mss" and "length (fragments mss payload) \<le> 255"
  shows "udp_split sid pid payload mss =
    (Ok (), zip (map (frag_hdr sid pid (length (fragments mss payload))) [0 ..< length (fragments mss payload)])
              (fragments mss payload))"
  using assms length_fragments [OF assms(1), of payload]
  by (auto simp: udp_split_def Let_def fragments_def frag_hdr_def enumerate_eq_zip zip_map1)

lemma udp_split_Err:
  "mss = 0 \<Longrightarrow> udp_split sid pid payload mss = (Err ZeroMss, [])"
  "0 < mss \<Longrightarrow> 255 < length (fragments mss payload) \<Longrightarrow> udp_split sid pid payload mss = (Err TooManyFrags, [])"
  using length_fragments [of mss payload] by (auto simp: udp_split_def Let_def)

lemma length_fragments_le:
  "0 < mss \<Longrightarrow> 0 < k \<Longrightarrow> length (fragments mss payload) \<le> k \<longleftrightarrow> length payload \<le> k * mss"
  by (auto simp: length_fragments div_ceil_le_iff)

section \<open>Properties\<close>

text \<open>The datagram header: nine bytes, read back exactly from any datagram that starts with
  them, and refused only when fewer than nine bytes are there.\<close>

theorem udp_msg_hdr_roundtrip:
  "udp_msg_hdr_decode (udp_msg_hdr_encode h @ payload) = Some h
   \<and> length (udp_msg_hdr_encode h) = UDP_MSG_HDR
   \<and> (udp_msg_hdr_decode buf = None \<longleftrightarrow> length buf < UDP_MSG_HDR)"
proof -
  have "length (be_bytes 4 (umh_session_id h)) = Suc (Suc (Suc (Suc 0)))"
    and "length (be_bytes 2 (umh_packet_id h)) = Suc (Suc 0)" by simp_all
  then obtain a b c d e f where s: "be_bytes 4 (umh_session_id h) = [a, b, c, d]"
    and p: "be_bytes 2 (umh_packet_id h) = [e, f]"
    unfolding length_Suc_conv by auto
  have "from_be [a, b, c, d] = umh_session_id h" "from_be [e, f] = umh_packet_id h"
    using from_be_be_bytes [of 4 "umh_session_id h"] from_be_be_bytes [of 2 "umh_packet_id h"]
    by (simp_all add: s p take_bit_word_eq_self)
  then show ?thesis
    by (simp add: udp_msg_hdr_decode_def udp_msg_hdr_encode_def s p UDP_MSG_HDR_def Let_def)
qed

text \<open>The split cuts a payload into at most 255 slices of at most the given size, numbered
  from 0 with the total count in every header, whose concatenation is the payload; a zero size or a
  payload that would need more slices is refused, and then nothing is emitted.\<close>

theorem udp_split_spec:
  "case udp_split sid pid payload mss of
     (Ok _, out) \<Rightarrow>
       0 < mss \<and> length payload \<le> 255 * mss
       \<and> concat (map snd out) = payload \<and> 0 < length out \<and> length out \<le> 255
       \<and> list_all (\<lambda>(h, s). length s \<le> mss \<and> umh_session_id h = sid \<and> umh_packet_id h = pid
                     \<and> umh_flags h = 0 \<and> unat (umh_frag_count h) = length out) out
       \<and> map (\<lambda>(h, s). unat (umh_frag_id h)) out = [0 ..< length out]
   | (Err ZeroMss, out) \<Rightarrow> mss = 0 \<and> out = []
   | (Err TooManyFrags, out) \<Rightarrow> 0 < mss \<and> 255 * mss < length payload \<and> out = []"
proof -
  let ?fs = "fragments mss payload"
  consider "mss = 0" | "0 < mss" "255 < length ?fs" | "0 < mss" "length ?fs \<le> 255" by linarith
  then show ?thesis
  proof cases
    case 1
    then show ?thesis by (simp add: udp_split_Err)
  next
    case 2
    then show ?thesis using length_fragments_le [of mss 255 payload] by (simp add: udp_split_Err)
  next
    case 3
    let ?hs = "map (frag_hdr sid pid (length ?fs)) [0 ..< length ?fs]"
    have small: "i \<le> 255 \<Longrightarrow> unat (of_nat i :: u8) = i" for i
      by (simp add: unat_of_nat)
    have n: "0 < length ?fs" using 3 by (simp add: length_fragments)
    have "map (\<lambda>(h, s). unat (umh_frag_id h)) (zip ?hs ?fs) = map (\<lambda>h. unat (umh_frag_id h)) (map fst (zip ?hs ?fs))"
      by (rule map_case_prod_fst)
    also have "\<dots> = [0 ..< length ?fs]"
      using 3 by (auto simp: frag_hdr_def small intro!: map_idI)
    finally have ids: "map (\<lambda>(h, s). unat (umh_frag_id h)) (zip ?hs ?fs) = [0 ..< length ?fs]" .
    have slices: "map snd (zip ?hs ?fs) = ?fs" by simp
    have "list_all (\<lambda>(h, s). length s \<le> mss \<and> umh_session_id h = sid \<and> umh_packet_id h = pid
                     \<and> umh_flags h = 0 \<and> unat (umh_frag_count h) = length ?fs) (zip ?hs ?fs)"
      unfolding list_all_iff
      using 3 by (auto simp: frag_hdr_def small fragments_bound elim!: in_set_zipE)
    then show ?thesis
      using 3 length_fragments_le [of mss 255 payload] ids slices n
      by (simp add: udp_split_Ok del: map_snd_zip)
  qed
qed

end
