(* ===== verification/Rust_Std.thy ===== *)
theory Rust_Std
  imports Mq_Prelude
begin

text \<open>
  What the components use of the Rust standard library on slices and byte strings: searching
  (\<open>position\<close>, \<open>rposition\<close>, \<open>windows\<close>), splitting (\<open>splitn\<close>, \<open>split\<close>), ASCII classification and case,
  and decimal and hexadecimal formatting, with the lemmas the parsers share.
\<close>

section \<open>Byte strings\<close>

definition ascii :: "string \<Rightarrow> bytes" where
  "ascii s = map of_char s"

definition CRLF :: bytes where "CRLF = [13, 10]"

section \<open>Searching and splitting\<close>

fun position :: "('a \<Rightarrow> bool) \<Rightarrow> 'a list \<Rightarrow> nat option" where
  "position P [] = None"
| "position P (x # xs) = (if P x then Some 0 else map_option Suc (position P xs))"

text \<open>\<open>buf.windows(w.len()).position(|x| x == w)\<close> for a nonempty \<open>w\<close>.\<close>

fun window_position :: "bytes \<Rightarrow> bytes \<Rightarrow> nat option" where
  "window_position w [] = None"
| "window_position w (b # bs) =
     (if take (length w) (b # bs) = w then Some 0 else map_option Suc (window_position w bs))"

fun splitn :: "nat \<Rightarrow> ('a \<Rightarrow> bool) \<Rightarrow> 'a list \<Rightarrow> 'a list list" where
  "splitn 0 P xs = []"
| "splitn (Suc 0) P xs = [xs]"
| "splitn (Suc (Suc n)) P xs =
     (case dropWhile (\<lambda>x. \<not> P x) xs of
        [] \<Rightarrow> [xs]
      | _ # ys \<Rightarrow> takeWhile (\<lambda>x. \<not> P x) xs # splitn (Suc n) P ys)"

fun rposition :: "('a \<Rightarrow> bool) \<Rightarrow> 'a list \<Rightarrow> nat option" where
  "rposition P [] = None"
| "rposition P (x # xs) =
     (case rposition P xs of Some i \<Rightarrow> Some (Suc i) | None \<Rightarrow> if P x then Some 0 else None)"

definition is_ascii_digit :: "u8 \<Rightarrow> bool" where
  "is_ascii_digit c \<longleftrightarrow> 0x30 \<le> c \<and> c \<le> 0x39"

definition is_ascii_alphanumeric :: "u8 \<Rightarrow> bool" where
  "is_ascii_alphanumeric c \<longleftrightarrow> is_ascii_digit c \<or> 0x41 \<le> c \<and> c \<le> 0x5A \<or> 0x61 \<le> c \<and> c \<le> 0x7A"

definition to_ascii_lowercase :: "u8 \<Rightarrow> u8" where
  "to_ascii_lowercase c = (if 0x41 \<le> c \<and> c \<le> 0x5A then c + 0x20 else c)"

definition to_ascii_uppercase :: "u8 \<Rightarrow> u8" where
  "to_ascii_uppercase c = (if 0x61 \<le> c \<and> c \<le> 0x7A then c - 0x20 else c)"

definition eq_ignore_ascii_case :: "bytes \<Rightarrow> bytes \<Rightarrow> bool" where
  "eq_ignore_ascii_case a b \<longleftrightarrow> map to_ascii_lowercase a = map to_ascii_lowercase b"

definition starts_with :: "'a list \<Rightarrow> 'a list \<Rightarrow> bool" where
  "starts_with xs p \<longleftrightarrow> take (length p) xs = p"

text \<open>\<open>slice::split\<close>: the pieces between separators, one more than there are separators.\<close>

fun slice_split :: "('a \<Rightarrow> bool) \<Rightarrow> 'a list \<Rightarrow> 'a list list" where
  "slice_split P [] = [[]]"
| "slice_split P (x # xs) =
     (if P x then [] # slice_split P xs
      else (case slice_split P xs of [] \<Rightarrow> [[x]] | ys # yss \<Rightarrow> (x # ys) # yss))"

section \<open>Formatting numbers\<close>

definition digit_char :: "nat \<Rightarrow> u8" where
  "digit_char d = (if d < 10 then 0x30 + of_nat d else 0x61 + of_nat (d - 10))"

fun fmt_dec :: "nat \<Rightarrow> bytes" where
  "fmt_dec n = (if n < 10 then [digit_char n] else fmt_dec (n div 10) @ [digit_char (n mod 10)])"

fun fmt_hex :: "nat \<Rightarrow> bytes" where
  "fmt_hex n = (if n < 16 then [digit_char n] else fmt_hex (n div 16) @ [digit_char (n mod 16)])"

declare fmt_dec.simps [simp del] fmt_hex.simps [simp del]

definition fmt_int :: "int \<Rightarrow> bytes" where
  "fmt_int i = (if i < 0 then 0x2D # fmt_dec (nat (- i)) else fmt_dec (nat i))"

section \<open>Lemmas\<close>

lemma position_Some:
  "position P xs = Some i \<Longrightarrow> i < length xs \<and> P (xs ! i)"
  by (induction xs arbitrary: i) (auto split: if_splits)

lemma position_None: "position P xs = None \<longleftrightarrow> (\<forall>x \<in> set xs. \<not> P x)"
  by (induction xs) auto

lemma window_position_bound:
  "window_position w buf = Some i \<Longrightarrow> i + length w \<le> length buf \<and> take (length w) (drop i buf) = w"
proof (induction buf arbitrary: i)
  case (Cons b bs)
  show ?case
  proof (cases "take (length w) (b # bs) = w")
    case True
    then have "length w \<le> length (b # bs)" by (metis length_take min.cobounded1)
    with True Cons.prems show ?thesis by simp
  next
    case False
    with Cons show ?thesis by auto
  qed
qed simp

lemma window_position_append:
  "window_position w buf = Some i \<Longrightarrow> window_position w (buf @ xs) = Some i"
proof (induction buf arbitrary: i)
  case (Cons b bs)
  show ?case
  proof (cases "take (length w) (b # bs) = w")
    case True
    then have "length w \<le> length (b # bs)" by (metis length_take min.cobounded1)
    then have "take (length w) ((b # bs) @ xs) = take (length w) (b # bs)"
      using take_append [of "length w" "b # bs" xs] by simp
    with True Cons.prems show ?thesis by simp
  next
    case False
    from Cons.prems False obtain j where j: "window_position w bs = Some j" "i = Suc j" by auto
    then have "length w \<le> length (b # bs)" using window_position_bound [of w bs j] by simp
    then have "take (length w) ((b # bs) @ xs) = take (length w) (b # bs)"
      using take_append [of "length w" "b # bs" xs] by simp
    with False Cons.IH j show ?thesis by simp
  qed
qed simp

lemma window_position_first:
  assumes "take (length w) (drop i buf) = w" and "i < length buf"
  shows "\<exists>j \<le> i. window_position w buf = Some j"
  using assms
proof (induction buf arbitrary: i)
  case (Cons b bs)
  show ?case
  proof (cases "take (length w) (b # bs) = w")
    case False
    with Cons.prems obtain k where k: "i = Suc k" by (cases i) auto
    with Cons.prems Cons.IH [of k] obtain j where "j \<le> k" "window_position w bs = Some j" by auto
    with False k show ?thesis by simp
  qed auto
qed simp

lemma splitn_sep:
  "x \<notin> set ys \<Longrightarrow> splitn (Suc (Suc n)) (\<lambda>c. c = x) (ys @ x # zs) = ys # splitn (Suc n) (\<lambda>c. c = x) zs"
proof -
  assume x: "x \<notin> set ys"
  have "dropWhile (\<lambda>c. \<not> c = x) (ys @ x # zs) = x # zs" using x by (induction ys) auto
  moreover have "takeWhile (\<lambda>c. \<not> c = x) (ys @ x # zs) = ys" using x by (induction ys) auto
  ultimately show ?thesis by simp
qed

lemma rposition_last: "x \<notin> set ys \<Longrightarrow> rposition (\<lambda>c. c = x) (xs @ x # ys) = Some (length xs)"
proof -
  assume "x \<notin> set ys"
  then have "rposition (\<lambda>c. c = x) ys = None" by (induction ys) auto
  then show ?thesis by (induction xs) auto
qed

lemma window_position_no_first:
  "b \<notin> set xs \<Longrightarrow> window_position (b # w) (xs @ b # w @ ys) = Some (length xs)"
  by (induction xs) auto

lemma window_position_skip:
  "b \<notin> set xs \<Longrightarrow> window_position (b # w) (xs @ ys) = map_option ((+) (length xs)) (window_position (b # w) ys)"
  by (induction xs) (auto simp: option.map_comp o_def option.map_ident cong: map_option_cong)

lemma position_Cons_sep: "(\<forall>x \<in> set xs. \<not> P x) \<Longrightarrow> P y \<Longrightarrow> position P (xs @ y # ys) = Some (length xs)"
  by (induction xs) auto

lemma position_take: "position P xs = Some i \<Longrightarrow> list_all (\<lambda>x. \<not> P x) (take i xs)"
  by (induction xs arbitrary: i) (auto split: if_splits)

lemma window_position_none_before:
  "window_position w buf = Some i \<Longrightarrow> j < i \<Longrightarrow> take (length w) (drop j buf) \<noteq> w"
proof (induction buf arbitrary: i j)
  case (Cons b bs)
  then show ?case by (cases j) (auto split: if_splits)
qed simp

lemma eq_ignore_ascii_case_refl [simp]: "eq_ignore_ascii_case a a"
  by (simp add: eq_ignore_ascii_case_def)

lemma eq_ignore_ascii_case_sym: "eq_ignore_ascii_case a b \<longleftrightarrow> eq_ignore_ascii_case b a"
  by (auto simp: eq_ignore_ascii_case_def)

end
