(* ===== verification/Net_Types.thy ===== *)
theory Net_Types
  imports Rust_Std
begin

text \<open>
  Addresses, hosts, targets and time, the value types every component of the proxy passes around:
  \<^verbatim>\<open>crates/mq-runtime/src/app.rs\<close> (\<open>Host\<close>, \<open>Target\<close>, \<open>AcceptMeta\<close> and the request and result
  types), \<^verbatim>\<open>crates/mq-transport-api/src/time.rs\<close>, and the parts of the Rust standard library the
  parsers call: UTF-8 validation and the textual IPv4 and IPv6 parsers of \<open>core::net\<close>.

  A \<open>String\<close> is the list of its bytes, an \<open>Ipv4Addr\<close> the 32-bit and an \<open>Ipv6Addr\<close> the 128-bit word of
  its octets in network order; a \<open>Duration\<close> is a number of nanoseconds and a \<open>Time\<close> a 64-bit number
  of microseconds.
\<close>

section \<open>Time\<close>

type_synonym duration = nat
type_synonym time = u64

definition duration_secs :: "nat \<Rightarrow> duration" where "duration_secs n = n * 1000000000"
definition duration_millis :: "nat \<Rightarrow> duration" where "duration_millis n = n * 1000000"
definition duration_micros :: "nat \<Rightarrow> duration" where "duration_micros n = n * 1000"

lemmas duration_defs = duration_secs_def duration_millis_def duration_micros_def

definition us :: "duration \<Rightarrow> u64" where
  "us d = (if d div 1000 < 2 ^ 64 then of_nat (d div 1000) else 0xFFFFFFFFFFFFFFFF)"

definition time_add :: "time \<Rightarrow> duration \<Rightarrow> time" where
  "time_add t d = (if 2 ^ 64 \<le> unat t + unat (us d) then 0xFFFFFFFFFFFFFFFF else t + us d)"

definition time_sub_duration :: "time \<Rightarrow> duration \<Rightarrow> time" where
  "time_sub_duration t d = (if t < us d then 0 else t - us d)"

definition time_sub :: "time \<Rightarrow> time \<Rightarrow> duration" where
  "time_sub t s = duration_micros (unat (if t < s then 0 else t - s))"

lemma unat_us: "unat (us d) = min (d div 1000) (2 ^ 64 - 1)"
  by (simp add: us_def unat_of_nat)

lemma unat_time_add: "unat (time_add t d) = min (unat t + unat (us d)) (2 ^ 64 - 1)"
proof -
  have "unat t + unat (us d) < 2 ^ 64 \<Longrightarrow> unat (t + us d) = unat t + unat (us d)"
    by (simp add: unat_word_ariths)
  then show ?thesis by (auto simp: time_add_def)
qed

lemma time_sub_eq: "time_sub t s = 1000 * (unat t - unat s)"
  by (auto simp: time_sub_def duration_defs word_less_nat_alt unat_sub not_less word_le_nat_alt)

lemma time_add_mono: "t \<le> time_add t d"
  using unsigned_less [of t, where ?'a = nat] by (simp add: word_le_nat_alt unat_time_add)

section \<open>Addresses\<close>

type_synonym ipv4_addr = "32 word"
type_synonym ipv6_addr = "128 word"

datatype ip_addr = IpV4 ipv4_addr | IpV6 ipv6_addr

datatype socket_addr =
    SockV4 ipv4_addr u16
  | SockV6 ipv6_addr u16 u32 u32

fun socket_addr_ip :: "socket_addr \<Rightarrow> ip_addr" where
  "socket_addr_ip (SockV4 a _) = IpV4 a"
| "socket_addr_ip (SockV6 a _ _ _) = IpV6 a"

fun socket_addr_port :: "socket_addr \<Rightarrow> u16" where
  "socket_addr_port (SockV4 _ p) = p"
| "socket_addr_port (SockV6 _ p _ _) = p"

text \<open>\<open>SocketAddr::new\<close>: a V6 address with flow information and scope 0.\<close>

fun socket_addr_new :: "ip_addr \<Rightarrow> u16 \<Rightarrow> socket_addr" where
  "socket_addr_new (IpV4 a) p = SockV4 a p"
| "socket_addr_new (IpV6 a) p = SockV6 a p 0 0"

fun ip_octets :: "ip_addr \<Rightarrow> bytes" where
  "ip_octets (IpV4 a) = be_bytes 4 a"
| "ip_octets (IpV6 a) = be_bytes 16 a"

datatype host = HostIp ip_addr | HostDomain bytes

record target =
  tgt_host :: host
  tgt_port :: u16

record accept_meta =
  am_peer :: socket_addr
  am_local :: socket_addr
  am_original_dst :: "socket_addr option"

section \<open>UTF-8 validation, \<open>std::str::from_utf8\<close>\<close>

definition cont_byte :: "u8 \<Rightarrow> bool" where
  "cont_byte b \<longleftrightarrow> 0x80 \<le> b \<and> b \<le> 0xBF"

fun utf8_valid :: "bytes \<Rightarrow> bool" where
  "utf8_valid [] = True"
| "utf8_valid (a # s) =
     (if a \<le> 0x7F then utf8_valid s
      else (case s of
        [] \<Rightarrow> False
      | b # s1 \<Rightarrow>
          (if 0xC2 \<le> a \<and> a \<le> 0xDF then cont_byte b \<and> utf8_valid s1
           else (case s1 of
             [] \<Rightarrow> False
           | c # s2 \<Rightarrow>
               (if 0xE0 \<le> a \<and> a \<le> 0xEF then
                  (if a = 0xE0 then 0xA0 \<le> b \<and> b \<le> 0xBF
                   else if a = 0xED then 0x80 \<le> b \<and> b \<le> 0x9F
                   else cont_byte b) \<and> cont_byte c \<and> utf8_valid s2
                else (case s2 of
                  [] \<Rightarrow> False
                | d # s3 \<Rightarrow>
                    (if 0xF0 \<le> a \<and> a \<le> 0xF4 then
                       (if a = 0xF0 then 0x90 \<le> b \<and> b \<le> 0xBF
                        else if a = 0xF4 then 0x80 \<le> b \<and> b \<le> 0x8F
                        else cont_byte b) \<and> cont_byte c \<and> cont_byte d \<and> utf8_valid s3
                     else False)))))))"

definition from_utf8 :: "bytes \<Rightarrow> bytes option" where
  "from_utf8 b = (if utf8_valid b then Some b else None)"

lemma utf8_valid_ascii: "list_all (\<lambda>b. b \<le> 0x7F) s \<Longrightarrow> utf8_valid s"
  by (induction s) auto

section \<open>Textual IP addresses, \<open>core::net\<close>\<close>

text \<open>
  The parser state is the rest of the input; a reader that fails leaves it where it was, so a
  reader is a function to an optional pair of its result and the rest.
\<close>

type_synonym 'a reader = "bytes \<Rightarrow> ('a \<times> bytes) option"

definition to_digit :: "nat \<Rightarrow> u8 \<Rightarrow> nat option" where
  "to_digit radix c =
     (let d = (if 0x30 \<le> c \<and> c \<le> 0x39 then unat c - 0x30
               else if 0x41 \<le> c \<and> c \<le> 0x5A then unat c - 0x41 + 10
               else if 0x61 \<le> c \<and> c \<le> 0x7A then unat c - 0x61 + 10
               else 36)
      in if d < radix then Some d else None)"

definition read_given_char :: "u8 \<Rightarrow> unit reader" where
  "read_given_char c s = (case s of [] \<Rightarrow> None | b # r \<Rightarrow> if b = c then Some ((), r) else None)"

text \<open>The digits read before the first byte that is none, and the rest.\<close>

fun read_digits :: "nat \<Rightarrow> bytes \<Rightarrow> nat list \<times> bytes" where
  "read_digits radix [] = ([], [])"
| "read_digits radix (c # s) =
     (case to_digit radix c of
        None \<Rightarrow> ([], c # s)
      | Some d \<Rightarrow> (case read_digits radix s of (ds, r) \<Rightarrow> (d # ds, r)))"

definition read_number :: "nat \<Rightarrow> nat \<Rightarrow> bool \<Rightarrow> u32 \<Rightarrow> u32 reader" where
  "read_number radix max_digits allow_zero_prefix bound s =
     (case read_digits radix s of
        (ds, r) \<Rightarrow>
          if max_digits < length ds then None
          else if ds = [] then None
          else if \<not> allow_zero_prefix \<and> hd s = 0x30 \<and> 1 < length ds then None
          else let v = foldl (\<lambda>v d. v * of_nat radix + of_nat d) (0 :: u32) ds in
            if v < bound then Some (v, r) else None)"

definition read_separator :: "u8 \<Rightarrow> nat \<Rightarrow> 'a reader \<Rightarrow> 'a reader" where
  "read_separator sep index inner s =
     (if 0 < index then (case read_given_char sep s of None \<Rightarrow> None | Some (_, r) \<Rightarrow> inner r)
      else inner s)"

fun read_ipv4_groups :: "nat \<Rightarrow> nat \<Rightarrow> u32 list reader" where
  "read_ipv4_groups 0 i s = Some ([], s)"
| "read_ipv4_groups (Suc n) i s =
     (case read_separator 0x2E i (read_number 10 3 False 256) s of
        None \<Rightarrow> None
      | Some (g, r) \<Rightarrow>
          (case read_ipv4_groups n (Suc i) r of
             None \<Rightarrow> None
           | Some (gs, r') \<Rightarrow> Some (g # gs, r')))"

definition read_ipv4_addr :: "ipv4_addr reader" where
  "read_ipv4_addr s =
     (case read_ipv4_groups 4 0 s of
        None \<Rightarrow> None
      | Some (gs, r) \<Rightarrow> Some (from_be (map ucast gs), r))"

text \<open>
  \<open>read_groups p (&mut groups[..limit])\<close>, from index \<open>i\<close> with \<open>n = limit - i\<close> slots left: the
  groups read (the count is their number), whether an embedded IPv4 address ended them, the rest.
\<close>

fun read_ipv6_groups :: "nat \<Rightarrow> nat \<Rightarrow> bytes \<Rightarrow> u16 list \<times> bool \<times> bytes" where
  "read_ipv6_groups 0 i s = ([], False, s)"
| "read_ipv6_groups (Suc n) i s =
     (case (if 0 < n then read_separator 0x3A i read_ipv4_addr s else None) of
        Some (a, r) \<Rightarrow> ([ucast (drop_bit 16 a), ucast a], True, r)
      | None \<Rightarrow>
          (case read_separator 0x3A i (read_number 16 4 True 65536) s of
             None \<Rightarrow> ([], False, s)
           | Some (g, r) \<Rightarrow>
               (case read_ipv6_groups n (Suc i) r of
                  (gs, v4, r') \<Rightarrow> (ucast g # gs, v4, r'))))"

definition ipv6_of_groups :: "u16 list \<Rightarrow> ipv6_addr" where
  "ipv6_of_groups gs = from_be (concat (map (be_bytes 2) gs))"

definition read_ipv6_addr :: "ipv6_addr reader" where
  "read_ipv6_addr s =
     (case read_ipv6_groups 8 0 s of
        (hd_groups, hd_ipv4, r) \<Rightarrow>
          if length hd_groups = 8 then Some (ipv6_of_groups hd_groups, r)
          else if hd_ipv4 then None
          else (case read_given_char 0x3A r of
            None \<Rightarrow> None
          | Some (_, r1) \<Rightarrow>
              (case read_given_char 0x3A r1 of
                 None \<Rightarrow> None
               | Some (_, r2) \<Rightarrow>
                   (case read_ipv6_groups (8 - (length hd_groups + 1)) 0 r2 of
                      (tl_groups, _, r3) \<Rightarrow>
                        Some (ipv6_of_groups
                                (hd_groups @ replicate (8 - length hd_groups - length tl_groups) 0 @ tl_groups), r3)))))"

definition parse_with :: "'a reader \<Rightarrow> bytes \<Rightarrow> 'a option" where
  "parse_with rd s = (case rd s of Some (x, []) \<Rightarrow> Some x | _ \<Rightarrow> None)"

definition parse_ipv4 :: "bytes \<Rightarrow> ipv4_addr option" where
  "parse_ipv4 s = (if 15 < length s then None else parse_with read_ipv4_addr s)"

definition parse_ipv6 :: "bytes \<Rightarrow> ipv6_addr option" where
  "parse_ipv6 s = parse_with read_ipv6_addr s"

lemma read_ipv6_groups_length: "read_ipv6_groups n i s = (gs, v4, r) \<Longrightarrow> length gs \<le> n"
proof (induction n arbitrary: i s gs v4 r)
  case (Suc n)
  then show ?case
    by (fastforce split: option.splits prod.splits if_splits)
qed simp

end
