(* ===== verification/Udp_Defrag.thy ===== *)
theory Udp_Defrag
  imports Wire_UdpMsg Rust_Std
begin

text \<open>
  The four-slot LRU reassembler of \<^verbatim>\<open>crates/mq-proxy/src/udp/defrag.rs\<close>. \<open>defrag_feed\<close> is the whole
  method; \<open>defrag_inv\<close> its invariant. \<open>spec_feed\<close> is the contract of a reassembler with room for
  every packet, a map from packet ids to what arrived so far; the code refines it as long as no
  slot has to be evicted, and the reassembly of interleaved packets is proved on the contract.
\<close>

section \<open>The code\<close>

definition SLOTS :: nat where "SLOTS = 4"
definition MAX_TOTAL :: nat where "MAX_TOTAL = 65535"

datatype feed_result = Complete bytes | Pending | Rejected

record defrag_slot =
  sl_packet_id :: u16
  sl_frags :: "bytes option list"
  sl_received :: nat
  sl_total_len :: nat
  sl_seq :: u64

record defrag =
  df_slots :: "defrag_slot list"
  df_seq :: u64

definition defrag_new :: defrag where
  "defrag_new = \<lparr>df_slots = [], df_seq = 0\<rparr>"

text \<open>\<open>Vec::swap_remove\<close> and \<open>min_by_key\<close> (the first minimum) of the standard library.\<close>

definition swap_remove :: "nat \<Rightarrow> 'a list \<Rightarrow> 'a list" where
  "swap_remove i xs = butlast (xs[i := last xs])"

definition min_index :: "('a \<Rightarrow> u64) \<Rightarrow> 'a list \<Rightarrow> nat" where
  "min_index key xs =
     foldl (\<lambda>b i. if key (xs ! i) < key (xs ! b) then i else b) 0 [1 ..< length xs]"

text \<open>The lookup of lines 50 to 76: the slot the fragment goes to, or a rejection.\<close>

definition find_slot :: "defrag \<Rightarrow> udp_msg_hdr \<Rightarrow> nat option \<times> defrag" where
  "find_slot d h =
     (case position (\<lambda>s. sl_packet_id s = umh_packet_id h) (df_slots d) of
        Some i \<Rightarrow>
          if length (sl_frags (df_slots d ! i)) \<noteq> unat (umh_frag_count h)
          then (None, d\<lparr>df_slots := swap_remove i (df_slots d)\<rparr>)
          else (Some i, d\<lparr>df_slots := (df_slots d)[i := (df_slots d ! i)\<lparr>sl_seq := df_seq d\<rparr>]\<rparr>)
      | None \<Rightarrow>
          let s = \<lparr>sl_packet_id = umh_packet_id h,
                   sl_frags = replicate (unat (umh_frag_count h)) None,
                   sl_received = 0, sl_total_len = 0, sl_seq = df_seq d\<rparr> in
          if length (df_slots d) < SLOTS
          then (Some (length (df_slots d)), d\<lparr>df_slots := df_slots d @ [s]\<rparr>)
          else let lru = min_index sl_seq (df_slots d) in
            (Some lru, d\<lparr>df_slots := (df_slots d)[lru := s]\<rparr>))"

text \<open>Lines 89 to 91, and lines 77 to 97 around them: the fragment is stored in slot \<open>i\<close>.\<close>

definition slot_put :: "defrag_slot \<Rightarrow> nat \<Rightarrow> bytes \<Rightarrow> defrag_slot" where
  "slot_put s k bytes =
     s\<lparr>sl_frags := (sl_frags s)[k := Some bytes], sl_received := sl_received s + 1,
       sl_total_len := sl_total_len s + length bytes\<rparr>"

definition store_frag :: "defrag \<Rightarrow> nat \<Rightarrow> udp_msg_hdr \<Rightarrow> bytes \<Rightarrow> feed_result \<times> defrag" where
  "store_frag d i h bytes =
     (let s = df_slots d ! i; k = unat (umh_frag_id h) in
      if sl_frags s ! k \<noteq> None then (Pending, d)
      else if MAX_TOTAL < sl_total_len s + length bytes
      then (Rejected, d\<lparr>df_slots := swap_remove i (df_slots d)\<rparr>)
      else let s' = slot_put s k bytes;
               d' = d\<lparr>df_slots := (df_slots d)[i := s']\<rparr> in
        if sl_received s' < length (sl_frags s') then (Pending, d')
        else (Complete (concat (List.map_filter (\<lambda>x. x) (sl_frags s'))),
              d'\<lparr>df_slots := swap_remove i (df_slots d')\<rparr>))"

definition defrag_feed :: "defrag \<Rightarrow> udp_msg_hdr \<Rightarrow> bytes \<Rightarrow> feed_result \<times> defrag" where
  "defrag_feed d h bytes =
     (if umh_frag_count h = 0 \<or> umh_frag_count h \<le> umh_frag_id h then (Rejected, d)
      else if umh_frag_count h = 1 then (Complete bytes, d)
      else case find_slot (d\<lparr>df_seq := df_seq d + 1\<rparr>) h of
        (None, d') \<Rightarrow> (Rejected, d')
      | (Some i, d') \<Rightarrow> store_frag d' i h bytes)"

section \<open>Lists of slots\<close>

lemma swap_remove_snoc:
  "i \<le> length ys \<Longrightarrow> swap_remove i (ys @ [y]) = (if i = length ys then ys else ys[i := y])"
  by (simp add: swap_remove_def list_update_append butlast_append)

lemma length_swap_remove [simp]: "length (swap_remove i xs) = length xs - 1"
  by (simp add: swap_remove_def)

lemma set_swap_remove:
  assumes "i < length xs"
  shows "set (swap_remove i xs) \<subseteq> set xs"
proof -
  obtain ys y where xs: "xs = ys @ [y]" using assms by (cases xs rule: rev_cases) auto
  show ?thesis using assms set_update_subset_insert [of ys i y] by (auto simp: xs swap_remove_snoc)
qed

lemma distinct_swap_remove:
  assumes "distinct (map f xs)" and "i < length xs"
  shows "distinct (map f (swap_remove i xs))" and "set (swap_remove i xs) = set xs - {xs ! i}"
proof -
  obtain ys y where xs: "xs = ys @ [y]" using assms by (cases xs rule: rev_cases) auto
  have d: "distinct (map f ys)" "f y \<notin> f ` set ys" "distinct ys" "y \<notin> set ys"
    using assms(1) by (auto simp: xs distinct_map)
  have i: "i \<noteq> length ys \<Longrightarrow> i < length ys" using assms(2) by (simp add: xs)
  show "distinct (map f (swap_remove i xs))"
    using d i assms(2) by (simp add: xs swap_remove_snoc map_update distinct_list_update)
  show "set (swap_remove i xs) = set xs - {xs ! i}"
    using d i assms(2) nth_mem [of i ys] by (auto simp: xs swap_remove_snoc set_update_distinct nth_append)
qed

lemma min_index_less: "xs \<noteq> [] \<Longrightarrow> min_index key xs < length xs"
proof -
  assume "xs \<noteq> []"
  have "b < length xs \<Longrightarrow> (\<forall>i \<in> set is. i < length xs) \<Longrightarrow>
      foldl (\<lambda>b i. if key (xs ! i) < key (xs ! b) then i else b) b is < length xs" for b "is"
    by (induction "is" arbitrary: b) auto
  with \<open>xs \<noteq> []\<close> show ?thesis by (simp add: min_index_def)
qed

section \<open>The invariant\<close>

definition present :: "bytes option list \<Rightarrow> bytes list" where
  "present fs = List.map_filter (\<lambda>x. x) fs"

definition slot_ok :: "defrag_slot \<Rightarrow> bool" where
  "slot_ok s \<longleftrightarrow> 2 \<le> length (sl_frags s) \<and> length (sl_frags s) \<le> 255
     \<and> sl_received s = length (present (sl_frags s)) \<and> sl_received s < length (sl_frags s)
     \<and> sl_total_len s = length (concat (present (sl_frags s))) \<and> sl_total_len s \<le> MAX_TOTAL"

definition defrag_inv :: "defrag \<Rightarrow> bool" where
  "defrag_inv d \<longleftrightarrow> length (df_slots d) \<le> SLOTS \<and> distinct (map sl_packet_id (df_slots d))
     \<and> list_all slot_ok (df_slots d)"

lemma present_simps [simp]:
  "present [] = []" "present (None # fs) = present fs" "present (Some b # fs) = b # present fs"
  by (simp_all add: present_def List.map_filter_simps)

lemma present_replicate_None [simp]: "present (replicate n None) = []"
  by (induction n) simp_all

lemma present_update:
  "k < length fs \<Longrightarrow> fs ! k = None \<Longrightarrow>
     length (present (fs[k := Some b])) = Suc (length (present fs))
     \<and> length (concat (present (fs[k := Some b]))) = length (concat (present fs)) + length b"
proof (induction fs arbitrary: k)
  case (Cons f fs)
  then show ?case by (cases k; cases f) auto
qed simp

lemma length_present: "length (present fs) \<le> length fs"
proof (induction fs)
  case (Cons f fs)
  then show ?case by (cases f) auto
qed simp

lemma present_full: "length fs \<le> length (present fs) \<longleftrightarrow> None \<notin> set fs"
proof (induction fs)
  case (Cons f fs)
  then show ?case using length_present [of fs] by (cases f) auto
qed simp

lemma present_map_the: "None \<notin> set fs \<Longrightarrow> present fs = map the fs"
proof (induction fs)
  case (Cons f fs)
  then show ?case by (cases f) auto
qed simp

lemma defrag_inv_new [inv_intros]: "defrag_inv defrag_new"
  by (simp add: defrag_inv_def defrag_new_def)

lemma defrag_inv_swap_remove [inv_intros]:
  "defrag_inv d \<Longrightarrow> i < length (df_slots d) \<Longrightarrow> defrag_inv (d\<lparr>df_slots := swap_remove i (df_slots d)\<rparr>)"
  using set_swap_remove [of i "df_slots d"]
  by (auto simp: defrag_inv_def list_all_iff distinct_swap_remove(1))

lemma defrag_inv_update [inv_intros]:
  assumes "defrag_inv d" and "i < length (df_slots d)" and "slot_ok s"
    and "sl_packet_id s = sl_packet_id (df_slots d ! i) \<or> sl_packet_id s \<notin> sl_packet_id ` set (df_slots d)"
  shows "defrag_inv (d\<lparr>df_slots := (df_slots d)[i := s]\<rparr>)"
proof -
  have d: "distinct (map sl_packet_id (df_slots d))" using assms(1) by (simp add: defrag_inv_def)
  have "distinct ((map sl_packet_id (df_slots d))[i := sl_packet_id s])"
    using assms(4)
  proof
    assume "sl_packet_id s = sl_packet_id (df_slots d ! i)"
    then have "(map sl_packet_id (df_slots d))[i := sl_packet_id s] = map sl_packet_id (df_slots d)"
      using assms(2) list_update_id [of "map sl_packet_id (df_slots d)" i] by simp
    with d show ?thesis by simp
  next
    assume "sl_packet_id s \<notin> sl_packet_id ` set (df_slots d)"
    with d show ?thesis by (intro distinct_list_update) auto
  qed
  then have "distinct (map sl_packet_id ((df_slots d)[i := s]))" by (simp add: map_update)
  with assms show ?thesis
    using set_update_subset_insert [of "df_slots d" i s] by (auto simp: defrag_inv_def list_all_iff)
qed

lemma slot_ok_fresh:
  "2 \<le> n \<Longrightarrow> n \<le> 255 \<Longrightarrow>
   slot_ok \<lparr>sl_packet_id = p, sl_frags = replicate n None, sl_received = 0, sl_total_len = 0, sl_seq = q\<rparr>"
  by (simp add: slot_ok_def)

lemma frag_count_bounds:
  assumes "\<not> (umh_frag_count h = 0 \<or> umh_frag_count h \<le> umh_frag_id h)" and "umh_frag_count h \<noteq> 1"
  shows "2 \<le> unat (umh_frag_count h)" "unat (umh_frag_count h) \<le> 255"
    "unat (umh_frag_id h) < unat (umh_frag_count h)"
proof -
  have "unat (umh_frag_count h) \<noteq> unat (0 :: u8)" and "unat (umh_frag_count h) \<noteq> unat (1 :: u8)"
    using assms unsigned_word_eqI by blast+
  then have "unat (umh_frag_count h) \<noteq> 0" and "unat (umh_frag_count h) \<noteq> 1" by simp_all
  then show "2 \<le> unat (umh_frag_count h)" by arith
  show "unat (umh_frag_count h) \<le> 255" using unsigned_less [of "umh_frag_count h", where ?'a = nat] by simp
  show "unat (umh_frag_id h) < unat (umh_frag_count h)" using assms by (simp add: word_le_nat_alt not_le)
qed

lemma find_slot_inv:
  assumes "defrag_inv d" and "2 \<le> unat (umh_frag_count h)" and "find_slot d h = (r, d')"
  shows "defrag_inv d'"
    and "r = Some i \<Longrightarrow> i < length (df_slots d') \<and> sl_packet_id (df_slots d' ! i) = umh_packet_id h
      \<and> length (sl_frags (df_slots d' ! i)) = unat (umh_frag_count h)"
proof -
  have c: "unat (umh_frag_count h) \<le> 255" using unsigned_less [of "umh_frag_count h", where ?'a = nat] by simp
  note fresh = slot_ok_fresh [OF assms(2) c]
  let ?P = "\<lambda>s. sl_packet_id s = umh_packet_id h"
  have "defrag_inv d' \<and> (r = Some i \<longrightarrow> i < length (df_slots d') \<and> sl_packet_id (df_slots d' ! i) = umh_packet_id h
      \<and> length (sl_frags (df_slots d' ! i)) = unat (umh_frag_count h))"
  proof (cases "position ?P (df_slots d)")
    case (Some j)
    have j: "j < length (df_slots d)" "?P (df_slots d ! j)" using position_Some [OF Some] by auto
    then have "slot_ok ((df_slots d ! j)\<lparr>sl_seq := df_seq d\<rparr>)"
      using assms(1) by (auto simp: defrag_inv_def list_all_length slot_ok_def)
    with j Some assms(1,3) show ?thesis
      by (auto simp: find_slot_def split: if_splits intro!: inv_intros)
  next
    case None
    then have new: "umh_packet_id h \<notin> sl_packet_id ` set (df_slots d)" by (auto simp: position_None)
    show ?thesis
    proof (cases "length (df_slots d) < SLOTS")
      case True
      with None new assms fresh show ?thesis
        by (auto simp: find_slot_def Let_def defrag_inv_def nth_append)
    next
      case False
      then have "min_index sl_seq (df_slots d) < length (df_slots d)"
        by (intro min_index_less) (auto simp: SLOTS_def)
      with False None new assms fresh show ?thesis
        by (auto simp: find_slot_def Let_def intro!: inv_intros)
    qed
  qed
  then show "defrag_inv d'" and "r = Some i \<Longrightarrow> i < length (df_slots d') \<and> sl_packet_id (df_slots d' ! i) = umh_packet_id h
      \<and> length (sl_frags (df_slots d' ! i)) = unat (umh_frag_count h)" by blast+
qed

lemma store_frag_inv:
  assumes inv: "defrag_inv d" and i: "i < length (df_slots d)"
    and k: "unat (umh_frag_id h) < length (sl_frags (df_slots d ! i))"
    and run: "store_frag d i h b = (r, d')"
  shows "defrag_inv d'" and "r = Complete p \<Longrightarrow> length p \<le> MAX_TOTAL"
proof -
  define s where "s = df_slots d ! i"
  define fs where "fs = (sl_frags s)[unat (umh_frag_id h) := Some b]"
  define s' where "s' = slot_put s (unat (umh_frag_id h)) b"
  have s: "slot_ok s" using inv i by (simp add: defrag_inv_def list_all_length s_def)
  consider "sl_frags s ! unat (umh_frag_id h) \<noteq> None" "r = Pending" "d' = d"
    | "r = Rejected" "d' = d\<lparr>df_slots := swap_remove i (df_slots d)\<rparr>"
    | "sl_frags s ! unat (umh_frag_id h) = None" "sl_total_len s + length b \<le> MAX_TOTAL"
      "sl_received s' < length fs" "r = Pending" "d' = d\<lparr>df_slots := (df_slots d)[i := s']\<rparr>"
    | "sl_frags s ! unat (umh_frag_id h) = None" "sl_total_len s + length b \<le> MAX_TOTAL"
      "r = Complete (concat (present fs))"
      "d' = d\<lparr>df_slots := swap_remove i ((df_slots d)[i := s'])\<rparr>"
    using run by (auto simp: store_frag_def Let_def s_def fs_def s'_def slot_put_def present_def split: if_splits)
  then have "defrag_inv d' \<and> (r = Complete p \<longrightarrow> length p \<le> MAX_TOTAL)"
  proof cases
    case 3
    then have "slot_ok s'"
      using s k present_update [of "unat (umh_frag_id h)" "sl_frags s" b]
      by (auto simp: slot_ok_def s'_def slot_put_def fs_def s_def)
    with 3 inv i show ?thesis by (auto simp: s'_def slot_put_def s_def intro!: inv_intros)
  next
    case 4
    have "length (concat (present fs)) \<le> MAX_TOTAL"
      using 4 s k present_update [of "unat (umh_frag_id h)" "sl_frags s" b]
      by (auto simp: slot_ok_def fs_def s_def)
    moreover have "defrag_inv d'"
    proof -
      have ids: "map sl_packet_id ((df_slots d)[i := s']) = map sl_packet_id (df_slots d)"
        using i list_update_id [of "map sl_packet_id (df_slots d)" i] by (simp add: map_update s'_def slot_put_def s_def)
      then have "distinct (map sl_packet_id ((df_slots d)[i := s']))" using inv by (simp add: defrag_inv_def)
      note rm = distinct_swap_remove [OF this]
      have "set (swap_remove i ((df_slots d)[i := s'])) \<subseteq> set (df_slots d)"
        using rm(2) [of i] i set_update_subset_insert [of "df_slots d" i s'] by auto
      then show ?thesis using inv i rm(1) [of i] by (auto simp: defrag_inv_def list_all_iff 4(4))
    qed
    ultimately show ?thesis using 4 by auto
  qed (use inv i in \<open>auto intro: inv_intros\<close>)
  then show "defrag_inv d'" and "r = Complete p \<Longrightarrow> length p \<le> MAX_TOTAL" by blast+
qed

lemma defrag_feed_cases:
  obtains (reject) "defrag_feed d h b = (Rejected, d)"
      "umh_frag_count h = 0 \<or> umh_frag_count h \<le> umh_frag_id h"
  | (single) "defrag_feed d h b = (Complete b, d)" "umh_frag_count h = 1" "umh_frag_id h < umh_frag_count h"
  | (stale) d' where "find_slot (d\<lparr>df_seq := df_seq d + 1\<rparr>) h = (None, d')" "defrag_feed d h b = (Rejected, d')"
      "umh_frag_count h \<noteq> 1" "\<not> (umh_frag_count h = 0 \<or> umh_frag_count h \<le> umh_frag_id h)"
  | (store) i d' where "find_slot (d\<lparr>df_seq := df_seq d + 1\<rparr>) h = (Some i, d')"
      "defrag_feed d h b = store_frag d' i h b"
      "umh_frag_count h \<noteq> 1" "\<not> (umh_frag_count h = 0 \<or> umh_frag_count h \<le> umh_frag_id h)"
proof (cases "umh_frag_count h = 0 \<or> umh_frag_count h \<le> umh_frag_id h")
  case True
  then show ?thesis by (intro reject) (auto simp: defrag_feed_def)
next
  case multi: False
  show ?thesis
  proof (cases "umh_frag_count h = 1")
    case True
    have "umh_frag_id h < umh_frag_count h" using multi by (simp only: de_Morgan_disj not_le)
    with True multi show ?thesis by (intro single) (simp_all add: defrag_feed_def)
  next
    case False
    obtain r d' where f: "find_slot (d\<lparr>df_seq := df_seq d + 1\<rparr>) h = (r, d')" by fastforce
    with multi False show ?thesis
      by (cases r) (auto simp: defrag_feed_def intro: stale store)
  qed
qed

lemma defrag_inv_seq [simp]: "defrag_inv (d\<lparr>df_seq := q\<rparr>) = defrag_inv d"
  by (simp add: defrag_inv_def)

lemma defrag_feed_inv:
  assumes "defrag_inv d" and "defrag_feed d h b = (r, d')"
  shows "defrag_inv d'" and "r = Complete p \<Longrightarrow> length p \<le> max MAX_TOTAL (length b)"
proof -
  have "defrag_inv d' \<and> (r = Complete p \<longrightarrow> length p \<le> max MAX_TOTAL (length b))"
  proof (cases rule: defrag_feed_cases [where d = d and h = h and b = b])
    case (stale d'')
    with assms find_slot_inv(1) [of "d\<lparr>df_seq := df_seq d + 1\<rparr>" h None d''] frag_count_bounds(1) [of h]
    show ?thesis by auto
  next
    case (store i d'')
    note b = frag_count_bounds [OF store(4,3)]
    have inv: "defrag_inv (d\<lparr>df_seq := df_seq d + 1\<rparr>)" using assms(1) by simp
    note f = find_slot_inv(1) [OF inv b(1) store(1)] find_slot_inv(2) [OF inv b(1) store(1) refl]
    have "store_frag d'' i h b = (r, d')" using store(2) assms(2) by simp
    from store_frag_inv [OF f(1) _ _ this] f(2) b(3) show ?thesis by (auto simp: le_max_iff_disj)
  qed (use assms in auto)
  then show "defrag_inv d'" and "r = Complete p \<Longrightarrow> length p \<le> max MAX_TOTAL (length b)" by blast+
qed

section \<open>The contract: a reassembler with room for every packet\<close>

type_synonym assembly = "u16 \<Rightarrow> bytes option list option"

definition spec_store :: "assembly \<Rightarrow> bytes option list \<Rightarrow> udp_msg_hdr \<Rightarrow> bytes \<Rightarrow> feed_result \<times> assembly" where
  "spec_store m fs h b =
     (let p = umh_packet_id h; k = unat (umh_frag_id h); fs' = fs[k := Some b] in
      if fs ! k \<noteq> None then (Pending, m(p \<mapsto> fs))
      else if MAX_TOTAL < length (concat (present fs)) + length b then (Rejected, m(p := None))
      else if None \<in> set fs' then (Pending, m(p \<mapsto> fs'))
      else (Complete (concat (map the fs')), m(p := None)))"

definition spec_feed :: "assembly \<Rightarrow> udp_msg_hdr \<Rightarrow> bytes \<Rightarrow> feed_result \<times> assembly" where
  "spec_feed m h b =
     (if umh_frag_count h = 0 \<or> umh_frag_count h \<le> umh_frag_id h then (Rejected, m)
      else if umh_frag_count h = 1 then (Complete b, m)
      else case m (umh_packet_id h) of
        None \<Rightarrow> spec_store m (replicate (unat (umh_frag_count h)) None) h b
      | Some fs \<Rightarrow>
          if length fs \<noteq> unat (umh_frag_count h) then (Rejected, m(umh_packet_id h := None))
          else spec_store m fs h b)"

definition slots_abs :: "defrag_slot list \<Rightarrow> assembly" where
  "slots_abs ss = map_of (map (\<lambda>s. (sl_packet_id s, sl_frags s)) ss)"

definition defrag_abs :: "defrag \<Rightarrow> assembly" where
  "defrag_abs d = slots_abs (df_slots d)"

lemma slots_abs_update:
  "distinct (map sl_packet_id ss) \<Longrightarrow> i < length ss \<Longrightarrow> sl_packet_id s = sl_packet_id (ss ! i) \<Longrightarrow>
   slots_abs (ss[i := s]) = (slots_abs ss)(sl_packet_id s \<mapsto> sl_frags s)"
proof (induction ss arbitrary: i)
  case (Cons a ss)
  show ?case
  proof (cases i)
    case (Suc j)
    with Cons.prems have "sl_packet_id s \<in> sl_packet_id ` set ss" by auto
    with Cons.prems have "sl_packet_id s \<noteq> sl_packet_id a" by auto
    with Suc Cons show ?thesis by (auto simp: slots_abs_def fun_eq_iff)
  qed (use Cons in \<open>auto simp: slots_abs_def fun_eq_iff\<close>)
qed simp

lemma slots_abs_Some_iff:
  "distinct (map sl_packet_id ss) \<Longrightarrow>
   slots_abs ss p = Some fs \<longleftrightarrow> (\<exists>s \<in> set ss. sl_packet_id s = p \<and> sl_frags s = fs)"
  by (subst slots_abs_def, subst map_of_eq_Some_iff) (auto simp: comp_def)

lemma slots_abs_swap_remove:
  assumes "distinct (map sl_packet_id ss)" and "i < length ss"
  shows "slots_abs (swap_remove i ss) = (slots_abs ss)(sl_packet_id (ss ! i) := None)"
proof
  fix p
  note rm = distinct_swap_remove [OF assms]
  have inj: "s \<in> set ss \<Longrightarrow> sl_packet_id s = sl_packet_id (ss ! i) \<Longrightarrow> s = ss ! i" for s
    using assms by (auto simp: distinct_map inj_on_def)
  have "slots_abs (swap_remove i ss) p = Some fs
      \<longleftrightarrow> ((slots_abs ss)(sl_packet_id (ss ! i) := None)) p = Some fs" for fs
    using inj by (auto simp: slots_abs_Some_iff [OF rm(1)] slots_abs_Some_iff [OF assms(1)] rm(2))
  then show "slots_abs (swap_remove i ss) p = ((slots_abs ss)(sl_packet_id (ss ! i) := None)) p"
    by (metis option.exhaust)
qed

lemma slots_abs_snoc:
  "sl_packet_id s \<notin> sl_packet_id ` set ss \<Longrightarrow>
   slots_abs (ss @ [s]) = (slots_abs ss)(sl_packet_id s \<mapsto> sl_frags s)"
  by (induction ss) (auto simp: slots_abs_def fun_upd_twist)

lemma slots_abs_position:
  "position (\<lambda>s. sl_packet_id s = p) ss = Some i \<Longrightarrow> slots_abs ss p = Some (sl_frags (ss ! i))"
  "position (\<lambda>s. sl_packet_id s = p) ss = None \<Longrightarrow> slots_abs ss p = None"
proof (induction ss arbitrary: i)
  case (Cons a ss)
  { case 1 with Cons show ?case by (auto simp: slots_abs_def split: if_splits) }
  { case 2 with Cons show ?case by (auto simp: slots_abs_def split: if_splits) }
qed (simp_all add: slots_abs_def)

lemma find_slot_abs:
  assumes inv: "defrag_inv d" and room: "length (df_slots d) < SLOTS \<or> defrag_abs d (umh_packet_id h) \<noteq> None"
    and run: "find_slot d h = (r, d')"
  shows "case defrag_abs d (umh_packet_id h) of
      None \<Rightarrow> (\<exists>i. r = Some i \<and> sl_frags (df_slots d' ! i) = replicate (unat (umh_frag_count h)) None)
        \<and> defrag_abs d' = (defrag_abs d)(umh_packet_id h \<mapsto> replicate (unat (umh_frag_count h)) None)
    | Some fs \<Rightarrow>
        if length fs \<noteq> unat (umh_frag_count h)
        then r = None \<and> defrag_abs d' = (defrag_abs d)(umh_packet_id h := None)
        else (\<exists>i. r = Some i \<and> sl_frags (df_slots d' ! i) = fs) \<and> defrag_abs d' = defrag_abs d"
proof (cases "position (\<lambda>s. sl_packet_id s = umh_packet_id h) (df_slots d)")
  case None
  note abs = slots_abs_position(2) [OF None]
  from None have "umh_packet_id h \<notin> sl_packet_id ` set (df_slots d)" by (auto simp: position_None)
  with None abs room run show ?thesis
    by (auto simp: find_slot_def defrag_abs_def Let_def slots_abs_snoc)
next
  case (Some i)
  note abs = slots_abs_position(1) [OF Some] and i = position_Some [OF Some]
  have dist: "distinct (map sl_packet_id (df_slots d))" using inv by (simp add: defrag_inv_def)
  let ?s = "(df_slots d ! i)\<lparr>sl_seq := df_seq d\<rparr>"
  have "slots_abs ((df_slots d)[i := ?s]) = slots_abs (df_slots d)"
    using slots_abs_update [OF dist, of i ?s] i abs by (auto simp: fun_eq_iff)
  moreover have "slots_abs (swap_remove i (df_slots d)) = (slots_abs (df_slots d))(umh_packet_id h := None)"
    using slots_abs_swap_remove [OF dist, of i] i by simp
  ultimately show ?thesis
    using run abs i unfolding find_slot_def Some defrag_abs_def
    by (cases "length (sl_frags (df_slots d ! i)) = unat (umh_frag_count h)") auto
qed

lemma store_frag_abs:
  assumes inv: "defrag_inv d" and i: "i < length (df_slots d)"
    and p: "sl_packet_id (df_slots d ! i) = umh_packet_id h" and fs: "sl_frags (df_slots d ! i) = fs"
    and k: "unat (umh_frag_id h) < length fs"
    and m: "defrag_abs d = m(umh_packet_id h \<mapsto> fs)" and run: "store_frag d i h b = (r, d')"
  shows "spec_store m fs h b = (r, defrag_abs d')"
proof -
  define s where "s = df_slots d ! i"
  define fs' where "fs' = fs[unat (umh_frag_id h) := Some b]"
  define s' where "s' = slot_put s (unat (umh_frag_id h)) b"
  have s: "slot_ok s" "sl_frags s = fs" using inv i fs by (simp_all add: defrag_inv_def list_all_length s_def)
  have dist: "distinct (map sl_packet_id (df_slots d))" using inv by (simp add: defrag_inv_def)
  have ids: "map sl_packet_id ((df_slots d)[i := s']) = map sl_packet_id (df_slots d)"
    using i list_update_id [of "map sl_packet_id (df_slots d)" i] by (simp add: map_update s'_def slot_put_def s_def)
  have upd: "slots_abs ((df_slots d)[i := s']) = m(umh_packet_id h \<mapsto> fs')"
    using slots_abs_update [OF dist i, of s'] m p fs by (simp add: s'_def slot_put_def fs'_def s_def defrag_abs_def)
  have rm: "slots_abs (swap_remove i (df_slots d)) = m(umh_packet_id h := None)"
    using slots_abs_swap_remove [OF dist i] m p by (simp add: defrag_abs_def)
  have rm': "slots_abs (swap_remove i ((df_slots d)[i := s'])) = m(umh_packet_id h := None)"
    using slots_abs_swap_remove [of "(df_slots d)[i := s']" i] ids dist i upd p by (simp add: s'_def slot_put_def s_def)
  have full: "fs ! unat (umh_frag_id h) = None \<Longrightarrow> sl_received s' < length fs' \<longleftrightarrow> None \<in> set fs'"
    using present_update [of "unat (umh_frag_id h)" fs b] k s present_full [of fs']
    by (auto simp: s'_def slot_put_def slot_ok_def fs'_def not_le)
  have the: "None \<notin> set fs' \<Longrightarrow> List.map_filter (\<lambda>x. x) fs' = map the fs'"
    using present_map_the [of fs'] by (simp add: present_def)
  have tot: "sl_total_len s = length (concat (present fs))" using s by (simp add: slot_ok_def)
  have frags: "sl_frags s' = fs'" using s by (simp add: s'_def slot_put_def fs'_def)
  show ?thesis
    using run full m
    unfolding store_frag_def spec_store_def Let_def s_def [symmetric] s'_def [symmetric] fs'_def [symmetric] tot s(2) frags
    by (auto simp: defrag_abs_def rm rm' upd the split: if_splits)
qed

lemma defrag_feed_refines:
  assumes inv: "defrag_inv d" and room: "length (df_slots d) < SLOTS \<or> defrag_abs d (umh_packet_id h) \<noteq> None"
  shows "spec_feed (defrag_abs d) h b = (case defrag_feed d h b of (r, d') \<Rightarrow> (r, defrag_abs d'))"
proof (cases rule: defrag_feed_cases [where d = d and h = h and b = b])
  case (stale d')
  have inv1: "defrag_inv (d\<lparr>df_seq := df_seq d + 1\<rparr>)" using inv by simp
  have "defrag_abs (d\<lparr>df_seq := df_seq d + 1\<rparr>) = defrag_abs d" by (simp add: defrag_abs_def)
  with find_slot_abs [OF inv1 _ stale(1)] room stale show ?thesis
    by (auto simp: spec_feed_def split: option.splits if_splits)
next
  case (store i d')
  note b = frag_count_bounds [OF store(4,3)]
  have inv1: "defrag_inv (d\<lparr>df_seq := df_seq d + 1\<rparr>)" using inv by simp
  note f = find_slot_inv(1) [OF inv1 b(1) store(1)] find_slot_inv(2) [OF inv1 b(1) store(1) refl]
  have eq: "defrag_abs (d\<lparr>df_seq := df_seq d + 1\<rparr>) = defrag_abs d" by (simp add: defrag_abs_def)
  obtain r d'' where run: "store_frag d' i h b = (r, d'')" by fastforce
  define fs where "fs = sl_frags (df_slots d' ! i)"
  have k: "unat (umh_frag_id h) < length fs" using f(2) b(3) by (simp add: fs_def)
  have m: "defrag_abs d' = (defrag_abs d)(umh_packet_id h \<mapsto> fs)
      \<and> spec_feed (defrag_abs d) h b = spec_store (defrag_abs d) fs h b"
    using find_slot_abs [OF inv1 _ store(1)] room store eq
    by (auto simp: spec_feed_def fs_def fun_upd_idem split: option.splits if_splits)
  show ?thesis
    using store_frag_abs [OF f(1) _ _ fs_def [symmetric] k _ run, of "defrag_abs d"] f(2) m store(2) run
    by simp
qed (auto simp: spec_feed_def not_le)

section \<open>Interleaved packets\<close>

text \<open>
  A family \<open>P\<close> gives the fragments of every packet id in flight; an arrival is a packet id and a
  fragment number. \<open>arrived P es\<close> is what a reassembler holds after the arrivals \<open>es\<close>.
\<close>

type_synonym arrival = "u16 \<times> nat"

fun defrag_run :: "defrag \<Rightarrow> (udp_msg_hdr \<times> bytes) list \<Rightarrow> feed_result list \<times> defrag" where
  "defrag_run d [] = ([], d)"
| "defrag_run d ((h, b) # xs) =
     (case defrag_feed d h b of (r, d') \<Rightarrow> (case defrag_run d' xs of (rs, d'') \<Rightarrow> (r # rs, d'')))"

definition frag_of :: "u32 \<Rightarrow> (u16 \<Rightarrow> bytes list option) \<Rightarrow> arrival \<Rightarrow> udp_msg_hdr \<times> bytes" where
  "frag_of sid P a = (case a of (p, i) \<Rightarrow> (frag_hdr sid p (length (the (P p))) i, the (P p) ! i))"

definition outcome :: "(u16 \<Rightarrow> bytes list option) \<Rightarrow> arrival list \<Rightarrow> arrival \<Rightarrow> feed_result" where
  "outcome P es a =
     (case a of (p, i) \<Rightarrow>
        if list_all (\<lambda>j. j = i \<or> (p, j) \<in> set es) [0 ..< length (the (P p))]
        then Complete (concat (the (P p))) else Pending)"

definition held :: "bytes list \<Rightarrow> u16 \<Rightarrow> arrival list \<Rightarrow> bytes option list" where
  "held fs p es = map (\<lambda>j. if (p, j) \<in> set es then Some (fs ! j) else None) [0 ..< length fs]"

definition arrived :: "(u16 \<Rightarrow> bytes list option) \<Rightarrow> arrival list \<Rightarrow> assembly" where
  "arrived P es p =
     (case P p of
        None \<Rightarrow> None
      | Some fs \<Rightarrow>
          if (\<forall>j < length fs. (p, j) \<notin> set es) \<or> (\<forall>j < length fs. (p, j) \<in> set es) then None
          else Some (held fs p es))"

definition family_ok :: "(u16 \<Rightarrow> bytes list option) \<Rightarrow> bool" where
  "family_ok P \<longleftrightarrow> finite (dom P) \<and> card (dom P) \<le> SLOTS
     \<and> (\<forall>p fs. P p = Some fs \<longrightarrow> 2 \<le> length fs \<and> length fs \<le> 255 \<and> length (concat fs) \<le> MAX_TOTAL)"

definition arrival_ok :: "(u16 \<Rightarrow> bytes list option) \<Rightarrow> arrival \<Rightarrow> bool" where
  "arrival_ok P a \<longleftrightarrow> (case a of (p, i) \<Rightarrow> P p \<noteq> None \<and> i < length (the (P p)))"

lemma packet_id_frag_hdr [simp]: "umh_packet_id (frag_hdr sid p n i) = p"
  by (simp add: frag_hdr_def)

lemma present_append [simp]: "present (xs @ ys) = present xs @ present ys"
proof (induction xs)
  case (Cons x xs)
  then show ?case by (cases x) simp_all
qed simp

lemma present_select:
  "n \<le> length fs \<Longrightarrow>
   length (concat (present (map (\<lambda>j. if Q j then Some (fs ! j) else None) [0 ..< n]))) \<le> length (concat (take n fs))"
  by (induction n) (auto simp: take_Suc_conv_app_nth)

lemma held_snoc: "i < length fs \<Longrightarrow> held fs p (es @ [(p, i)]) = (held fs p es)[i := Some (fs ! i)]"
  by (rule nth_equalityI) (auto simp: held_def nth_list_update)

lemma None_in_held: "None \<in> set (held fs p es) \<longleftrightarrow> (\<exists>j < length fs. (p, j) \<notin> set es)"
  by (force simp: held_def)

lemma held_total: "length (concat (present (held fs p es))) \<le> length (concat fs)"
  using present_select [of "length fs" fs "\<lambda>j. (p, j) \<in> set es"] by (simp add: held_def)

lemma held_full: "None \<notin> set (held fs p es) \<Longrightarrow> map the (held fs p es) = fs"
  by (rule nth_equalityI) (auto simp: None_in_held, auto simp: held_def)

lemma spec_feed_arrived:
  assumes P: "P p = Some fs" and fs: "2 \<le> length fs" "length fs \<le> 255" "length (concat fs) \<le> MAX_TOTAL"
    and i: "i < length fs" and new: "(p, i) \<notin> set es"
  shows "spec_feed (arrived P es) (frag_hdr sid p (length fs) i) (fs ! i)
    = (outcome P es (p, i), arrived P (es @ [(p, i)]))"
proof -
  let ?h = "frag_hdr sid p (length fs) i"
  have h: "unat (umh_frag_count ?h) = length fs" "unat (umh_frag_id ?h) = i" "umh_packet_id ?h = p"
    using fs i by (simp_all add: frag_hdr_def unat_of_nat)
  have ok: "\<not> (umh_frag_count ?h = 0 \<or> umh_frag_count ?h \<le> umh_frag_id ?h)" "umh_frag_count ?h \<noteq> 1"
    using fs i h by (auto simp: word_le_nat_alt not_le)
  have start: "spec_feed (arrived P es) ?h (fs ! i) = spec_store (arrived P es) (held fs p es) ?h (fs ! i)"
  proof (cases "\<forall>j < length fs. (p, j) \<notin> set es")
    case True
    then have "arrived P es p = None" and "held fs p es = replicate (length fs) None"
      using P by (auto simp: arrived_def held_def intro!: nth_equalityI)
    then show ?thesis using ok by (simp add: spec_feed_def h)
  next
    case False
    then have "arrived P es p = Some (held fs p es)" using P i new by (auto simp: arrived_def)
    then show ?thesis using ok by (simp add: spec_feed_def h) (simp add: held_def)
  qed
  have none: "held fs p es ! i = None" using i new by (simp add: held_def)
  have "length (concat (present (held fs p es))) + length (fs ! i) \<le> MAX_TOTAL"
    using present_update [of i "held fs p es" "fs ! i"] held_total [of fs p "es @ [(p, i)]"] none i fs(3)
    by (simp add: held_snoc) (simp add: held_def)
  then have store: "spec_store (arrived P es) (held fs p es) ?h (fs ! i)
     = (if None \<in> set (held fs p (es @ [(p, i)])) then (Pending, (arrived P es)(p \<mapsto> held fs p (es @ [(p, i)])))
        else (Complete (concat fs), (arrived P es)(p := None)))"
    using none i held_full [of fs p "es @ [(p, i)]"] by (auto simp: spec_store_def Let_def h held_snoc)
  have other: "q \<noteq> p \<Longrightarrow> arrived P (es @ [(p, i)]) q = arrived P es q" for q
    by (cases "P q") (simp_all add: arrived_def held_def)
  have here: "arrived P (es @ [(p, i)]) p =
      (if None \<in> set (held fs p (es @ [(p, i)])) then Some (held fs p (es @ [(p, i)])) else None)"
    using P i by (auto simp: arrived_def None_in_held)
  have out: "outcome P es (p, i) = (if None \<in> set (held fs p (es @ [(p, i)])) then Pending else Complete (concat fs))"
    using P by (auto simp: outcome_def None_in_held list_all_iff)
  show ?thesis
    unfolding start store out using other here by (auto simp: fun_eq_iff)
qed

lemma card_dom_slots_abs:
  "distinct (map sl_packet_id ss) \<Longrightarrow> card (dom (slots_abs ss)) = length ss"
  by (simp add: slots_abs_def dom_map_of_conv_image_fst image_image card_image distinct_map flip: length_remdups_card_conv)

lemma arrived_dom: "dom (arrived P es) \<subseteq> dom P"
  by (auto simp: arrived_def split: option.splits)

lemma room_of_family:
  assumes "family_ok P" and "defrag_inv d" and "defrag_abs d = arrived P es" and "P p \<noteq> None"
  shows "length (df_slots d) < SLOTS \<or> defrag_abs d p \<noteq> None"
proof (rule disjCI)
  assume "\<not> defrag_abs d p \<noteq> None"
  then have "dom (defrag_abs d) \<subseteq> dom P - {p}"
    using arrived_dom [of P es] assms(3) by auto
  moreover have fin: "finite (dom P)" "card (dom P) \<le> SLOTS" using assms(1) by (auto simp: family_ok_def)
  ultimately have "card (dom (defrag_abs d)) \<le> card (dom P - {p})" by (intro card_mono) auto
  also have "\<dots> < card (dom P)" using fin(1) assms(4) by (intro psubset_card_mono) auto
  also have "\<dots> \<le> SLOTS" by (rule fin(2))
  finally show "length (df_slots d) < SLOTS"
    using assms(2) by (simp add: defrag_abs_def card_dom_slots_abs defrag_inv_def)
qed

lemma defrag_run_arrivals:
  assumes "family_ok P" and "distinct (es @ xs)" and "list_all (arrival_ok P) xs"
    and "defrag_inv d" and "defrag_abs d = arrived P es"
  shows "fst (defrag_run d (map (frag_of sid P) xs)) = map (\<lambda>k. outcome P (es @ take k xs) (xs ! k)) [0 ..< length xs]
    \<and> defrag_inv (snd (defrag_run d (map (frag_of sid P) xs)))
    \<and> defrag_abs (snd (defrag_run d (map (frag_of sid P) xs))) = arrived P (es @ xs)"
  using assms(2-5)
proof (induction xs arbitrary: es d)
  case (Cons a xs)
  obtain p i where a: "a = (p, i)" by fastforce
  from Cons.prems(2) obtain fs where P: "P p = Some fs" and i: "i < length fs"
    by (auto simp: a arrival_ok_def)
  have fs: "2 \<le> length fs" "length fs \<le> 255" "length (concat fs) \<le> MAX_TOTAL"
    using assms(1) P by (auto simp: family_ok_def)
  have fo: "frag_of sid P a = (frag_hdr sid p (length fs) i, fs ! i)" by (simp add: a frag_of_def P)
  obtain r d' where run: "defrag_feed d (frag_hdr sid p (length fs) i) (fs ! i) = (r, d')" by fastforce
  have room: "length (df_slots d) < SLOTS \<or> defrag_abs d p \<noteq> None"
    using room_of_family [OF assms(1) Cons.prems(3,4), of p] P by simp
  have "(p, i) \<notin> set es" using Cons.prems(1) by (simp add: a)
  from spec_feed_arrived [where P = P and p = p and i = i and es = es and sid = sid, OF P fs i this] defrag_feed_refines [OF Cons.prems(3), of "frag_hdr sid p (length fs) i" "fs ! i"] room
  have out: "r = outcome P es a" and abs: "defrag_abs d' = arrived P (es @ [a])"
    by (simp_all add: run Cons.prems(4) a)
  have "defrag_inv d'" by (rule defrag_feed_inv(1) [OF Cons.prems(3) run])
  from Cons.IH [OF _ _ this abs] Cons.prems
  have IH: "fst (defrag_run d' (map (frag_of sid P) xs)) = map (\<lambda>k. outcome P (es @ a # take k xs) (xs ! k)) [0 ..< length xs]"
    "defrag_inv (snd (defrag_run d' (map (frag_of sid P) xs)))"
    "defrag_abs (snd (defrag_run d' (map (frag_of sid P) xs))) = arrived P (es @ a # xs)" by simp_all
  have step: "fst (defrag_run d (map (frag_of sid P) (a # xs))) = r # fst (defrag_run d' (map (frag_of sid P) xs))"
    "snd (defrag_run d (map (frag_of sid P) (a # xs))) = snd (defrag_run d' (map (frag_of sid P) xs))"
    by (simp_all add: fo run split: prod.splits)
  have idx: "[0 ..< length (a # xs)] = 0 # map Suc [0 ..< length xs]" by (simp add: map_Suc_upt upt_conv_Cons del: upt_Suc)
  show ?case unfolding step idx using IH out by simp
qed simp

lemma defrag_abs_new: "defrag_abs defrag_new = arrived P []"
  by (auto simp: defrag_abs_def defrag_new_def slots_abs_def arrived_def fun_eq_iff split: option.splits)

section \<open>Properties\<close>

text \<open>C1. Reassembly under interleaving: when the fragments of at most four packets arrive in any
  order and any interleaving, each fragment once, every packet completes with its exact payload at
  the arrival of its last fragment, and every other arrival is pending.\<close>

theorem defrag_reassembles:
  assumes "family_ok P" and "distinct es" and "list_all (arrival_ok P) es"
  shows "fst (defrag_run defrag_new (map (frag_of sid P) es))
    = map (\<lambda>k. outcome P (take k es) (es ! k)) [0 ..< length es]"
proof -
  from defrag_run_arrivals [where es = "[]", OF assms(1) _ assms(3) defrag_inv_new defrag_abs_new] assms(2)
  show ?thesis by simp
qed

theorem defrag_reassembles_witness:
  "fst (defrag_run defrag_new (map (frag_of 1 [7 \<mapsto> [[1], [2]], 8 \<mapsto> [[3], [], [5]]]) [(7, 1), (8, 0), (7, 0)]))
   = [Pending, Pending, Complete [1, 2]]"
proof -
  let ?P = "[7 \<mapsto> [[1], [2]], 8 \<mapsto> [[3], [], [5]]] :: u16 \<Rightarrow> bytes list option"
  have "family_ok ?P" unfolding family_ok_def by (auto simp: SLOTS_def MAX_TOTAL_def)
  moreover have "distinct [(7 :: u16, 1 :: nat), (8, 0), (7, 0)]" by simp
  moreover have "list_all (arrival_ok ?P) [(7, 1), (8, 0), (7, 0)]" by (simp add: arrival_ok_def)
  ultimately have "fst (defrag_run defrag_new (map (frag_of 1 ?P) [(7, 1), (8, 0), (7, 0)]))
      = [outcome ?P [] (7, 1), outcome ?P [(7, 1)] (8, 0), outcome ?P [(7, 1), (8, 0)] (7, 0)]"
    using defrag_reassembles [of ?P "[(7, 1), (8, 0), (7, 0)]" 1] by simp
  also have "outcome ?P [] (7, 1) = Pending" by (simp add: outcome_def)
  also have "outcome ?P [(7, 1)] (8, 0) = Pending" by (simp add: outcome_def)
  also have "outcome ?P [(7, 1), (8, 0)] (7, 0) = Complete [1, 2]" by (simp add: outcome_def)
  finally show ?thesis .
qed

text \<open>C15. Refinement: while a slot is free or the packet already has one, feeding a fragment does
  exactly what the reassembler with unbounded room does, result and state.\<close>

theorem defrag_refines_spec:
  assumes "defrag_inv d" and "length (df_slots d) < SLOTS \<or> defrag_abs d (umh_packet_id h) \<noteq> None"
  shows "spec_feed (defrag_abs d) h b = (case defrag_feed d h b of (r, d') \<Rightarrow> (r, defrag_abs d'))"
  using assms by (rule defrag_feed_refines)

theorem defrag_refines_spec_witness:
  "spec_feed (defrag_abs defrag_new) (frag_hdr 1 9 2 0) [5]
   = (case defrag_feed defrag_new (frag_hdr 1 9 2 0) [5] of (r, d') \<Rightarrow> (r, defrag_abs d'))"
  using defrag_refines_spec [OF defrag_inv_new, of "frag_hdr 1 9 2 0" "[5]"]
  by (simp add: defrag_new_def SLOTS_def)

text \<open>C17. Bounded memory against any peer: from the empty reassembler, whatever fragments arrive,
  at most four assemblies exist, for distinct packet ids, each below its fragment count and within
  65535 bytes; and a reassembled packet is never longer than that bound or the datagram it came in.\<close>

theorem defrag_bounded:
  "defrag_inv (snd (defrag_run defrag_new xs))
   \<and> list_all2 (\<lambda>r (h, b). case r of Complete p \<Rightarrow> length p \<le> max MAX_TOTAL (length b) | _ \<Rightarrow> True)
       (fst (defrag_run defrag_new xs)) xs"
proof -
  have "defrag_inv d \<Longrightarrow> defrag_inv (snd (defrag_run d xs))
      \<and> list_all2 (\<lambda>r (h, b). case r of Complete p \<Rightarrow> length p \<le> max MAX_TOTAL (length b) | _ \<Rightarrow> True)
          (fst (defrag_run d xs)) xs" for d
  proof (induction xs arbitrary: d)
    case (Cons x xs)
    obtain h b where x: "x = (h, b)" by fastforce
    obtain r d' where run: "defrag_feed d h b = (r, d')" by fastforce
    note inv = defrag_feed_inv [OF Cons.prems run]
    have "case r of Complete p \<Rightarrow> length p \<le> max MAX_TOTAL (length b) | _ \<Rightarrow> True"
      using inv(2) by (cases r) simp_all
    then show ?case using Cons.IH [OF inv(1)]
      by (cases "defrag_run d' xs") (simp add: x run)
  qed simp
  then show ?thesis using defrag_inv_new by blast
qed

end
