(* ===== verification/Udp_Lane.thy ===== *)
theory Udp_Lane
  imports Net_Types Wire_Frames Wire_UdpMsg
begin

text \<open>
  The pieces of the UDP lane both roles share, \<^verbatim>\<open>crates/mq-proxy/src/udp\<close>: constants, the stats
  counters, \<open>host_of\<close> (\<^verbatim>\<open>mod.rs\<close>), the buffer of datagrams that arrive before their session is
  live (\<^verbatim>\<open>preopen.rs\<close>), the MSS cache and the fragment send policy (\<^verbatim>\<open>send.rs\<close>), and the SOCKS5
  UDP encapsulation header (\<^verbatim>\<open>socks5udp.rs\<close>).

  The QUIC transport is outside the model: \<open>send_packet\<close> takes the two transport calls it makes,
  \<open>datagram_mss\<close> and \<open>datagram_send\<close>, as arguments over an arbitrary transport state.
\<close>

section \<open>Constants and counters\<close>

definition MAX_SESSIONS_PER_CONN :: nat where "MAX_SESSIONS_PER_CONN = 1024"
definition NEG_CACHE :: duration where "NEG_CACHE = duration_secs 2"
definition PREAUTH_SENDQ_DGRAMS :: nat where "PREAUTH_SENDQ_DGRAMS = 8"
definition PREAUTH_SENDQ_BYTES :: nat where "PREAUTH_SENDQ_BYTES = 8 * 1024"
definition PREOPEN_DGRAMS :: nat where "PREOPEN_DGRAMS = 16"
definition PREOPEN_BYTES :: nat where "PREOPEN_BYTES = 32 * 1024"
definition PREOPEN_TTL :: duration where "PREOPEN_TTL = duration_millis 250"
definition DEFAULT_IDLE :: duration where "DEFAULT_IDLE = duration_secs 60"
definition SESSION_RESP_WAIT :: duration where "SESSION_RESP_WAIT = duration_secs 10"
definition MSS_REFRESH :: u32 where "MSS_REFRESH = 64"
definition MAX_DST_PER_ASSOC :: nat where "MAX_DST_PER_ASSOC = 64"
definition MAX_DGRAM :: nat where "MAX_DGRAM = 65535"

definition host_of :: "addr_type \<Rightarrow> bytes \<Rightarrow> host option" where
  "host_of atype addr =
     (case atype of
        Ipv4 \<Rightarrow> if length addr = 4 then Some (HostIp (IpV4 (from_be addr))) else None
      | Ipv6 \<Rightarrow> if length addr = 16 then Some (HostIp (IpV6 (from_be addr))) else None
      | Domain \<Rightarrow> map_option HostDomain (from_utf8 addr))"

datatype session_end = EndRefused udp_err | EndClosed

record counters =
  c_frags_sent :: u32
  c_frags_reassembled :: u32
  c_drops_send_fail :: u32
  c_drops_oversize :: u32
  c_defrag_drops :: u32
  c_preopen_evictions :: u32
  c_drops_preauth :: u32
  c_drops_empty :: u32
  c_drops_unknown_sid :: u32
  c_sendq_evictions :: u32
  c_drops_session_limit :: u32
  c_drops_dst_limit :: u32

definition counters_default :: counters where
  "counters_default = \<lparr>c_frags_sent = 0, c_frags_reassembled = 0, c_drops_send_fail = 0, c_drops_oversize = 0, c_defrag_drops = 0,
     c_preopen_evictions = 0, c_drops_preauth = 0, c_drops_empty = 0, c_drops_unknown_sid = 0, c_sendq_evictions = 0,
     c_drops_session_limit = 0, c_drops_dst_limit = 0\<rparr>"

section \<open>The pre-OPEN buffer\<close>

type_synonym parked = "u32 \<times> time \<times> bytes"

record pre_open =
  po_q :: "parked list"
  po_bytes :: nat

definition pre_open_new :: pre_open where
  "pre_open_new = \<lparr>po_q = [], po_bytes = 0\<rparr>"

definition parked_len :: "parked \<Rightarrow> nat" where
  "parked_len e = length (snd (snd e))"

fun sweep_expired :: "time \<Rightarrow> parked list \<Rightarrow> nat \<Rightarrow> parked list \<times> nat" where
  "sweep_expired now [] bs = ([], bs)"
| "sweep_expired now (e # q) bs =
     (if PREOPEN_TTL < time_sub now (fst (snd e)) then sweep_expired now q (bs - parked_len e)
      else (e # q, bs))"

fun evict_oldest :: "nat \<Rightarrow> parked list \<Rightarrow> nat \<Rightarrow> u32 \<Rightarrow> parked list \<times> nat \<times> u32" where
  "evict_oldest n [] bs evictions = ([], bs, evictions)"
| "evict_oldest n (e # q) bs evictions =
     (if PREOPEN_DGRAMS \<le> length (e # q) \<or> PREOPEN_BYTES < bs + n
      then evict_oldest n q (bs - parked_len e) (evictions + 1)
      else (e # q, bs, evictions))"

definition pre_open_push :: "pre_open \<Rightarrow> time \<Rightarrow> u32 \<Rightarrow> bytes \<Rightarrow> u32 \<times> pre_open" where
  "pre_open_push po now sid datagram =
     (case sweep_expired now (po_q po) (po_bytes po) of
        (q, bs) \<Rightarrow>
          if PREOPEN_BYTES < length datagram then (1, \<lparr>po_q = q, po_bytes = bs\<rparr>)
          else case evict_oldest (length datagram) q bs 0 of
            (q', bs', evictions) \<Rightarrow>
              (evictions, \<lparr>po_q = q' @ [(sid, now, datagram)], po_bytes = bs' + length datagram\<rparr>))"

fun take_loop :: "time \<Rightarrow> u32 \<Rightarrow> parked list \<Rightarrow> pre_open \<Rightarrow> bytes list \<Rightarrow> bytes list \<times> pre_open" where
  "take_loop now sid [] po out = (out, po)"
| "take_loop now sid (e # es) po out =
     (if fst e \<noteq> sid then take_loop now sid es (po\<lparr>po_q := po_q po @ [e]\<rparr>) out
      else take_loop now sid es (po\<lparr>po_bytes := po_bytes po - parked_len e\<rparr>)
             (if time_sub now (fst (snd e)) \<le> PREOPEN_TTL then out @ [snd (snd e)] else out))"

definition pre_open_take :: "pre_open \<Rightarrow> time \<Rightarrow> u32 \<Rightarrow> bytes list \<times> pre_open" where
  "pre_open_take po now sid = take_loop now sid (po_q po) (po\<lparr>po_q := []\<rparr>) []"

definition pre_open_discard :: "pre_open \<Rightarrow> u32 \<Rightarrow> pre_open" where
  "pre_open_discard po sid =
     (let q = filter (\<lambda>e. fst e \<noteq> sid) (po_q po) in \<lparr>po_q = q, po_bytes = sum_list (map parked_len q)\<rparr>)"

section \<open>The MSS cache and the send policy\<close>

definition SCRATCH :: nat where "SCRATCH = 2048"

record mss_cache =
  mc_value :: nat
  mc_countdown :: u32

definition mss_cache_new :: mss_cache where
  "mss_cache_new = \<lparr>mc_value = 0, mc_countdown = 0\<rparr>"

definition mss_payload :: "mss_cache \<Rightarrow> nat \<Rightarrow> nat \<times> mss_cache" where
  "mss_payload mc datagram_mss =
     (let mc' = (if mc_value mc = 0 \<or> mc_countdown mc = 0
                 then \<lparr>mc_value = datagram_mss, mc_countdown = MSS_REFRESH\<rparr> else mc)
      in (mc_value mc' - UDP_MSG_HDR, mc'))"

definition mss_emitted :: "mss_cache \<Rightarrow> mss_cache" where
  "mss_emitted mc = mc\<lparr>mc_countdown := (if mc_countdown mc = 0 then 0 else mc_countdown mc - 1)\<rparr>"

definition mss_invalidate :: "mss_cache \<Rightarrow> mss_cache" where
  "mss_invalidate mc = mc\<lparr>mc_value := 0\<rparr>"

record send_outcome =
  so_frags_ok :: u8
  so_failed :: u8

record 't send_state =
  ss_transport :: 't
  ss_buf :: bytes
  ss_out :: send_outcome
  ss_mss :: mss_cache
  ss_counters :: counters

text \<open>The closure that \<open>split\<close> calls for each fragment, and its calls in order.\<close>

definition emit_frag ::
  "('t \<Rightarrow> bytes \<Rightarrow> (unit, 'e) result \<times> 't) \<Rightarrow> udp_msg_hdr \<times> bytes \<Rightarrow> 't send_state \<Rightarrow> 't send_state" where
  "emit_frag datagram_send f s =
     (case f of (h, body) \<Rightarrow>
        let n = UDP_MSG_HDR + length body;
            buf = udp_msg_hdr_encode h @ body @ drop n (ss_buf s);
            s1 = s\<lparr>ss_buf := buf\<rparr>
        in (case datagram_send (ss_transport s) (take n buf) of
             (Ok _, t') \<Rightarrow>
               s1\<lparr>ss_transport := t', ss_out := (ss_out s)\<lparr>so_frags_ok := so_frags_ok (ss_out s) + 1\<rparr>,
                  ss_mss := mss_emitted (ss_mss s)\<rparr>
           | (Err _, t') \<Rightarrow>
               s1\<lparr>ss_transport := t', ss_out := (ss_out s)\<lparr>so_failed := so_failed (ss_out s) + 1\<rparr>,
                  ss_counters := (ss_counters s)\<lparr>c_drops_send_fail := c_drops_send_fail (ss_counters s) + 1\<rparr>\<rparr>))"

definition send_packet ::
  "('t \<Rightarrow> nat) \<Rightarrow> ('t \<Rightarrow> bytes \<Rightarrow> (unit, 'e) result \<times> 't) \<Rightarrow> 't \<Rightarrow> mss_cache \<Rightarrow> u32 \<Rightarrow> u16 \<Rightarrow> bytes
     \<Rightarrow> counters \<Rightarrow> send_outcome \<times> 't \<times> mss_cache \<times> counters" where
  "send_packet datagram_mss datagram_send t mss sid packet_id payload c =
     (let out = \<lparr>so_frags_ok = 0, so_failed = 0\<rparr> in
      case mss_payload mss (datagram_mss t) of
        (mp, mss1) \<Rightarrow>
          if mp = 0 then (out, t, mss1, c\<lparr>c_drops_send_fail := c_drops_send_fail c + 1\<rparr>)
          else
            let need = UDP_MSG_HDR + min mp (length payload);
                s0 = \<lparr>ss_transport = t, ss_buf = replicate need 0, ss_out = out, ss_mss = mss1,
                      ss_counters = c\<rparr>
            in case udp_split sid packet_id payload mp of
                 (res, frags) \<Rightarrow>
                   let s = fold (emit_frag datagram_send) frags s0;
                       c1 = ss_counters s;
                       c2 = (case res of
                               Ok _ \<Rightarrow>
                                 if 1 < so_frags_ok (ss_out s)
                                 then c1\<lparr>c_frags_sent := c_frags_sent c1 + ucast (so_frags_ok (ss_out s))\<rparr>
                                 else c1
                             | Err TooManyFrags \<Rightarrow> c1\<lparr>c_drops_oversize := c_drops_oversize c1 + 1\<rparr>
                             | Err ZeroMss \<Rightarrow> c1\<lparr>c_drops_send_fail := c_drops_send_fail c1 + 1\<rparr>)
                   in (ss_out s, ss_transport s, ss_mss s, c2))"

section \<open>The SOCKS5 UDP header\<close>

record dst =
  dst_atype :: addr_type
  dst_addr :: bytes
  dst_port :: u16

text \<open>\<open>buf.get(a..b)\<close>.\<close>

definition slice_get :: "bytes \<Rightarrow> nat \<Rightarrow> nat \<Rightarrow> bytes option" where
  "slice_get buf a b = (if a \<le> b \<and> b \<le> length buf then Some (take (b - a) (drop a buf)) else None)"

definition dst_span :: "addr_type \<Rightarrow> bytes \<Rightarrow> (nat \<times> nat) option" where
  "dst_span atype buf =
     (case atype of
        Ipv4 \<Rightarrow> Some (4, 4)
      | Ipv6 \<Rightarrow> Some (4, 16)
      | Domain \<Rightarrow> (case drop 4 buf of [] \<Rightarrow> None | n # _ \<Rightarrow> Some (5, unat n)))"

definition dst_parse :: "bytes \<Rightarrow> (dst \<times> nat) option" where
  "dst_parse buf =
     (if \<not> (4 \<le> length buf \<and> take 3 buf = [0, 0, 0]) then None
      else case addr_type_from_raw (buf ! 3) of
        None \<Rightarrow> None
      | Some atype \<Rightarrow>
          (case dst_span atype buf of
             None \<Rightarrow> None
           | Some (off, len) \<Rightarrow>
               (case slice_get buf off (off + len) of
                  None \<Rightarrow> None
                | Some addr \<Rightarrow>
                    (case slice_get buf (off + len) (off + len + 2) of
                       None \<Rightarrow> None
                     | Some port \<Rightarrow>
                         Some (\<lparr>dst_atype = atype, dst_addr = addr,
                                dst_port = from_be [port ! 0, port ! 1]\<rparr>, off + len + 2)))))"

definition dst_build :: "bytes \<Rightarrow> dst \<Rightarrow> nat \<times> bytes" where
  "dst_build out d =
     (let o1 = out @ [0, 0, 0, addr_type_raw (dst_atype d)];
          o2 = (if dst_atype d = Domain then o1 @ [of_nat (length (dst_addr d))] else o1);
          o3 = o2 @ dst_addr d;
          o4 = o3 @ be_bytes 2 (dst_port d)
      in (length o4 - length out, o4))"

definition target_of :: "dst \<Rightarrow> target option" where
  "target_of d =
     (if dst_atype d = Domain \<and> dst_addr d = [] then None
      else case host_of (dst_atype d) (dst_addr d) of
        None \<Rightarrow> None
      | Some h \<Rightarrow> Some \<lparr>tgt_host = h, tgt_port = dst_port d\<rparr>)"

section \<open>The pre-OPEN buffer is bounded\<close>

definition pre_open_inv :: "pre_open \<Rightarrow> bool" where
  "pre_open_inv po \<longleftrightarrow> po_bytes po = sum_list (map parked_len (po_q po))
     \<and> length (po_q po) \<le> PREOPEN_DGRAMS \<and> po_bytes po \<le> PREOPEN_BYTES"

definition expired :: "time \<Rightarrow> parked \<Rightarrow> bool" where
  "expired now e \<longleftrightarrow> PREOPEN_TTL < time_sub now (fst (snd e))"

lemma sweep_expired_eq:
  "bs = sum_list (map parked_len q) \<Longrightarrow>
   sweep_expired now q bs = (dropWhile (expired now) q, sum_list (map parked_len (dropWhile (expired now) q)))"
  by (induction q arbitrary: bs) (auto simp: expired_def)

definition fits :: "nat \<Rightarrow> parked list \<Rightarrow> bool" where
  "fits n q \<longleftrightarrow> length q < PREOPEN_DGRAMS \<and> sum_list (map parked_len q) + n \<le> PREOPEN_BYTES"

text \<open>What eviction keeps: the longest suffix with room for \<open>n\<close> more bytes, or nothing.\<close>

fun newest_fitting :: "nat \<Rightarrow> parked list \<Rightarrow> parked list" where
  "newest_fitting n [] = []"
| "newest_fitting n (e # q) = (if fits n (e # q) then e # q else newest_fitting n q)"

lemma evict_oldest_eq:
  "bs = sum_list (map parked_len q) \<Longrightarrow>
   evict_oldest n q bs ev =
     (newest_fitting n q, sum_list (map parked_len (newest_fitting n q)),
      ev + of_nat (length q - length (newest_fitting n q)))"
proof (induction q arbitrary: bs ev)
  case (Cons e q)
  have "length (newest_fitting n q) \<le> length q" by (induction q) auto
  with Cons show ?case by (auto simp: fits_def not_le not_less Suc_diff_le)
qed simp

lemma fits_newest_fitting: "newest_fitting n q \<noteq> [] \<Longrightarrow> fits n (newest_fitting n q)"
  by (induction q) auto

lemma newest_fitting_suffix: "\<exists>k. newest_fitting n q = drop k q"
proof (induction q)
  case (Cons e q)
  then obtain k where "newest_fitting n q = drop k q" by blast
  then show ?case by (cases "fits n (e # q)") (auto intro: exI [of _ 0] exI [of _ "Suc k"])
qed simp

lemma newest_fitting_longest: "fits n (drop k q) \<Longrightarrow> length (drop k q) \<le> length (newest_fitting n q)"
proof (induction q arbitrary: k)
  case (Cons e q)
  then show ?case by (cases k) (auto simp: fits_def)
qed simp

lemma take_loop_eq:
  "po_bytes po = sum_list (map parked_len (po_q po)) + sum_list (map parked_len es) \<Longrightarrow>
   take_loop now sid es po out =
     (out @ map (snd \<circ> snd) (filter (\<lambda>e. fst e = sid \<and> \<not> expired now e) es),
      \<lparr>po_q = po_q po @ filter (\<lambda>e. fst e \<noteq> sid) es,
       po_bytes = sum_list (map parked_len (po_q po @ filter (\<lambda>e. fst e \<noteq> sid) es))\<rparr>)"
  by (induction es arbitrary: po out) (auto simp: expired_def not_less)

lemma sum_parked_filter_le: "sum_list (map parked_len (filter Q q)) \<le> sum_list (map parked_len q)"
  by (induction q) auto

lemma pre_open_inv_filter:
  assumes "pre_open_inv po"
  shows "pre_open_inv \<lparr>po_q = filter Q (po_q po), po_bytes = sum_list (map parked_len (filter Q (po_q po)))\<rparr>"
  using assms sum_parked_filter_le [of Q "po_q po"]
  by (auto simp: pre_open_inv_def intro: order_trans [OF length_filter_le])

lemma pre_open_push_eq:
  fixes now :: time
  assumes "pre_open_inv po"
  defines "q \<equiv> dropWhile (expired now) (po_q po)"
  shows "pre_open_push po now sid d =
    (if PREOPEN_BYTES < length d then (1, \<lparr>po_q = q, po_bytes = sum_list (map parked_len q)\<rparr>)
     else (of_nat (length q - length (newest_fitting (length d) q)),
           \<lparr>po_q = newest_fitting (length d) q @ [(sid, now, d)],
            po_bytes = sum_list (map parked_len (newest_fitting (length d) q)) + length d\<rparr>))"
  using assms by (simp add: pre_open_push_def pre_open_inv_def sweep_expired_eq evict_oldest_eq)

lemma sum_dropWhile_le: "sum_list (map parked_len (dropWhile Q q)) \<le> sum_list (map parked_len q)"
  by (induction q) auto

lemma pre_open_push_inv [inv_intros]:
  assumes "pre_open_inv po"
  shows "pre_open_inv (snd (pre_open_push po now sid d))"
proof -
  let ?q = "dropWhile (expired now) (po_q po)"
  have len: "length ?q \<le> length (po_q po)" by (rule length_dropWhile_le)
  have sum: "sum_list (map parked_len ?q) \<le> sum_list (map parked_len (po_q po))"
    by (rule sum_dropWhile_le)
  show ?thesis
    using assms len sum fits_newest_fitting [of "length d" ?q]
    by (cases "newest_fitting (length d) ?q = []")
      (auto simp: pre_open_push_eq pre_open_inv_def fits_def parked_len_def PREOPEN_DGRAMS_def)
qed

lemma pre_open_take_eq:
  assumes "pre_open_inv po"
  shows "pre_open_take po now sid =
    (map (snd \<circ> snd) (filter (\<lambda>e. fst e = sid \<and> \<not> expired now e) (po_q po)), pre_open_discard po sid)"
  using assms by (simp add: pre_open_take_def take_loop_eq pre_open_inv_def pre_open_discard_def Let_def)

lemma pre_open_discard_inv [inv_intros]: "pre_open_inv po \<Longrightarrow> pre_open_inv (pre_open_discard po sid)"
  by (simp add: pre_open_discard_def Let_def pre_open_inv_filter)

lemma pre_open_take_inv [inv_intros]: "pre_open_inv po \<Longrightarrow> pre_open_inv (snd (pre_open_take po now sid))"
  by (simp add: pre_open_take_eq inv_intros)

text \<open>The operations a connection performs on the buffer, in any order.\<close>

datatype pre_open_op = Push time u32 bytes | Take time u32 | Discard u32

fun pre_open_step :: "pre_open_op \<Rightarrow> pre_open \<Rightarrow> pre_open" where
  "pre_open_step (Push now sid d) po = snd (pre_open_push po now sid d)"
| "pre_open_step (Take now sid) po = snd (pre_open_take po now sid)"
| "pre_open_step (Discard sid) po = pre_open_discard po sid"

lemma pre_open_step_inv [inv_intros]: "pre_open_inv po \<Longrightarrow> pre_open_inv (pre_open_step op po)"
  by (cases op) (simp_all add: inv_intros)

section \<open>Fragments on the wire\<close>

text \<open>The datagrams a list of fragments becomes, and sending them one after the other.\<close>

definition datagrams :: "(udp_msg_hdr \<times> bytes) list \<Rightarrow> bytes list" where
  "datagrams frags = map (\<lambda>(h, body). udp_msg_hdr_encode h @ body) frags"

fun send_all :: "('t \<Rightarrow> bytes \<Rightarrow> (unit, 'e) result \<times> 't) \<Rightarrow> 't \<Rightarrow> bytes list \<Rightarrow> bool list \<times> 't" where
  "send_all snd_dg t [] = ([], t)"
| "send_all snd_dg t (d # ds) =
     (case snd_dg t d of (r, t') \<Rightarrow> (case send_all snd_dg t' ds of (oks, t'') \<Rightarrow> (is_ok_result r # oks, t'')))"

lemma length_hdr_encode [simp]: "length (udp_msg_hdr_encode h) = UDP_MSG_HDR"
  by (simp add: udp_msg_hdr_encode_def UDP_MSG_HDR_def)

lemma emit_frag_sends:
  assumes "snd_dg (ss_transport s) (udp_msg_hdr_encode h @ body) = (r, t')"
  shows "ss_transport (emit_frag snd_dg (h, body) s) = t'"
    and "ss_out (emit_frag snd_dg (h, body) s) =
      (if is_ok_result r then (ss_out s)\<lparr>so_frags_ok := so_frags_ok (ss_out s) + 1\<rparr>
       else (ss_out s)\<lparr>so_failed := so_failed (ss_out s) + 1\<rparr>)"
    and "ss_counters (emit_frag snd_dg (h, body) s) =
      (if is_ok_result r then ss_counters s
       else (ss_counters s)\<lparr>c_drops_send_fail := c_drops_send_fail (ss_counters s) + 1\<rparr>)"
  using assms by (cases r; simp add: emit_frag_def Let_def)+

lemma fold_emit_frag:
  assumes "send_all snd_dg (ss_transport s) (datagrams frags) = (oks, t')"
  shows "ss_transport (fold (emit_frag snd_dg) frags s) = t'
    \<and> ss_out (fold (emit_frag snd_dg) frags s) =
        \<lparr>so_frags_ok = so_frags_ok (ss_out s) + of_nat (count_list oks True),
         so_failed = so_failed (ss_out s) + of_nat (count_list oks False)\<rparr>
    \<and> ss_counters (fold (emit_frag snd_dg) frags s) = (ss_counters s)\<lparr>c_drops_send_fail :=
        c_drops_send_fail (ss_counters s) + of_nat (count_list oks False)\<rparr>"
  using assms
proof (induction frags arbitrary: s oks)
  case (Cons f frags)
  obtain h body where f: "f = (h, body)" by fastforce
  obtain r t1 where r: "snd_dg (ss_transport s) (udp_msg_hdr_encode h @ body) = (r, t1)" by fastforce
  obtain oks' where oks': "send_all snd_dg t1 (datagrams frags) = (oks', t')" and oks: "oks = is_ok_result r # oks'"
    using Cons.prems by (auto simp: datagrams_def f r split: prod.splits)
  show ?case
    using Cons.IH [of "emit_frag snd_dg (h, body) s" oks'] oks'
    by (simp add: f oks emit_frag_sends [where snd_dg = snd_dg, OF r])
qed (simp add: datagrams_def)

lemma length_send_all: "send_all snd_dg t ds = (oks, t') \<Longrightarrow> length oks = length ds"
  by (induction ds arbitrary: t oks) (auto split: prod.splits)

lemma count_list_bool: "count_list oks True + count_list oks False = length oks"
  by (induction oks) auto

section \<open>The SOCKS5 UDP header on the wire\<close>

definition dst_wf :: "dst \<Rightarrow> bool" where
  "dst_wf d \<longleftrightarrow> length (dst_addr d) = (case dst_atype d of Ipv4 \<Rightarrow> 4 | Ipv6 \<Rightarrow> 16 | Domain \<Rightarrow> length (dst_addr d))
     \<and> length (dst_addr d) \<le> 255"

definition dst_head :: "dst \<Rightarrow> bytes" where
  "dst_head d = [0, 0, 0, addr_type_raw (dst_atype d)]
     @ (if dst_atype d = Domain then [of_nat (length (dst_addr d))] else [])"

definition dst_wire :: "dst \<Rightarrow> bytes" where
  "dst_wire d = dst_head d @ dst_addr d @ be_bytes 2 (dst_port d)"

lemma dst_build_eq: "dst_build out d = (length (dst_wire d), out @ dst_wire d)"
  by (simp add: dst_build_def dst_wire_def dst_head_def Let_def)

lemma slice_get_mid: "slice_get (pre @ mid @ post) (length pre) (length pre + length mid) = Some mid"
  by (simp add: slice_get_def)

lemma drop_take_split: "a \<le> b \<Longrightarrow> drop a xs = take (b - a) (drop a xs) @ drop b xs"
  using append_take_drop_id [of "b - a" "drop a xs"] by simp

lemma slice_get_Some: "slice_get buf a b = Some xs \<Longrightarrow> b \<le> length buf \<and> length xs = b - a \<and> drop a buf = xs @ drop b buf"
  by (auto simp: slice_get_def split: if_splits)
    (rule drop_take_split)

lemma addr_type_from_raw_Some: "addr_type_from_raw r = Some a \<Longrightarrow> addr_type_raw a = r"
  by (auto simp: addr_type_from_raw_def split: if_splits)

lemma two_bytes: "length (port :: bytes) = 2 \<Longrightarrow> be_bytes 2 (from_be [port ! 0, port ! 1] :: u16) = port"
proof -
  assume "length port = 2"
  then have p: "[port ! 0, port ! 1] = port" by (intro nth_equalityI) (auto simp: less_Suc_eq)
  show ?thesis using be_bytes_from_be [of port, where ?'a = 16] \<open>length port = 2\<close> p by simp
qed

lemma from_be_two_bytes: "from_be [be_bytes 2 (p :: u16) ! 0, be_bytes 2 p ! 1] = p"
proof -
  have "[be_bytes 2 p ! 0, be_bytes 2 p ! 1] = be_bytes 2 p"
    by (intro nth_equalityI) (auto simp: less_Suc_eq)
  then show ?thesis using from_be_be_bytes [of 2 p] by (simp add: take_bit_word_eq_self)
qed

lemma dst_parse_wire:
  assumes "dst_wf d"
  shows "dst_parse (dst_wire d @ payload) = Some (d, length (dst_wire d))"
proof -
  let ?buf = "dst_wire d @ payload" and ?off = "length (dst_head d)" and ?len = "length (dst_addr d)"
  have head: "take 3 ?buf = [0, 0, 0]" "4 \<le> length ?buf" "?buf ! 3 = addr_type_raw (dst_atype d)"
    by (simp_all add: dst_wire_def dst_head_def)
  have off: "dst_span (dst_atype d) ?buf = Some (?off, ?len)"
    using assms by (cases "dst_atype d") (simp_all add: dst_span_def dst_wf_def dst_wire_def dst_head_def unat_of_nat)
  have addr: "slice_get ?buf ?off (?off + ?len) = Some (dst_addr d)"
    using slice_get_mid [of "dst_head d" "dst_addr d"] by (simp add: dst_wire_def)
  have port: "slice_get ?buf (?off + ?len) (?off + ?len + 2) = Some (be_bytes 2 (dst_port d))"
    using slice_get_mid [of "dst_head d @ dst_addr d" "be_bytes 2 (dst_port d)" payload] by (simp add: dst_wire_def)
  show ?thesis
    unfolding dst_parse_def using head
    by (simp only: addr_type_from_raw_raw option.case off addr port from_be_two_bytes prod.case)
      (simp add: dst_wire_def)
qed

lemma dst_parse_Some:
  assumes "dst_parse buf = Some (d, n)"
  shows "dst_wf d \<and> buf = dst_wire d @ drop n buf \<and> n = length (dst_wire d)"
proof -
  have len: "4 \<le> length buf" and z: "take 3 buf = [0, 0, 0]"
    using assms by (auto simp: dst_parse_def split: if_splits)
  obtain atype where a: "addr_type_from_raw (buf ! 3) = Some atype"
    using assms by (auto simp: dst_parse_def split: if_splits option.splits)
  obtain off l where ol: "dst_span atype buf = Some (off, l)"
    using assms len z a by (auto simp: dst_parse_def split: option.splits)
  obtain addr port where addr: "slice_get buf off (off + l) = Some addr"
      and port: "slice_get buf (off + l) (off + l + 2) = Some port"
      and d: "d = \<lparr>dst_atype = atype, dst_addr = addr, dst_port = from_be [port ! 0, port ! 1]\<rparr>"
      and n: "n = off + l + 2"
    using assms len z a ol by (auto simp: dst_parse_def split: option.splits)
  note sa = slice_get_Some [OF addr] and sp = slice_get_Some [OF port]
  have four: "take 4 buf = [0, 0, 0, buf ! 3]"
    using len z take_Suc_conv_app_nth [of 3 buf] by simp
  have raw: "addr_type_raw atype = buf ! 3" by (rule addr_type_from_raw_Some [OF a])
  have "take off buf = dst_head d \<and> dst_wf d \<and> off \<le> length buf"
  proof (cases "atype = Domain")
    case True
    then obtain b bs where bs: "drop 4 buf = b # bs" and off: "off = 5" "l = unat b"
      using ol by (auto simp: dst_span_def split: list.splits)
    have "4 < length buf" using bs by (metis drop_eq_Nil list.discI not_le)
    moreover have "buf ! 4 = b" using bs by (rule nth_via_drop)
    ultimately have "take 5 buf = [0, 0, 0, buf ! 3, b]"
      using four take_Suc_conv_app_nth [of 4 buf] by simp
    then show ?thesis
      using True off sa raw unsigned_less [of b, where ?'a = nat]
      by (simp add: dst_head_def dst_wf_def d)
  next
    case False
    then show ?thesis using ol four sa len raw
      by (cases atype) (auto simp: dst_span_def dst_head_def dst_wf_def d)
  qed
  then have head: "take off buf = dst_head d" and wf: "dst_wf d" and "off \<le> length buf" by simp_all
  have "drop off buf = addr @ port @ drop n buf" using sa sp n by simp
  then have "dst_head d @ addr @ port @ drop n buf = buf"
    using append_take_drop_id [of off buf] head by simp
  moreover have "be_bytes 2 (dst_port d) = port" using sp two_bytes [of port] by (simp add: d)
  moreover have "length (dst_head d) = off" using head \<open>off \<le> length buf\<close> by (metis length_take min.absorb2)
  moreover have "length addr = l" "length port = 2" "dst_addr d = addr" using sa sp by (simp_all add: d)
  ultimately show ?thesis using wf n by (simp add: dst_wire_def)
qed

lemma split_datagrams_bound:
  assumes "0 < mp"
  shows "list_all (\<lambda>d. length d \<le> mp + UDP_MSG_HDR) (datagrams (snd (udp_split sid pid payload mp)))"
proof (cases "length (fragments mp payload) \<le> 255")
  case True
  then show ?thesis using assms
    by (auto simp: list_all_iff datagrams_def udp_split_Ok fragments_bound elim!: in_set_zipE)
qed (use assms in \<open>simp add: udp_split_Err datagrams_def\<close>)

lemma sent_counts:
  assumes "0 < mp" and "length payload \<le> 255 * mp" and "send_all snd_dg t (datagrams (snd (udp_split sid pid payload mp))) = (oks, t')"
  shows "count_list oks True + count_list oks False = length (snd (udp_split sid pid payload mp))"
    and "unat (of_nat (count_list oks True) :: u8) = count_list oks True"
    and "unat (of_nat (count_list oks False) :: u8) = count_list oks False"
proof -
  have n: "length (fragments mp payload) \<le> 255" using assms(1,2) length_fragments_le [of mp 255 payload] by simp
  have len: "length (snd (udp_split sid pid payload mp)) = length (fragments mp payload)"
    using assms(1) n by (simp add: udp_split_Ok)
  show cnt: "count_list oks True + count_list oks False = length (snd (udp_split sid pid payload mp))"
    using count_list_bool [of oks] length_send_all [OF assms(3)] by (simp add: datagrams_def)
  show "unat (of_nat (count_list oks True) :: u8) = count_list oks True"
    "unat (of_nat (count_list oks False) :: u8) = count_list oks False"
    using cnt len n by (simp_all add: unat_of_nat)
qed

text \<open>A packet that fits: its fragments go out, and the outcome counts them.\<close>

lemma send_packet_frags:
  assumes mp: "mss_payload mss (dg_mss t) = (mp, mss1)" and fits: "0 < mp" "length payload \<le> 255 * mp"
    and all: "send_all snd_dg t (datagrams (snd (udp_split sid pid payload mp))) = (oks, t')"
  shows "\<exists>mss'. send_packet dg_mss snd_dg t mss sid pid payload c =
    (\<lparr>so_frags_ok = of_nat (count_list oks True), so_failed = of_nat (count_list oks False)\<rparr>, t', mss',
     c\<lparr>c_drops_send_fail := c_drops_send_fail c + of_nat (count_list oks False),
       c_frags_sent := c_frags_sent c + (if 1 < count_list oks True then of_nat (count_list oks True) else 0)\<rparr>)"
proof -
  have n: "length (fragments mp payload) \<le> 255" using fits length_fragments_le [of mp 255 payload] by simp
  define frags where "frags = snd (udp_split sid pid payload mp)"
  have split: "udp_split sid pid payload mp = (Ok (), frags)" using fits n by (simp add: frags_def udp_split_Ok)
  note c8 = sent_counts [OF fits all]
  have one: "(1 :: u8) < of_nat (count_list oks True) \<longleftrightarrow> 1 < count_list oks True" using c8(2) by (simp add: word_less_nat_alt)
  have cast8: "(ucast w :: u32) = of_nat (unat w)" for w :: u8 by simp
  have cast: "(ucast (of_nat (count_list oks True) :: u8) :: u32) = of_nat (count_list oks True)" unfolding cast8 c8(2) ..
  define s where "s = fold (emit_frag snd_dg) frags \<lparr>ss_transport = t, ss_buf = replicate (UDP_MSG_HDR + min mp (length payload)) 0,
      ss_out = \<lparr>so_frags_ok = 0, so_failed = 0\<rparr>, ss_mss = mss1, ss_counters = c\<rparr>"
  have s: "ss_transport s = t'" "ss_out s = \<lparr>so_frags_ok = of_nat (count_list oks True), so_failed = of_nat (count_list oks False)\<rparr>"
    "ss_counters s = c\<lparr>c_drops_send_fail := c_drops_send_fail c + of_nat (count_list oks False)\<rparr>"
    using fold_emit_frag [of snd_dg "\<lparr>ss_transport = t, ss_buf = replicate (UDP_MSG_HDR + min mp (length payload)) 0,
      ss_out = \<lparr>so_frags_ok = 0, so_failed = 0\<rparr>, ss_mss = mss1, ss_counters = c\<rparr>" frags oks t'] all
    unfolding s_def frags_def by simp_all
  show ?thesis
    using fits by (simp add: send_packet_def mp Let_def split s_def [symmetric] s one cast)
qed

section \<open>Properties\<close>

text \<open>C35. The pre-OPEN buffer is bounded: whatever sequence of pushes, takes and discards a
  connection performs, in any time order, at most 16 datagrams and 32 KiB are parked and the byte
  counter is exact.\<close>

theorem pre_open_bounded:
  "pre_open_inv (fold pre_open_step ops pre_open_new)"
proof -
  have "pre_open_inv po \<Longrightarrow> pre_open_inv (fold pre_open_step ops po)" for po
    by (induction ops arbitrary: po) (auto intro: inv_intros)
  moreover have "pre_open_inv pre_open_new" by (simp add: pre_open_inv_def pre_open_new_def)
  ultimately show ?thesis by blast
qed

text \<open>C37. What parking does: the expired prefix goes uncounted; an oversized datagram is dropped
  alone; otherwise the fewest oldest entries that make room are evicted, each counted once, and the
  datagram is queued last. Taking a session returns exactly its unexpired datagrams in arrival order
  and leaves the other sessions' entries in place.\<close>

theorem pre_open_push_take:
  assumes "pre_open_inv po"
  shows "(let q = dropWhile (expired now) (po_q po) in
      case pre_open_push po now sid d of (ev, po') \<Rightarrow>
        if PREOPEN_BYTES < length d then ev = 1 \<and> po_q po' = q
        else (\<exists>k \<le> length q. unat ev = k \<and> po_q po' = drop k q @ [(sid, now, d)]
                \<and> (\<forall>j < k. \<not> fits (length d) (drop j q))))
    \<and> pre_open_take po now sid =
        (map (snd \<circ> snd) (filter (\<lambda>e. fst e = sid \<and> \<not> expired now e) (po_q po)),
         \<lparr>po_q = filter (\<lambda>e. fst e \<noteq> sid) (po_q po),
          po_bytes = sum_list (map parked_len (filter (\<lambda>e. fst e \<noteq> sid) (po_q po)))\<rparr>)"
proof -
  define q where "q = dropWhile (expired now) (po_q po)"
  define k where "k = length q - length (newest_fitting (length d) q)"
  obtain k' where k': "newest_fitting (length d) q = drop k' q" using newest_fitting_suffix by blast
  then have nf: "newest_fitting (length d) q = drop k q"
    by (cases "k' \<le> length q") (auto simp: k_def)
  have "length q \<le> 16" using assms length_dropWhile_le [of "expired now" "po_q po"]
    by (simp add: pre_open_inv_def q_def PREOPEN_DGRAMS_def)
  then have k: "k \<le> length q" "unat (of_nat k :: u32) = k" by (simp_all add: k_def unat_of_nat)
  have "j < k \<Longrightarrow> \<not> fits (length d) (drop j q)" for j
  proof
    assume j: "j < k" and "fits (length d) (drop j q)"
    then have "length (drop j q) \<le> length (drop k q)" using newest_fitting_longest nf by metis
    with j k(1) show False by simp
  qed
  with k nf show ?thesis
    using pre_open_push_eq [OF assms, of now sid d] pre_open_take_eq [OF assms, of now sid]
    by (simp add: q_def [symmetric] k_def [symmetric] pre_open_discard_def Let_def)
qed

theorem pre_open_push_take_witness:
  "pre_open_take \<lparr>po_q = [(1, 5, [9]), (2, 5, [])], po_bytes = 1\<rparr> 6 1 = ([[9]], \<lparr>po_q = [(2, 5, [])], po_bytes = 0\<rparr>)"
proof -
  have "pre_open_inv \<lparr>po_q = [(1, 5, [9]), (2, 5, [])], po_bytes = 1\<rparr>"
    by (simp add: pre_open_inv_def parked_len_def PREOPEN_DGRAMS_def PREOPEN_BYTES_def)
  from pre_open_push_take [OF this, where now = 6 and sid = 1, THEN conjunct2] show ?thesis
    by (simp add: expired_def PREOPEN_TTL_def time_sub_eq duration_defs parked_len_def)
qed

text \<open>C19. Sending a packet: with an unusable MSS or a payload over 255 fragments nothing is sent and
  one drop of the right kind is counted; otherwise exactly the fragments' datagrams, header and
  slice, go to the transport in order, each within the path's datagram size, a failing one does not
  stop the rest, and the outcome and the counters are the numbers of successes and failures.\<close>

theorem send_packet_spec:
  "case mss_payload mss (dg_mss t) of (mp, mss1) \<Rightarrow>
   case send_packet dg_mss snd_dg t mss sid pid payload c of (out, t', mss', c') \<Rightarrow>
     if mp = 0 then out = \<lparr>so_frags_ok = 0, so_failed = 0\<rparr> \<and> t' = t \<and> mss' = mss1
       \<and> c' = c\<lparr>c_drops_send_fail := c_drops_send_fail c + 1\<rparr>
     else if 255 * mp < length payload then out = \<lparr>so_frags_ok = 0, so_failed = 0\<rparr> \<and> t' = t
       \<and> mss' = mss1 \<and> c' = c\<lparr>c_drops_oversize := c_drops_oversize c + 1\<rparr>
     else (case send_all snd_dg t (datagrams (snd (udp_split sid pid payload mp))) of (oks, t'') \<Rightarrow>
       t' = t'' \<and> list_all (\<lambda>d. length d \<le> mp + UDP_MSG_HDR) (datagrams (snd (udp_split sid pid payload mp)))
       \<and> unat (so_frags_ok out) = count_list oks True \<and> unat (so_failed out) = count_list oks False
       \<and> unat (so_frags_ok out) + unat (so_failed out) = length (snd (udp_split sid pid payload mp))
       \<and> c' = c\<lparr>c_drops_send_fail := c_drops_send_fail c + of_nat (count_list oks False),
               c_frags_sent := c_frags_sent c + (if 1 < count_list oks True then of_nat (count_list oks True) else 0)\<rparr>)"
proof -
  obtain mp mss1 where mp: "mss_payload mss (dg_mss t) = (mp, mss1)" by fastforce
  let ?fs = "fragments mp payload"
  consider "mp = 0" | "0 < mp" "255 * mp < length payload" | "0 < mp" "length payload \<le> 255 * mp"
    by linarith
  then show ?thesis
  proof cases
    case 1
    then show ?thesis by (simp add: send_packet_def mp Let_def)
  next
    case 2
    then have "255 < length ?fs" using length_fragments_le [of mp 255 payload] by simp
    with 2 show ?thesis by (simp add: send_packet_def mp Let_def udp_split_Err)
  next
    case 3
    obtain oks t'' where all: "send_all snd_dg t (datagrams (snd (udp_split sid pid payload mp))) = (oks, t'')" by fastforce
    from send_packet_frags [where c = c and dg_mss = dg_mss and t = t, OF mp 3 all] obtain mss' where run: "send_packet dg_mss snd_dg t mss sid pid payload c =
      (\<lparr>so_frags_ok = of_nat (count_list oks True), so_failed = of_nat (count_list oks False)\<rparr>, t'', mss',
       c\<lparr>c_drops_send_fail := c_drops_send_fail c + of_nat (count_list oks False),
         c_frags_sent := c_frags_sent c + (if 1 < count_list oks True then of_nat (count_list oks True) else 0)\<rparr>)" by blast
    note cnt = sent_counts [OF 3 all]
    show ?thesis using 3 cnt split_datagrams_bound [OF 3(1)] by (simp add: mp run all)
  qed
qed

text \<open>C38. The SOCKS5 UDP header: a datagram parses exactly when it starts with the header some
  well-formed destination is built into, and then the destination and the payload offset are that
  one and its length; building appends that header to the output.\<close>

theorem dst_parse_build:
  "dst_parse buf = Some (d, n) \<longleftrightarrow>
     dst_wf d \<and> n = fst (dst_build [] d) \<and> take n buf = snd (dst_build [] d)"
proof
  assume "dst_parse buf = Some (d, n)"
  from dst_parse_Some [OF this]
  show "dst_wf d \<and> n = fst (dst_build [] d) \<and> take n buf = snd (dst_build [] d)"
    by (metis append_Nil append_eq_conv_conj dst_build_eq fst_conv snd_conv)
next
  assume "dst_wf d \<and> n = fst (dst_build [] d) \<and> take n buf = snd (dst_build [] d)"
  then show "dst_parse buf = Some (d, n)"
    using dst_parse_wire [of d "drop n buf"] by (metis append_Nil append_take_drop_id dst_build_eq fst_conv snd_conv)
qed

end
