(* ===== verification/Ingress.thy ===== *)
theory Ingress
  imports Net_Types Wire_Frames
begin

text \<open>
  The ingress parsers of \<^verbatim>\<open>crates/mq-proxy/src/ingress\<close>: the parser result and the input cap
  (\<^verbatim>\<open>request.rs\<close>), SOCKS5 (\<^verbatim>\<open>socks5.rs\<close>), HTTP CONNECT (\<^verbatim>\<open>http_connect.rs\<close>) and transparent
  capture (\<^verbatim>\<open>transparent.rs\<close>), with the replies each protocol writes.

  The locale \<open>ingress_parser\<close> is the contract between a parser and the accept loop that feeds it a
  growing buffer: bounded demand, consumption inside the buffer, and decisions that later bytes do
  not change. Both phases of the SOCKS5 parser and the CONNECT parser are interpretations of it.
\<close>

section \<open>The parser result, \<open>request.rs\<close>\<close>

definition INGRESS_CAP :: nat where "INGRESS_CAP = 8192"

datatype progress =
    Need
  | Done nat target
  | Associate nat
  | Reply nat bytes bool
  | Close

definition capped :: "bytes \<Rightarrow> (bytes \<Rightarrow> progress) \<Rightarrow> progress" where
  "capped buf parse =
     (case parse (take (min (length buf) INGRESS_CAP) buf) of
        Need \<Rightarrow> if INGRESS_CAP \<le> length buf then Close else Need
      | p \<Rightarrow> p)"

section \<open>SOCKS5, \<open>socks5.rs\<close>\<close>

definition SOCKS_VER :: u8 where "SOCKS_VER = 0x05"
definition CMD_CONNECT :: u8 where "CMD_CONNECT = 0x01"
definition CMD_ASSOCIATE :: u8 where "CMD_ASSOCIATE = 0x03"
definition METHOD_NOAUTH :: u8 where "METHOD_NOAUTH = 0x00"

lemmas socks_consts = SOCKS_VER_def CMD_CONNECT_def CMD_ASSOCIATE_def METHOD_NOAUTH_def

definition socks5_reply :: "u8 \<Rightarrow> bytes" where
  "socks5_reply rep = [SOCKS_VER, rep, 0x00, 0x01, 0, 0, 0, 0, 0, 0]"

definition METHOD_OK :: bytes where "METHOD_OK = [SOCKS_VER, 0x00]"
definition METHOD_NONE :: bytes where "METHOD_NONE = [SOCKS_VER, 0xFF]"
definition REP_CMD_UNSUPPORTED :: bytes where "REP_CMD_UNSUPPORTED = socks5_reply 0x07"
definition REP_ATYP_UNSUPPORTED :: bytes where "REP_ATYP_UNSUPPORTED = socks5_reply 0x08"

text \<open>\<open>greeting\<close> returns its result and the new value of \<open>greeted\<close>.\<close>

definition socks5_greeting :: "bytes \<Rightarrow> bool \<Rightarrow> progress \<times> bool" where
  "socks5_greeting b greeted =
     (if length b < 2 then (Need, greeted)
      else if b ! 0 \<noteq> SOCKS_VER then (Close, greeted)
      else let total = 2 + unat (b ! 1) in
        if length b < total then (Need, greeted)
        else if METHOD_NOAUTH \<notin> set (take (total - 2) (drop 2 b)) then (Reply 0 METHOD_NONE True, greeted)
        else (Reply total METHOD_OK False, True))"

definition socks5_refuse :: "bytes \<Rightarrow> progress" where
  "socks5_refuse bs = Reply 0 bs True"

text \<open>The match of lines 96 to 104: where the address is, or the early return.\<close>

definition socks5_span :: "bytes \<Rightarrow> (nat \<times> nat, progress) result" where
  "socks5_span b =
     (if b ! 3 = 0x01 then Ok (4, 4)
      else if b ! 3 = 0x04 then Ok (4, 16)
      else if b ! 3 = 0x03 then (if 4 < length b then Ok (5, unat (b ! 4)) else Err Need)
      else Err (socks5_refuse REP_ATYP_UNSUPPORTED))"

text \<open>Lines 113 to 131: the target of a complete CONNECT request.\<close>

definition socks5_connect :: "bytes \<Rightarrow> nat \<Rightarrow> nat \<Rightarrow> nat \<Rightarrow> progress" where
  "socks5_connect b off len tot =
     (let addr = take len (drop off b);
          port = from_be [b ! (tot - 2), b ! (tot - 1)] :: u16
      in if b ! 3 = 0x01 then Done tot \<lparr>tgt_host = HostIp (IpV4 (from_be addr)), tgt_port = port\<rparr>
         else if b ! 3 = 0x04 then Done tot \<lparr>tgt_host = HostIp (IpV6 (from_be addr)), tgt_port = port\<rparr>
         else (case from_utf8 addr of
                 Some s \<Rightarrow> Done tot \<lparr>tgt_host = HostDomain s, tgt_port = port\<rparr>
               | None \<Rightarrow> socks5_refuse REP_ATYP_UNSUPPORTED))"

definition socks5_request :: "bytes \<Rightarrow> progress" where
  "socks5_request b =
     (if length b < 4 then Need
      else if b ! 0 \<noteq> SOCKS_VER then Close
      else if b ! 1 \<noteq> CMD_CONNECT \<and> b ! 1 \<noteq> CMD_ASSOCIATE then socks5_refuse REP_CMD_UNSUPPORTED
      else (case socks5_span b of
        Err p \<Rightarrow> p
      | Ok (off, len) \<Rightarrow>
          let total = off + len + 2 in
          if length b < total then Need
          else if b ! 1 = CMD_ASSOCIATE then Associate total
          else socks5_connect b off len total))"

record socks5_parser =
  sp_greeted :: bool

text \<open>The closure passed to \<open>capped\<close> writes \<open>greeted\<close>; it runs once, on the capped prefix.\<close>

definition socks5_feed :: "socks5_parser \<Rightarrow> bytes \<Rightarrow> progress \<times> socks5_parser" where
  "socks5_feed p buf =
     (let parse = (\<lambda>b. if sp_greeted p then (socks5_request b, sp_greeted p) else socks5_greeting b (sp_greeted p))
      in (capped buf (fst \<circ> parse),
          p\<lparr>sp_greeted := snd (parse (take (min (length buf) INGRESS_CAP) buf))\<rparr>))"

definition socks5_success_reply :: bytes where
  "socks5_success_reply = socks5_reply 0x00"

definition socks5_assoc_refused_reply :: bytes where
  "socks5_assoc_refused_reply = REP_CMD_UNSUPPORTED"

definition socks5_assoc_reply :: "socket_addr \<Rightarrow> bytes" where
  "socks5_assoc_reply bound =
     [SOCKS_VER, 0x00, 0x00]
     @ (case socket_addr_ip bound of
          IpV4 a \<Rightarrow> 0x01 # be_bytes 4 a
        | IpV6 a \<Rightarrow> 0x04 # be_bytes 16 a)
     @ be_bytes 2 (socket_addr_port bound)"

definition socks5_error_reply :: "tcp_err \<Rightarrow> bytes" where
  "socks5_error_reply e =
     socks5_reply (case e of
        TcpDnsFailed \<Rightarrow> 0x04 | TcpConnRefused \<Rightarrow> 0x05 | TcpTimeout \<Rightarrow> 0x06
      | TcpPolicyDenied \<Rightarrow> 0x02 | TcpOk \<Rightarrow> 0x01)"

section \<open>HTTP CONNECT, \<open>http_connect.rs\<close>\<close>

definition HTTP_MAX_HOST :: nat where "HTTP_MAX_HOST = 255"

definition R405 :: bytes where "R405 = ascii ''HTTP/1.1 405 Method Not Allowed'' @ CRLF @ CRLF"
definition R400 :: bytes where "R400 = ascii ''HTTP/1.1 400 Bad Request'' @ CRLF @ CRLF"

definition http_bad :: progress where
  "http_bad = Reply 0 R400 True"

definition parse_port :: "bytes \<Rightarrow> u16 option" where
  "parse_port t =
     (if t = [] \<or> 5 < length t \<or> \<not> list_all is_ascii_digit t then None
      else let v = foldl (\<lambda>v c. v * 10 + ucast (c - 0x30)) (0 :: u32) t in
        if 0xFFFF < v then None
        else let p = ucast v in if p = 0 then None else Some p)"

definition parse_host :: "bytes \<Rightarrow> host option" where
  "parse_host h =
     (case from_utf8 h of
        None \<Rightarrow> None
      | Some s \<Rightarrow>
          if s \<noteq> [] \<and> hd s = 0x5B then
            (let inner = tl s in
             if inner \<noteq> [] \<and> last inner = 0x5D
             then map_option (\<lambda>ip. HostIp (IpV6 ip)) (parse_ipv6 (butlast inner))
             else None)
          else if s = [] \<or> HTTP_MAX_HOST < length s then None
          else (case parse_ipv4 s of
                  Some ip \<Rightarrow> Some (HostIp (IpV4 ip))
                | None \<Rightarrow> Some (HostDomain s)))"

text \<open>Lines 42 to 77: what the request line says, \<open>hend\<close> being the end of the head.\<close>

definition http_request_line :: "bytes \<Rightarrow> nat \<Rightarrow> progress" where
  "http_request_line line hend =
     (case splitn 3 (\<lambda>c. c = 0x20) line of
        method # target # rest \<Rightarrow>
          if method = [] then http_bad
          else if method \<noteq> ascii ''CONNECT'' then Reply 0 R405 True
          else (case rest of
            [] \<Rightarrow> http_bad
          | version # _ \<Rightarrow>
              if target = [] \<or> take 5 version \<noteq> ascii ''HTTP/'' then http_bad
              else (case rposition (\<lambda>c. c = 0x3A) target of
                None \<Rightarrow> http_bad
              | Some colon \<Rightarrow>
                  (case parse_port (drop (colon + 1) target) of
                     None \<Rightarrow> http_bad
                   | Some port \<Rightarrow>
                       (case parse_host (take colon target) of
                          None \<Rightarrow> http_bad
                        | Some host \<Rightarrow> Done hend \<lparr>tgt_host = host, tgt_port = port\<rparr>))))
      | _ \<Rightarrow> http_bad)"

definition http_parse :: "bytes \<Rightarrow> progress" where
  "http_parse buf =
     (case window_position (CRLF @ CRLF) buf of
        None \<Rightarrow> Need
      | Some h \<Rightarrow>
          let line_end = (case window_position CRLF buf of Some i \<Rightarrow> i | None \<Rightarrow> 0) in
          http_request_line (take line_end buf) (h + 4))"

definition http_connect_feed :: "bytes \<Rightarrow> progress" where
  "http_connect_feed buf = capped buf http_parse"

definition http_success_reply :: bytes where
  "http_success_reply = ascii ''HTTP/1.1 200 Connection Established'' @ CRLF @ CRLF"

definition http_error_reply :: "tcp_err \<Rightarrow> bytes" where
  "http_error_reply e =
     (case e of
        TcpTimeout \<Rightarrow> ascii ''HTTP/1.1 504 Gateway Timeout''
      | TcpPolicyDenied \<Rightarrow> ascii ''HTTP/1.1 403 Forbidden''
      | _ \<Rightarrow> ascii ''HTTP/1.1 502 Bad Gateway'') @ CRLF @ CRLF"

section \<open>Transparent capture, \<open>transparent.rs\<close>\<close>

definition target_from_original_dst :: "accept_meta \<Rightarrow> target option" where
  "target_from_original_dst meta =
     (case am_original_dst meta of
        None \<Rightarrow> None
      | Some (SockV4 a p) \<Rightarrow> Some \<lparr>tgt_host = HostIp (IpV4 a), tgt_port = p\<rparr>
      | Some (SockV6 _ _ _ _) \<Rightarrow> None)"

section \<open>The contract of a parser\<close>

fun consumed :: "progress \<Rightarrow> nat" where
  "consumed (Done n _) = n"
| "consumed (Associate n) = n"
| "consumed (Reply n _ _) = n"
| "consumed Need = 0"
| "consumed Close = 0"

text \<open>A reader of a growing prefix, before the cap.\<close>

locale prefix_parser =
  fixes parse :: "bytes \<Rightarrow> progress"
  assumes parse_consumed: "consumed (parse b) \<le> length b"
    and parse_stable: "parse b \<noteq> Need \<Longrightarrow> parse (b @ xs) = parse b"

text \<open>The parser the accept loop calls.\<close>

locale ingress_parser =
  fixes feed :: "bytes \<Rightarrow> progress"
  assumes need_bound: "feed buf = Need \<Longrightarrow> length buf < INGRESS_CAP"
    and feed_consumed: "consumed (feed buf) \<le> min (length buf) INGRESS_CAP"
    and feed_stable: "feed buf \<noteq> Need \<Longrightarrow> feed (buf @ xs) = feed buf"

text \<open>
  The accept loop over the pieces a socket delivers: it buffers until the parser decides, and
  returns the decision with what was buffered then.
\<close>

fun drive :: "(bytes \<Rightarrow> progress) \<Rightarrow> bytes \<Rightarrow> bytes list \<Rightarrow> progress \<times> bytes" where
  "drive fd acc [] = (fd acc, acc)"
| "drive fd acc (c # cs) = (if fd acc = Need then drive fd (acc @ c) cs else (fd acc, acc))"

context ingress_parser
begin

lemma drive_any_chunking: "fst (drive feed acc cs) = feed (acc @ concat cs)"
proof (induction cs arbitrary: acc)
  case (Cons c cs)
  then show ?case using feed_stable [of acc "c @ concat cs"] by simp
qed simp

lemma drive_buffered_bounded:
  assumes "length acc < INGRESS_CAP + m" and "\<And>c. c \<in> set cs \<Longrightarrow> length c \<le> m"
  shows "length (snd (drive feed acc cs)) < INGRESS_CAP + m"
  using assms
proof (induction cs arbitrary: acc)
  case (Cons c cs)
  show ?case
  proof (cases "feed acc = Need")
    case True
    then have "length (acc @ c) < INGRESS_CAP + m"
      using need_bound Cons.prems(2) [of c] by fastforce
    with Cons True show ?thesis by simp
  qed (use Cons in simp)
qed simp

lemma decides_at_cap: "INGRESS_CAP \<le> length buf \<Longrightarrow> feed buf \<noteq> Need"
  using need_bound by fastforce

end

lemma capped_decided:
  "parse (take (min (length buf) INGRESS_CAP) buf) \<noteq> Need \<Longrightarrow>
   capped buf parse = parse (take (min (length buf) INGRESS_CAP) buf)"
  by (cases "parse (take (min (length buf) INGRESS_CAP) buf)") (simp_all add: capped_def)

sublocale prefix_parser \<subseteq> ingress_parser "\<lambda>buf. capped buf parse"
proof
  fix buf xs :: bytes
  let ?b = "take (min (length buf) INGRESS_CAP) buf"
  show "length buf < INGRESS_CAP" if "capped buf parse = Need"
    using that by (auto simp: capped_def split: progress.splits if_splits)
  show "consumed (capped buf parse) \<le> min (length buf) INGRESS_CAP"
    using parse_consumed [of ?b] by (auto simp: capped_def split: progress.splits)
  show "capped (buf @ xs) parse = capped buf parse" if dec: "capped buf parse \<noteq> Need"
  proof (cases "parse ?b = Need")
    case True
    with dec have "INGRESS_CAP \<le> length buf" by (auto simp: capped_def split: if_splits)
    then show ?thesis by (simp add: capped_def)
  next
    case False
    obtain ys where "take (min (length (buf @ xs)) INGRESS_CAP) (buf @ xs) = ?b @ ys"
    proof (cases "INGRESS_CAP \<le> length buf")
      case True
      then have "take (min (length (buf @ xs)) INGRESS_CAP) (buf @ xs) = ?b @ []" by simp
      then show ?thesis by (rule that)
    next
      case False
      then have "take (min (length (buf @ xs)) INGRESS_CAP) (buf @ xs) = ?b @ take (min (length buf + length xs) INGRESS_CAP - length buf) xs"
        by simp
      then show ?thesis by (rule that)
    qed
    then have "parse (take (min (length (buf @ xs)) INGRESS_CAP) (buf @ xs)) = parse ?b"
      using parse_stable [OF False] by simp
    then show ?thesis using capped_decided [of parse buf] capped_decided [of parse "buf @ xs"] False by argo
  qed
qed

section \<open>The parsers meet the contract\<close>

lemma drop_append_le: "n \<le> length xs \<Longrightarrow> drop n (xs @ ys) = drop n xs @ ys"
  by simp

interpretation greeting: prefix_parser "\<lambda>b. fst (socks5_greeting b g)"
proof
  fix b xs :: bytes
  show "consumed (fst (socks5_greeting b g)) \<le> length b"
    by (simp add: socks5_greeting_def Let_def)
  show "fst (socks5_greeting (b @ xs) g) = fst (socks5_greeting b g)" if "fst (socks5_greeting b g) \<noteq> Need"
  proof (cases "length b < 2 \<or> b ! 0 = SOCKS_VER \<and> length b < 2 + unat (b ! 1)")
    case True
    with that show ?thesis by (auto simp: socks5_greeting_def Let_def split: if_splits)
  next
    case False
    then have "(b @ xs) ! 0 = b ! 0" "(b @ xs) ! 1 = b ! 1"
      and "b ! 0 = SOCKS_VER \<Longrightarrow> take (unat (b ! 1)) (drop 2 (b @ xs)) = take (unat (b ! 1)) (drop 2 b)"
      by (auto simp: nth_append)
    with False show ?thesis by (auto simp: socks5_greeting_def Let_def simp del: drop_append take_append)
  qed
qed

lemma socks5_span_append:
  "4 \<le> length b \<Longrightarrow> socks5_span b \<noteq> Err Need \<Longrightarrow> socks5_span (b @ xs) = socks5_span b"
  by (auto simp: socks5_span_def nth_append split: if_splits)

lemma socks5_connect_append:
  assumes "off + len + 2 \<le> length b" and "3 < length b"
  shows "socks5_connect (b @ xs) off len (off + len + 2) = socks5_connect b off len (off + len + 2)"
proof -
  have "(b @ xs) ! 3 = b ! 3" "(b @ xs) ! (off + len) = b ! (off + len)"
    "(b @ xs) ! Suc (off + len) = b ! Suc (off + len)" "take len (drop off (b @ xs)) = take len (drop off b)"
    using assms by (simp_all add: nth_append)
  then show ?thesis by (simp add: socks5_connect_def Let_def del: drop_append take_append)
qed

lemma socks5_connect_consumed: "consumed (socks5_connect b off len tot) \<le> tot"
  by (simp add: socks5_connect_def Let_def socks5_refuse_def split: option.splits)

lemma socks5_span_consumed: "socks5_span b = Err p \<Longrightarrow> consumed p = 0"
  by (auto simp: socks5_span_def socks5_refuse_def split: if_splits)

interpretation request: prefix_parser socks5_request
proof
  fix b xs :: bytes
  show "consumed (socks5_request b) \<le> length b"
  proof (cases "socks5_span b")
    case (Err p)
    with socks5_span_consumed show ?thesis by (simp add: socks5_request_def socks5_refuse_def)
  next
    case (Ok r)
    obtain off len where r: "r = (off, len)" by fastforce
    show ?thesis using order_trans [OF socks5_connect_consumed [of b off len "off + len + 2"], of "length b"]
      by (simp add: socks5_request_def socks5_refuse_def Ok r Let_def)
  qed
  show "socks5_request (b @ xs) = socks5_request b" if "socks5_request b \<noteq> Need"
  proof (cases "length b < 4")
    case True
    with that show ?thesis by (simp add: socks5_request_def)
  next
    case False
    then have n: "(b @ xs) ! 0 = b ! 0" "(b @ xs) ! 1 = b ! 1" "(b @ xs) ! 3 = b ! 3"
      by (auto simp: nth_append)
    show ?thesis
    proof (cases "socks5_span b")
      case (Err p)
      with that False have "p \<noteq> Need \<or> b ! 0 \<noteq> SOCKS_VER \<or> b ! 1 \<noteq> CMD_CONNECT \<and> b ! 1 \<noteq> CMD_ASSOCIATE"
        by (auto simp: socks5_request_def)
      with False Err n socks5_span_append [of b xs] show ?thesis by (auto simp: socks5_request_def)
    next
      case (Ok r)
      obtain off len where r: "r = (off, len)" by fastforce
      have span: "socks5_span (b @ xs) = Ok (off, len)" using Ok r False socks5_span_append [of b xs] by simp
      show ?thesis
      proof (cases "b ! 0 = SOCKS_VER \<and> (b ! 1 = CMD_CONNECT \<or> b ! 1 = CMD_ASSOCIATE)")
        case True
        with that False have "off + len + 2 \<le> length b"
          by (auto simp: socks5_request_def Ok r Let_def split: if_splits)
        moreover from this have "socks5_connect (b @ xs) off len (off + len + 2) = socks5_connect b off len (off + len + 2)"
          by (intro socks5_connect_append) (use False in simp_all)
        ultimately show ?thesis
          using False n by (simp add: socks5_request_def Ok span r)
      next
        case wrong: False
        with False n show ?thesis by (auto simp: socks5_request_def)
      qed
    qed
  qed
qed

lemma crlf_before_head_end:
  assumes "window_position (CRLF @ CRLF) buf = Some h"
  shows "\<exists>i \<le> h. window_position CRLF buf = Some i"
proof (rule window_position_first)
  note b = window_position_bound [OF assms]
  then have "take 4 (drop h buf) = [13, 10, 13, 10]" by (simp add: CRLF_def numeral_eq_Suc)
  then have "take 2 (take 4 (drop h buf)) = [13, 10]" by simp
  then show "take (length CRLF) (drop h buf) = CRLF" by (simp add: CRLF_def numeral_eq_Suc)
  show "h < length buf" using b by (simp add: CRLF_def)
qed

lemma http_request_line_consumed: "consumed (http_request_line line hend) \<le> hend"
  by (simp add: http_request_line_def http_bad_def split: list.splits option.splits)

lemma http_request_line_decides: "http_request_line line hend \<noteq> Need"
  by (simp add: http_request_line_def http_bad_def split: list.splits option.splits)

interpretation http: prefix_parser http_parse
proof
  fix b xs :: bytes
  show "consumed (http_parse b) \<le> length b"
  proof (cases "window_position (CRLF @ CRLF) b")
    case (Some h)
    then have "h + 4 \<le> length b" using window_position_bound [OF Some] by (simp add: CRLF_def)
    with http_request_line_consumed show ?thesis by (auto simp: http_parse_def Some Let_def intro: order_trans)
  qed (simp add: http_parse_def)
  show "http_parse (b @ xs) = http_parse b" if dec: "http_parse b \<noteq> Need"
  proof (cases "window_position (CRLF @ CRLF) b")
    case (Some h)
    obtain i where i: "window_position CRLF b = Some i" and "i \<le> h" using crlf_before_head_end [OF Some] by blast
    then have "i \<le> length b" using window_position_bound [OF i] by simp
    with Some i show ?thesis
      by (simp add: http_parse_def window_position_append [OF Some] window_position_append [OF i])
  qed (use dec in \<open>simp add: http_parse_def\<close>)
qed

lemma socks5_feed_progress:
  "fst (socks5_feed p buf) =
     capped buf (if sp_greeted p then socks5_request else (\<lambda>b. fst (socks5_greeting b (sp_greeted p))))"
  by (simp add: socks5_feed_def Let_def comp_def if_distrib [of fst] cong: if_cong)

lemma socks5_feed_ingress: "ingress_parser (\<lambda>buf. fst (socks5_feed p buf))"
proof (cases "sp_greeted p")
  case True
  then show ?thesis using request.ingress_parser_axioms by (simp add: socks5_feed_progress)
next
  case False
  then show ?thesis using greeting.ingress_parser_axioms [of False] by (simp add: socks5_feed_progress)
qed

interpretation socks5: ingress_parser "\<lambda>buf. fst (socks5_feed p buf)"
  by (rule socks5_feed_ingress)

interpretation http_connect: ingress_parser http_connect_feed
proof -
  have "http_connect_feed = (\<lambda>buf. capped buf http_parse)" by (simp add: fun_eq_iff http_connect_feed_def)
  then show "ingress_parser http_connect_feed" using http.ingress_parser_axioms by simp
qed

section \<open>A SOCKS5 request on the wire\<close>

fun host_wire :: "host \<Rightarrow> bytes" where
  "host_wire (HostIp (IpV4 a)) = 0x01 # be_bytes 4 a"
| "host_wire (HostIp (IpV6 a)) = 0x04 # be_bytes 16 a"
| "host_wire (HostDomain s) = 0x03 # of_nat (length s) # s"

definition socks5_wire :: "target \<Rightarrow> bytes" where
  "socks5_wire t = [SOCKS_VER, CMD_CONNECT, 0] @ host_wire (tgt_host t) @ be_bytes 2 (tgt_port t)"

fun host_encodable :: "host \<Rightarrow> bool" where
  "host_encodable (HostIp _) = True"
| "host_encodable (HostDomain s) = (length s \<le> 255 \<and> utf8_valid s)"

lemma from_be_last_two:
  "xs = ys @ be_bytes 2 (p :: u16) \<Longrightarrow> n = length ys \<Longrightarrow> from_be [xs ! n, xs ! Suc n] = p"
proof -
  assume xs: "xs = ys @ be_bytes 2 p" "n = length ys"
  have "[xs ! n, xs ! Suc n] = be_bytes 2 p"
    by (rule nth_equalityI) (auto simp: xs nth_append less_Suc_eq)
  then show ?thesis using from_be_be_bytes [of 2 p] by (simp add: take_bit_word_eq_self)
qed

lemma from_be_be_bytes_full: "8 * n = LENGTH('a::len) \<Longrightarrow> from_be (be_bytes n (w :: 'a word)) = w"
  by (simp add: from_be_be_bytes take_bit_word_eq_self)

lemma socks5_request_wire:
  assumes "host_encodable (tgt_host t)"
  shows "socks5_request (socks5_wire t) = Done (length (socks5_wire t)) t"
proof -
  let ?b = "socks5_wire t"
  have b: "?b ! 0 = SOCKS_VER" "?b ! Suc 0 = CMD_CONNECT" "6 \<le> length ?b"
    by (cases "tgt_host t" rule: host_wire.cases; simp add: socks5_wire_def)+
  obtain off len where span: "socks5_span ?b = Ok (off, len)" and tot: "off + len + 2 = length ?b"
    and conn: "socks5_connect ?b off len (off + len + 2) = Done (length ?b) t"
  proof (cases "tgt_host t" rule: host_wire.cases)
    case (1 a)
    have "from_be [?b ! 8, ?b ! Suc 8] = tgt_port t"
      by (rule from_be_last_two [of _ "[SOCKS_VER, CMD_CONNECT, 0, 1] @ be_bytes 4 a"]) (simp_all add: socks5_wire_def 1)
    then show ?thesis
      by (intro that [of 4 4]) (simp_all add: socks5_span_def socks5_connect_def Let_def socks5_wire_def 1
          from_be_be_bytes_full)
  next
    case (2 a)
    have "from_be [?b ! 20, ?b ! Suc 20] = tgt_port t"
      by (rule from_be_last_two [of _ "[SOCKS_VER, CMD_CONNECT, 0, 4] @ be_bytes 16 a"]) (simp_all add: socks5_wire_def 2)
    then show ?thesis
      by (intro that [of 4 16]) (simp_all add: socks5_span_def socks5_connect_def Let_def socks5_wire_def 2
          from_be_be_bytes_full)
  next
    case (3 s)
    then have s: "length s \<le> 255" "utf8_valid s" using assms by simp_all
    then have n: "unat (of_nat (length s) :: u8) = length s" by (simp add: unat_of_nat)
    have "from_be [?b ! (5 + length s), ?b ! Suc (5 + length s)] = tgt_port t"
      by (rule from_be_last_two [of _ "[SOCKS_VER, CMD_CONNECT, 0, 3, of_nat (length s)] @ s"]) (simp_all add: socks5_wire_def 3)
    then show ?thesis
      by (intro that [of 5 "length s"]) (use s n in \<open>simp_all add: socks5_span_def socks5_connect_def Let_def socks5_wire_def 3
          from_utf8_def\<close>)
  qed
  have "CMD_CONNECT \<noteq> CMD_ASSOCIATE" by (simp add: socks_consts)
  then show ?thesis using b conn tot by (simp add: socks5_request_def span Let_def)
qed

lemma length_socks5_wire: "host_encodable (tgt_host t) \<Longrightarrow> length (socks5_wire t) \<le> 262"
  by (cases "tgt_host t" rule: host_wire.cases) (simp_all add: socks5_wire_def)

section \<open>A CONNECT request line\<close>

lemma parse_port_digits: "parse_port t = Some p \<Longrightarrow> p \<noteq> 0 \<and> list_all is_ascii_digit t"
  by (auto simp: parse_port_def Let_def split: if_splits)

definition connect_line :: "bytes \<Rightarrow> bytes \<Rightarrow> bytes" where
  "connect_line host port = ascii ''CONNECT'' @ 0x20 # (host @ 0x3A # port) @ 0x20 # ascii ''HTTP/1.1''"

lemma digits_no_sep: "list_all is_ascii_digit t \<Longrightarrow> 0x20 \<notin> set t \<and> 0x3A \<notin> set t \<and> 0x0D \<notin> set t"
  by (induction t) (auto simp: is_ascii_digit_def)

lemma http_request_line_connect:
  assumes "0x20 \<notin> set host" and "parse_host host = Some h" and "parse_port port = Some p"
  shows "http_request_line (connect_line host port) n = Done n \<lparr>tgt_host = h, tgt_port = p\<rparr>"
proof -
  note d = digits_no_sep [OF conjunct2 [OF parse_port_digits [OF assms(3)]]]
  have "0x20 \<notin> set (ascii ''CONNECT'')" by code_simp
  then have "splitn 3 (\<lambda>c. c = 0x20) (connect_line host port) = [ascii ''CONNECT'', host @ 0x3A # port, ascii ''HTTP/1.1'']"
    using assms(1) d splitn_sep [of "0x20" "ascii ''CONNECT''" 1 "(host @ 0x3A # port) @ 0x20 # ascii ''HTTP/1.1''"]
      splitn_sep [of "0x20" "host @ 0x3A # port" 0 "ascii ''HTTP/1.1''"]
    by (simp add: connect_line_def numeral_3_eq_3)
  moreover have "rposition (\<lambda>c. c = 0x3A) (host @ 0x3A # port) = Some (length host)"
    using d by (intro rposition_last) simp
  moreover have "take 5 (ascii ''HTTP/1.1'') = ascii ''HTTP/''" "ascii ''CONNECT'' \<noteq> []" by code_simp+
  ultimately show ?thesis using assms by (simp add: http_request_line_def)
qed

lemma http_request_line_Done:
  assumes "http_request_line line hend = Done n t"
  shows "n = hend \<and> tgt_port t \<noteq> 0 \<and> take 8 line = ascii ''CONNECT '' \<and> (\<exists>hs. parse_host hs = Some (tgt_host t))"
proof -
  from assms obtain meth tgt version rest where parts:
    "splitn 3 (\<lambda>c. c = 0x20) line = meth # tgt # version # rest" and m: "meth = ascii ''CONNECT''"
    by (auto simp: http_request_line_def http_bad_def split: list.splits if_splits)
  from assms have "n = hend \<and> tgt_port t \<noteq> 0 \<and> (\<exists>hs. parse_host hs = Some (tgt_host t))"
    by (auto simp: http_request_line_def http_bad_def parts split: if_splits option.splits dest: parse_port_digits)
  moreover have "take 8 line = ascii ''CONNECT ''"
  proof (cases "dropWhile (\<lambda>c. \<not> c = 0x20) line")
    case Nil
    then have "splitn 3 (\<lambda>c. c = 0x20) line = [line]" by (simp only: numeral_3_eq_3 splitn.simps list.case)
    then show ?thesis using parts by simp
  next
    case (Cons x ys)
    then have "takeWhile (\<lambda>c. \<not> c = 0x20) line = meth" and "x = 0x20"
      using parts by (auto simp: numeral_3_eq_3 dest: dropWhile_eq_Cons_conv [THEN iffD1])
    then have "line = ascii ''CONNECT'' @ 0x20 # ys"
      using takeWhile_dropWhile_id [of "\<lambda>c. \<not> c = 0x20" line] Cons m by simp
    moreover have "ascii ''CONNECT '' = ascii ''CONNECT'' @ [0x20]" "length (ascii ''CONNECT'') = 7" by code_simp+
    ultimately show ?thesis by simp
  qed
  ultimately show ?thesis by blast
qed

section \<open>Properties\<close>



text \<open>C29. A SOCKS5 CONNECT request for any target (an address, or a UTF-8 name of up to 255 bytes) is
  parsed back to that target, consuming exactly the request and leaving what follows.\<close>

theorem socks5_connect_roundtrip:
  assumes "host_encodable (tgt_host t)"
  shows "socks5_feed \<lparr>sp_greeted = True\<rparr> (socks5_wire t @ rest)
    = (Done (length (socks5_wire t)) t, \<lparr>sp_greeted = True\<rparr>)"
proof -
  have "capped (socks5_wire t) socks5_request = Done (length (socks5_wire t)) t"
    using socks5_request_wire [OF assms] length_socks5_wire [OF assms]
    by (simp add: capped_def INGRESS_CAP_def min_def)
  then have "fst (socks5_feed \<lparr>sp_greeted = True\<rparr> (socks5_wire t @ rest)) = Done (length (socks5_wire t)) t"
    using request.feed_stable [of "socks5_wire t" rest] by (simp add: socks5_feed_progress)
  moreover have "snd (socks5_feed \<lparr>sp_greeted = True\<rparr> (socks5_wire t @ rest)) = \<lparr>sp_greeted = True\<rparr>"
    by (simp add: socks5_feed_def)
  ultimately show ?thesis by (metis prod.collapse)
qed

theorem socks5_connect_roundtrip_witness:
  "socks5_feed \<lparr>sp_greeted = True\<rparr> (socks5_wire \<lparr>tgt_host = HostDomain (ascii ''a.b''), tgt_port = 443\<rparr> @ [22, 3])
   = (Done 10 \<lparr>tgt_host = HostDomain (ascii ''a.b''), tgt_port = 443\<rparr>, \<lparr>sp_greeted = True\<rparr>)"
proof -
  have "host_encodable (tgt_host \<lparr>tgt_host = HostDomain (ascii ''a.b''), tgt_port = 443\<rparr>)" by code_simp
  from socks5_connect_roundtrip [OF this, of "[22, 3]"] show ?thesis
    by (simp add: socks5_wire_def ascii_def)
qed

text \<open>An HTTP CONNECT request for a host the proxy understands and a port from 1 to 65535 is
  accepted with that target, consuming the head and nothing behind it.\<close>

theorem http_connect_accepts:
  assumes "0x20 \<notin> set host" and "0x0D \<notin> set host" and "parse_host host = Some h"
    and "parse_port port = Some p" and "length (connect_line host port) + 4 \<le> INGRESS_CAP"
  shows "http_connect_feed (connect_line host port @ CRLF @ CRLF @ rest)
    = Done (length (connect_line host port) + 4) \<lparr>tgt_host = h, tgt_port = p\<rparr>"
proof -
  let ?l = "connect_line host port"
  have "0x0D \<notin> set (ascii ''CONNECT'')" "0x0D \<notin> set (ascii ''HTTP/1.1'')" by code_simp+
  then have cr: "0x0D \<notin> set ?l"
    using assms(2) digits_no_sep [OF conjunct2 [OF parse_port_digits [OF assms(4)]]]
    by (simp add: connect_line_def)
  have w: "window_position (CRLF @ CRLF) (?l @ CRLF @ CRLF) = Some (length ?l)"
    "window_position CRLF (?l @ CRLF @ CRLF) = Some (length ?l)"
    using window_position_no_first [OF cr, of "[10, 13, 10]" "[]"] window_position_no_first [OF cr, of "[10]" CRLF]
    by (simp_all add: CRLF_def)
  have "http_parse (?l @ CRLF @ CRLF) = Done (length ?l + 4) \<lparr>tgt_host = h, tgt_port = p\<rparr>"
    using http_request_line_connect [OF assms(1,3,4)] by (simp add: http_parse_def w Let_def)
  moreover have "length (?l @ CRLF @ CRLF) = length ?l + 4" by (simp add: CRLF_def)
  ultimately have "http_connect_feed (?l @ CRLF @ CRLF) = Done (length ?l + 4) \<lparr>tgt_host = h, tgt_port = p\<rparr>"
    using assms(5) by (simp add: http_connect_feed_def capped_def min_def)
  then show ?thesis using http_connect.feed_stable [of "?l @ CRLF @ CRLF" rest] by simp
qed

theorem http_connect_accepts_witness:
  "http_connect_feed (connect_line (ascii ''a.b'') (ascii ''443'') @ CRLF @ CRLF @ [1])
   = Done (length (connect_line (ascii ''a.b'') (ascii ''443'')) + 4) \<lparr>tgt_host = HostDomain (ascii ''a.b''), tgt_port = 443\<rparr>"
proof -
  have "0x20 \<notin> set (ascii ''a.b'')" "0x0D \<notin> set (ascii ''a.b'')"
    "parse_host (ascii ''a.b'') = Some (HostDomain (ascii ''a.b''))" "parse_port (ascii ''443'') = Some 443" by code_simp+
  moreover have "length (connect_line (ascii ''a.b'') (ascii ''443'')) + 4 \<le> INGRESS_CAP"
    by (simp add: connect_line_def ascii_def INGRESS_CAP_def)
  ultimately show ?thesis by (rule http_connect_accepts)
qed

text \<open>C32. Whatever a CONNECT request contains, a target the parser hands on has a nonzero port and a
  host that a host parser accepted, the request line is a CONNECT, and what is consumed ends at the
  first blank line, inside the cap.\<close>

theorem http_connect_done_sound:
  assumes "http_connect_feed buf = Done n t"
  shows "tgt_port t \<noteq> 0 \<and> (\<exists>hs. parse_host hs = Some (tgt_host t)) \<and> take 8 buf = ascii ''CONNECT ''
    \<and> n \<le> min (length buf) INGRESS_CAP \<and> window_position (CRLF @ CRLF) buf = Some (n - 4) \<and> 4 \<le> n"
proof -
  let ?b = "take (min (length buf) INGRESS_CAP) buf"
  have dn: "http_parse ?b = Done n t"
    using assms by (auto simp: http_connect_feed_def capped_def split: progress.splits if_splits)
  then obtain h where h: "window_position (CRLF @ CRLF) ?b = Some h"
    by (auto simp: http_parse_def split: option.splits)
  obtain i where i: "window_position CRLF ?b = Some i" using crlf_before_head_end [OF h] by blast
  have line: "http_request_line (take i ?b) (h + 4) = Done n t" using dn by (simp add: http_parse_def h i)
  note sound = http_request_line_Done [OF line]
  have "length (take i ?b) \<ge> 8"
    using arg_cong [OF conjunct1 [OF conjunct2 [OF conjunct2 [OF sound]]], of length]
    by (simp add: ascii_def min_def split: if_splits)
  then have "take 8 (take i ?b) = take 8 buf" by (simp add: min_def split: if_splits)
  moreover have "window_position (CRLF @ CRLF) buf = Some h"
    using window_position_append [OF h, of "drop (min (length buf) INGRESS_CAP) buf"]
    by (simp only: append_take_drop_id)
  ultimately show ?thesis
    using sound http_connect.feed_consumed [of buf] assms by auto
qed

theorem http_connect_done_sound_witness:
  "http_connect_feed (ascii ''CONNECT [::1]:80 HTTP/1.0'' @ CRLF @ CRLF) = Done 29 \<lparr>tgt_host = HostIp (IpV6 1), tgt_port = 80\<rparr>
   \<and> take 8 (ascii ''CONNECT [::1]:80 HTTP/1.0'' @ CRLF @ CRLF) = ascii ''CONNECT ''"
proof -
  let ?b = "ascii ''CONNECT [::1]:80 HTTP/1.0'' @ CRLF @ CRLF"
  have "http_parse ?b = Done 29 \<lparr>tgt_host = HostIp (IpV6 1), tgt_port = 80\<rparr>" by code_simp
  moreover have "length ?b \<le> INGRESS_CAP" by (simp add: ascii_def CRLF_def INGRESS_CAP_def)
  ultimately have "http_connect_feed ?b = Done 29 \<lparr>tgt_host = HostIp (IpV6 1), tgt_port = 80\<rparr>"
    by (simp add: http_connect_feed_def capped_def min_absorb1)
  from http_connect_done_sound [OF this] this show ?thesis by blast
qed

end
