(* ===== verification/Http_Head.thy ===== *)
theory Http_Head
  imports Rust_Std
begin

text \<open>
  HTTP/1.1 request heads and the header limits, \<^verbatim>\<open>crates/mq-http/src/h1.rs\<close> and
  \<^verbatim>\<open>crates/mq-http/src/limits.rs\<close>: the incremental head parser with its limits and smuggling guards,
  the serializer with its splitting guard, and the running budget of a header section.

  The header loop of the source walks an index \<open>pos\<close> over the head; here it walks the slice
  \<open>head[pos..]\<close>, whose last two bytes are the blank line.
\<close>

section \<open>Limits, \<open>limits.rs\<close>\<close>

definition FIELD_MAX :: nat where "FIELD_MAX = 8192"
definition SECTION_MAX :: nat where "SECTION_MAX = 32768"
definition COUNT_MAX :: nat where "COUNT_MAX = 256"
definition TARGET_PATH_MAX :: nat where "TARGET_PATH_MAX = FIELD_MAX - 5"
definition METHOD_MAX :: nat where "METHOD_MAX = 32"

datatype overflow = Overflow

record section_budget =
  sb_count :: nat
  sb_size :: nat

definition section_budget_new :: section_budget where
  "section_budget_new = \<lparr>sb_count = 0, sb_size = 0\<rparr>"

definition section_budget_add :: "bytes \<Rightarrow> bytes \<Rightarrow> (section_budget, unit, overflow) est" where
  "section_budget_add name value b =
     (let field = length name + length value in
      if FIELD_MAX < field \<or> sb_count b = COUNT_MAX \<or> SECTION_MAX < sb_size b + field + 32
      then (Err Overflow, b)
      else (Ok (), \<lparr>sb_count = sb_count b + 1, sb_size = sb_size b + (field + 32)\<rparr>))"

section \<open>The request head, \<open>h1.rs\<close>\<close>

definition HEAD_MAX :: nat where "HEAD_MAX = 16 * 1024"
definition MAX_HEADERS :: nat where "MAX_HEADERS = 64"
definition H1_METHOD_MAX :: nat where "H1_METHOD_MAX = 15"
definition PATH_MAX :: nat where "PATH_MAX = 1023"

record h1_header =
  hh_name :: bytes
  hh_value :: bytes

record h1_head =
  hd_method :: bytes
  hd_target :: bytes
  hd_headers :: "h1_header list"
  hd_content_length :: "u64 option"
  hd_has_chunked_te :: bool

datatype h1_progress = H1Need | H1TooLarge | H1Bad | H1Done nat h1_head

definition is_tchar :: "u8 \<Rightarrow> bool" where
  "is_tchar c \<longleftrightarrow> is_ascii_alphanumeric c
     \<or> c \<in> {0x21, 0x23, 0x24, 0x25, 0x26, 0x27, 0x2A, 0x2B, 0x2D, 0x2E, 0x5E, 0x5F, 0x60, 0x7C, 0x7E}"

definition is_ows :: "u8 \<Rightarrow> bool" where
  "is_ows c \<longleftrightarrow> c = 0x20 \<or> c = 0x09"

definition trim_ows :: "bytes \<Rightarrow> bytes" where
  "trim_ows v = rev (dropWhile is_ows (rev (dropWhile is_ows v)))"

text \<open>\<open>checked_mul\<close> and \<open>checked_add\<close> on \<open>u64\<close>.\<close>

definition checked_mul64 :: "u64 \<Rightarrow> u64 \<Rightarrow> u64 option" where
  "checked_mul64 a b = (if uint a * uint b < 2 ^ 64 then Some (a * b) else None)"

definition checked_add64 :: "u64 \<Rightarrow> u64 \<Rightarrow> u64 option" where
  "checked_add64 a b = (if uint a + uint b < 2 ^ 64 then Some (a + b) else None)"

fun content_length_loop :: "bytes \<Rightarrow> u64 \<Rightarrow> u64 option" where
  "content_length_loop [] n = Some n"
| "content_length_loop (c # v) n =
     (if \<not> is_ascii_digit c then None
      else (case checked_mul64 n 10 of
              None \<Rightarrow> None
            | Some m \<Rightarrow>
                (case checked_add64 m (ucast (c - 0x30)) of
                   None \<Rightarrow> None
                 | Some n' \<Rightarrow> if 0x7FFFFFFFFFFFFFFF < n' then None else content_length_loop v n')))"

definition parse_content_length :: "bytes \<Rightarrow> u64 option" where
  "parse_content_length v = (if v = [] then None else content_length_loop v 0)"

definition te_lists_chunked :: "bytes \<Rightarrow> bool" where
  "te_lists_chunked v \<longleftrightarrow>
     list_ex (\<lambda>t. eq_ignore_ascii_case (trim_ows t) (ascii ''chunked'')) (slice_split (\<lambda>c. c = 0x2C) v)"

record head_acc =
  ha_headers :: "h1_header list"
  ha_content_length :: "u64 option"
  ha_has_chunked_te :: bool

text \<open>Lines 153 to 171: one header line.\<close>

definition header_line :: "bytes \<Rightarrow> head_acc \<Rightarrow> head_acc option" where
  "header_line hline a =
     (if MAX_HEADERS \<le> length (ha_headers a) then None
      else (case position (\<lambda>c. c = 0x3A) hline of
        None \<Rightarrow> None
      | Some colon \<Rightarrow>
          let name = take colon hline; raw = drop (colon + 1) hline in
          if name = [] \<or> \<not> list_all is_tchar name then None
          else if list_ex (\<lambda>c. c = 0 \<or> c = 0x0D) raw then None
          else
            let value = trim_ows raw;
                push = (\<lambda>a. a\<lparr>ha_headers := ha_headers a @ [\<lparr>hh_name = name, hh_value = value\<rparr>]\<rparr>)
            in if eq_ignore_ascii_case name (ascii ''content-length'') then
                 (if ha_content_length a \<noteq> None then None
                  else (case parse_content_length value of
                          None \<Rightarrow> None
                        | Some n \<Rightarrow> Some (push (a\<lparr>ha_content_length := Some n\<rparr>))))
               else if eq_ignore_ascii_case name (ascii ''transfer-encoding'') \<and> te_lists_chunked value
               then Some (push (a\<lparr>ha_has_chunked_te := True\<rparr>))
               else Some (push a)))"

text \<open>The loop of lines 144 to 173, on the rest of the head.\<close>

function header_loop :: "bytes \<Rightarrow> head_acc \<Rightarrow> head_acc option" where
  "header_loop rest a =
     (if length rest \<le> 2 then Some a
      else if is_ows (rest ! 0) then None
      else (case window_position CRLF rest of
              None \<Rightarrow> None
            | Some le \<Rightarrow>
                (case header_line (take le rest) a of
                   None \<Rightarrow> None
                 | Some a' \<Rightarrow> header_loop (drop (le + 2) rest) a')))"
  by auto
termination by (relation "measure (\<lambda>(rest, a). length rest)") auto

declare header_loop.simps [simp del]

text \<open>Lines 118 to 137: the request line.\<close>

definition request_line :: "bytes \<Rightarrow> (bytes \<times> bytes) option" where
  "request_line line =
     (case position (\<lambda>c. c = 0x20) line of
        None \<Rightarrow> None
      | Some m_end \<Rightarrow>
          let meth = take m_end line; rest = drop (m_end + 1) line in
          if meth = [] \<or> H1_METHOD_MAX < length meth \<or> \<not> list_all is_tchar meth then None
          else (case position (\<lambda>c. c = 0x20) rest of
            None \<Rightarrow> None
          | Some t_end \<Rightarrow>
              let tgt = take t_end rest in
              if tgt = [] \<or> hd tgt \<noteq> 0x2F \<or> PATH_MAX < length tgt then None
              else if list_ex (\<lambda>c. c < 0x20 \<or> c = 0x7F) tgt then None
              else if \<not> starts_with (drop (t_end + 1) rest) (ascii ''HTTP/'') then None
              else Some (meth, tgt)))"

definition parse_complete :: "bytes \<Rightarrow> h1_head option" where
  "parse_complete head =
     (case window_position CRLF head of
        None \<Rightarrow> None
      | Some line_end \<Rightarrow>
          (case request_line (take line_end head) of
             None \<Rightarrow> None
           | Some (meth, tgt) \<Rightarrow>
               (case header_loop (drop (line_end + 2) head)
                       \<lparr>ha_headers = [], ha_content_length = None, ha_has_chunked_te = False\<rparr> of
                  None \<Rightarrow> None
                | Some a \<Rightarrow>
                    Some \<lparr>hd_method = meth, hd_target = tgt, hd_headers = ha_headers a,
                          hd_content_length = ha_content_length a,
                          hd_has_chunked_te = ha_has_chunked_te a\<rparr>)))"

definition parse_head :: "bytes \<Rightarrow> h1_progress" where
  "parse_head buf =
     (case window_position (CRLF @ CRLF) buf of
        None \<Rightarrow> if HEAD_MAX \<le> length buf then H1TooLarge else H1Need
      | Some p \<Rightarrow>
          let hend = p + 4 in
          if HEAD_MAX < hend then H1TooLarge
          else (case parse_complete (take hend buf) of
                  Some h \<Rightarrow> H1Done hend h
                | None \<Rightarrow> H1Bad))"

section \<open>The serializer, \<open>h1.rs\<close>\<close>

definition write_status :: "bytes \<Rightarrow> u16 \<Rightarrow> bytes \<Rightarrow> bytes" where
  "write_status out code reason =
     out @ ascii ''HTTP/1.1 '' @ fmt_dec (unat code) @ [0x20] @ reason @ CRLF"

datatype bad_header_bytes = BadHeaderBytes

definition write_header :: "bytes \<Rightarrow> bytes \<Rightarrow> (bytes, unit, bad_header_bytes) est" where
  "write_header name value out =
     (if list_ex (\<lambda>c. c = 0x0D \<or> c = 0x0A \<or> c = 0) (name @ value) then (Err BadHeaderBytes, out)
      else (Ok (), out @ name @ [0x3A, 0x20] @ value @ CRLF))"

definition chunk_frame :: "bytes \<Rightarrow> bytes \<Rightarrow> bytes" where
  "chunk_frame out data = out @ fmt_hex (length data) @ CRLF @ data @ CRLF"

definition chunk_end :: "bytes \<Rightarrow> bytes" where
  "chunk_end out = out @ [0x30] @ CRLF @ CRLF"

definition h1_error_reply :: "u16 \<Rightarrow> bytes \<Rightarrow> bytes option \<Rightarrow> bytes" where
  "h1_error_reply code reason xmq =
     (let o1 = write_status [] code reason;
          o2 = snd (write_header (ascii ''Connection'') (ascii ''close'') o1);
          o3 = snd (write_header (ascii ''Content-Length'') (ascii ''0'') o2);
          o4 = (case xmq of Some x \<Rightarrow> snd (write_header (ascii ''X-Mq-Error'') x o3) | None \<Rightarrow> o3)
      in o4 @ CRLF)"

section \<open>The header section budget\<close>

fun section_fields :: "section_budget \<Rightarrow> (bytes \<times> bytes) list \<Rightarrow> (unit, overflow) result \<times> section_budget" where
  "section_fields b [] = (Ok (), b)"
| "section_fields b ((n, v) # fs) = est_bind (section_budget_add n v) (\<lambda>_ b. section_fields b fs) b"

definition field_cost :: "bytes \<times> bytes \<Rightarrow> nat" where
  "field_cost f = length (fst f) + length (snd f) + 32"

lemma section_fields_Ok:
  "fst (section_fields b fs) = Ok () \<Longrightarrow> sb_count b \<le> COUNT_MAX \<Longrightarrow> sb_size b \<le> SECTION_MAX \<Longrightarrow>
   sb_count (snd (section_fields b fs)) = sb_count b + length fs
   \<and> sb_size (snd (section_fields b fs)) = sb_size b + sum_list (map field_cost fs)
   \<and> sb_count b + length fs \<le> COUNT_MAX \<and> sb_size b + sum_list (map field_cost fs) \<le> SECTION_MAX
   \<and> list_all (\<lambda>(n, v). length n + length v \<le> FIELD_MAX) fs"
proof (induction fs arbitrary: b)
  case (Cons f fs)
  obtain n v where f: "f = (n, v)" by fastforce
  from Cons.prems(1) have ok: "\<not> FIELD_MAX < length n + length v" "sb_count b \<noteq> COUNT_MAX"
      "\<not> SECTION_MAX < sb_size b + (length n + length v) + 32"
    by (auto simp: f est_bind_def section_budget_add_def Let_def split: if_splits)
  let ?b = "\<lparr>sb_count = sb_count b + 1, sb_size = sb_size b + ((length n + length v) + 32)\<rparr>"
  have step: "section_fields b (f # fs) = section_fields ?b fs"
    using ok by (simp add: f est_bind_def section_budget_add_def Let_def)
  have "fst (section_fields ?b fs) = Ok ()" using Cons.prems(1) step by simp
  from Cons.IH [OF this] ok Cons.prems(2) show ?case
    unfolding step by (simp add: f field_cost_def not_less)
qed simp

lemma section_fields_iff:
  assumes "sb_count b + length fs \<le> COUNT_MAX" and "sb_size b + sum_list (map field_cost fs) \<le> SECTION_MAX"
    and "list_all (\<lambda>(n, v). length n + length v \<le> FIELD_MAX) fs"
  shows "fst (section_fields b fs) = Ok ()"
  using assms
proof (induction fs arbitrary: b)
  case (Cons f fs)
  obtain n v where f: "f = (n, v)" by fastforce
  from Cons.prems show ?case
    using Cons.IH [of "\<lparr>sb_count = sb_count b + 1, sb_size = sb_size b + ((length n + length v) + 32)\<rparr>"]
    by (simp add: f field_cost_def est_bind_def section_budget_add_def Let_def)
qed simp

section \<open>Decimal values\<close>

definition dec_value :: "int \<Rightarrow> bytes \<Rightarrow> int" where
  "dec_value a v = foldl (\<lambda>a c. a * 10 + (uint c - 0x30)) a v"

lemma dec_value_simps [simp]:
  "dec_value a [] = a" "dec_value a (c # v) = dec_value (a * 10 + (uint c - 0x30)) v"
  by (simp_all add: dec_value_def)

lemma digit_value:
  assumes "is_ascii_digit c"
  shows "0 \<le> uint c - 0x30" "uint c - 0x30 \<le> 9" "uint (ucast (c - 0x30) :: u64) = uint c - 0x30"
    "uint (ucast (c - 0x30) :: u32) = uint c - 0x30"
proof -
  have b: "0x30 \<le> uint c" "uint c \<le> 0x39" using assms by (simp_all add: is_ascii_digit_def word_le_def)
  then have "uint (c - 0x30) = uint c - 0x30" by (simp add: uint_sub_if')
  then show "uint (ucast (c - 0x30) :: u64) = uint c - 0x30" "uint (ucast (c - 0x30) :: u32) = uint c - 0x30"
    using b by (simp_all add: unsigned_ucast_eq take_bit_eq_mod)
  show "0 \<le> uint c - 0x30" "uint c - 0x30 \<le> 9" using b by auto
qed

lemma dec_value_mono: "0 \<le> a \<Longrightarrow> list_all is_ascii_digit v \<Longrightarrow> a \<le> dec_value a v"
proof (induction v arbitrary: a)
  case (Cons c v)
  then have le: "a \<le> a * 10 + (uint c - 0x30)" and pos: "0 \<le> a * 10 + (uint c - 0x30)"
    using digit_value(1) [of c] by auto
  have "a * 10 + (uint c - 0x30) \<le> dec_value (a * 10 + (uint c - 0x30)) v"
    using Cons.IH [OF pos] Cons.prems by simp
  with le show ?case by (simp only: dec_value_simps)
qed simp

lemma content_length_loop_eq:
  "uint n \<le> 0x7FFFFFFFFFFFFFFF \<Longrightarrow>
   content_length_loop v n =
     (if list_all is_ascii_digit v \<and> dec_value (uint n) v \<le> 0x7FFFFFFFFFFFFFFF
      then Some (word_of_int (dec_value (uint n) v)) else None)"
proof (induction v arbitrary: n)
  case (Cons c v)
  show ?case
  proof (cases "is_ascii_digit c")
    case True
    note d = digit_value [OF True]
    let ?m = "uint n * 10 + (uint c - 0x30)"
    show ?thesis
    proof (cases "?m \<le> 0x7FFFFFFFFFFFFFFF")
      case small: True
      have "uint n * uint (10 :: u64) < 2 ^ LENGTH(64)" using small d by simp
      then have mul: "checked_mul64 n 10 = Some (n * 10)" and mul_v: "uint (n * 10) = uint n * 10"
        using uint_mult_lem [of n 10] by (simp_all add: checked_mul64_def)
      have "uint (n * 10) + uint (ucast (c - 0x30) :: u64) < 2 ^ LENGTH(64)" using small d mul_v by simp
      then have add: "checked_add64 (n * 10) (ucast (c - 0x30)) = Some (n * 10 + ucast (c - 0x30))"
        and add_v: "uint (n * 10 + ucast (c - 0x30)) = ?m"
        using uint_add_lem [of "n * 10" "ucast (c - 0x30) :: u64"] d mul_v by (simp_all add: checked_add64_def)
      have "\<not> 0x7FFFFFFFFFFFFFFF < n * 10 + ucast (c - 0x30)"
        using small by (simp add: word_less_def add_v)
      then show ?thesis using True Cons.IH [of "n * 10 + ucast (c - 0x30)"] small
        by (simp add: mul add add_v)
    next
      case False
      have "checked_mul64 n 10 = Some m \<Longrightarrow> checked_add64 m (ucast (c - 0x30)) = Some k \<Longrightarrow> uint k = ?m" for m k
        using d uint_mult_lem [of n 10] uint_add_lem [of m "ucast (c - 0x30) :: u64"]
        by (auto simp: checked_mul64_def checked_add64_def split: if_splits)
      with False True have "content_length_loop (c # v) n = None"
        by (auto simp: word_less_def split: option.splits)
      moreover have "list_all is_ascii_digit v \<Longrightarrow> \<not> dec_value ?m v \<le> 0x7FFFFFFFFFFFFFFF"
        using dec_value_mono [of ?m v] False d by (simp add: unsigned_greater_eq)
      ultimately show ?thesis by auto
    qed
  qed simp
qed simp

lemma parse_content_length_eq:
  "parse_content_length v =
     (if v \<noteq> [] \<and> list_all is_ascii_digit v \<and> dec_value 0 v \<le> 0x7FFFFFFFFFFFFFFF
      then Some (word_of_int (dec_value 0 v)) else None)"
  by (simp add: parse_content_length_def content_length_loop_eq)

section \<open>What the header loop accepts\<close>

definition trimmed :: "bytes \<Rightarrow> bool" where
  "trimmed v \<longleftrightarrow> v = [] \<or> \<not> is_ows (hd v) \<and> \<not> is_ows (last v)"

definition is_cl :: "h1_header \<Rightarrow> bool" where
  "is_cl h \<longleftrightarrow> eq_ignore_ascii_case (hh_name h) (ascii ''content-length'')"

definition is_chunked_te :: "h1_header \<Rightarrow> bool" where
  "is_chunked_te h \<longleftrightarrow> \<not> is_cl h \<and> eq_ignore_ascii_case (hh_name h) (ascii ''transfer-encoding'')
     \<and> te_lists_chunked (hh_value h)"

definition header_ok :: "h1_header \<Rightarrow> bool" where
  "header_ok h \<longleftrightarrow> hh_name h \<noteq> [] \<and> list_all is_tchar (hh_name h) \<and> trimmed (hh_value h)
     \<and> 0 \<notin> set (hh_value h) \<and> 0x0D \<notin> set (hh_value h)"

text \<open>The framing of a head is that of its header list: at most one length, which parses.\<close>

definition framing_ok :: "h1_header list \<Rightarrow> u64 option \<Rightarrow> bool \<Rightarrow> bool" where
  "framing_ok hs cl te \<longleftrightarrow>
     map (\<lambda>h. parse_content_length (hh_value h)) (filter is_cl hs) = (case cl of None \<Rightarrow> [] | Some n \<Rightarrow> [Some n])
     \<and> te = list_ex is_chunked_te hs"

definition acc_ok :: "head_acc \<Rightarrow> bool" where
  "acc_ok a \<longleftrightarrow> length (ha_headers a) \<le> MAX_HEADERS \<and> list_all header_ok (ha_headers a)
     \<and> framing_ok (ha_headers a) (ha_content_length a) (ha_has_chunked_te a)"

lemma trimmed_trim_ows: "trimmed (trim_ows v)"
proof (cases "trim_ows v = []")
  case False
  define u where "u = rev (dropWhile is_ows v)"
  have ne: "dropWhile is_ows u \<noteq> []" and eq: "trim_ows v = rev (dropWhile is_ows u)"
    using False by (simp_all only: trim_ows_def u_def rev_is_Nil_conv not_False_eq_True)
  from ne have v: "u \<noteq> []" by (metis dropWhile.simps(1))
  then have w: "dropWhile is_ows v \<noteq> []" by (simp only: u_def rev_is_Nil_conv not_False_eq_True)
  have "last u = hd (dropWhile is_ows v)" using w by (simp only: u_def last_rev)
  with hd_dropWhile [OF w] have "\<not> is_ows (last u)" by simp
  moreover have "last (dropWhile is_ows u) = last u"
    using ne by (metis last_appendR takeWhile_dropWhile_id)
  ultimately show ?thesis
    using ne hd_dropWhile [OF ne] by (simp only: trimmed_def eq hd_rev last_rev rev_is_Nil_conv simp_thms)
qed (simp add: trimmed_def)

lemma set_trim_ows: "set (trim_ows v) \<subseteq> set v"
  using set_dropWhileD [of _ is_ows "rev (dropWhile is_ows v)"] set_dropWhileD [of _ is_ows v]
  by (auto simp: trim_ows_def)

lemma trim_ows_trimmed: "trimmed v \<Longrightarrow> trim_ows v = v"
proof (cases "v = []")
  case False
  assume "trimmed v"
  with False have "\<not> is_ows (hd v)" "\<not> is_ows (last v)" by (auto simp: trimmed_def)
  then have "dropWhile is_ows v = v" "dropWhile is_ows (rev v) = rev v"
    using False by (auto simp: dropWhile_eq_self_iff hd_rev)
  then show ?thesis by (simp add: trim_ows_def)
qed (simp add: trim_ows_def)

lemma trim_ows_Cons: "is_ows c \<Longrightarrow> trim_ows (c # v) = trim_ows v"
  by (simp add: trim_ows_def)

text \<open>The header a line stands for, and what accepting it does.\<close>

definition accept_header :: "h1_header \<Rightarrow> head_acc \<Rightarrow> head_acc" where
  "accept_header h a =
     \<lparr>ha_headers = ha_headers a @ [h],
      ha_content_length = (if is_cl h then parse_content_length (hh_value h) else ha_content_length a),
      ha_has_chunked_te = (ha_has_chunked_te a \<or> is_chunked_te h)\<rparr>"

lemma header_line_eq:
  "header_line hline a =
     (case position (\<lambda>c. c = 0x3A) hline of
        None \<Rightarrow> None
      | Some colon \<Rightarrow>
          let h = \<lparr>hh_name = take colon hline, hh_value = trim_ows (drop (colon + 1) hline)\<rparr> in
          if length (ha_headers a) < MAX_HEADERS \<and> take colon hline \<noteq> [] \<and> list_all is_tchar (take colon hline)
             \<and> \<not> list_ex (\<lambda>c. c = 0 \<or> c = 0x0D) (drop (colon + 1) hline)
             \<and> (is_cl h \<longrightarrow> ha_content_length a = None \<and> parse_content_length (hh_value h) \<noteq> None)
          then Some (accept_header h a) else None)"
proof (cases "position (\<lambda>c. c = 0x3A) hline")
  case (Some colon)
  show ?thesis
    unfolding header_line_def Some option.case Let_def
    by (auto simp: accept_header_def is_cl_def is_chunked_te_def not_le split: option.splits)
qed (auto simp: header_line_def)

lemma accept_header_ok:
  assumes "acc_ok a" and "length (ha_headers a) < MAX_HEADERS" and "header_ok h"
    and "is_cl h \<Longrightarrow> ha_content_length a = None \<and> parse_content_length (hh_value h) \<noteq> None"
  shows "acc_ok (accept_header h a)"
  using assms by (auto simp: acc_ok_def accept_header_def framing_ok_def)

lemma header_line_ok:
  assumes "acc_ok a" and "header_line hline a = Some a'"
  shows "acc_ok a'"
proof -
  obtain colon where c: "position (\<lambda>c. c = 0x3A) hline = Some colon"
    using assms(2) by (auto simp: header_line_eq split: option.splits)
  define h where "h = \<lparr>hh_name = take colon hline, hh_value = trim_ows (drop (colon + 1) hline)\<rparr>"
  have ok: "length (ha_headers a) < MAX_HEADERS" "take colon hline \<noteq> []" "list_all is_tchar (take colon hline)"
      "\<not> list_ex (\<lambda>c. c = 0 \<or> c = 0x0D) (drop (colon + 1) hline)"
      "is_cl h \<longrightarrow> ha_content_length a = None \<and> parse_content_length (hh_value h) \<noteq> None"
      and a': "a' = accept_header h a"
    using assms(2) unfolding header_line_eq c option.case Let_def h_def [symmetric]
    by (simp_all only: option.inject option.distinct split: if_splits) simp_all
  have "header_ok h"
    using ok(2-4) set_trim_ows [of "drop (colon + 1) hline"] trimmed_trim_ows
    by (auto simp: header_ok_def h_def list_ex_iff)
  with accept_header_ok [OF assms(1) ok(1)] ok(5) show ?thesis by (simp add: a')
qed

lemma header_loop_ok: "header_loop rest a = Some a' \<Longrightarrow> acc_ok a \<Longrightarrow> acc_ok a'"
proof (induction rest a arbitrary: a' rule: header_loop.induct)
  case (1 rest a)
  show ?case
  proof (cases "length rest \<le> 2")
    case True
    then show ?thesis using "1.prems" by (subst (asm) header_loop.simps) simp
  next
    case False
    with "1.prems"(1) obtain i a1 where i: "\<not> is_ows (rest ! 0)" "window_position CRLF rest = Some i"
      "header_line (take i rest) a = Some a1" "header_loop (drop (i + 2) rest) a1 = Some a'"
      by (subst (asm) header_loop.simps) (auto split: if_splits option.splits)
    show ?thesis
      using "1.IH" [OF False i(1-4)] header_line_ok [OF "1.prems"(2) i(3)] by blast
  qed
qed

lemma request_line_ok:
  assumes "request_line line = Some (m, t)"
  shows "m \<noteq> [] \<and> length m \<le> H1_METHOD_MAX \<and> list_all is_tchar m
    \<and> starts_with t [0x2F] \<and> length t \<le> PATH_MAX \<and> list_all (\<lambda>c. 0x20 < c \<and> c \<noteq> 0x7F) t"
proof -
  from assms obtain i where i: "position (\<lambda>c. c = 0x20) line = Some i"
    by (auto simp: request_line_def split: option.splits)
  define rest where "rest = drop (i + 1) line"
  from assms i obtain j where j: "position (\<lambda>c. c = 0x20) rest = Some j"
    by (auto simp: request_line_def Let_def rest_def split: option.splits if_splits)
  have m: "m = take i line" "m \<noteq> []" "length m \<le> H1_METHOD_MAX" "list_all is_tchar m"
    and t: "t = take j rest" "t \<noteq> []" "hd t = 0x2F" "length t \<le> PATH_MAX" "\<not> list_ex (\<lambda>c. c < 0x20 \<or> c = 0x7F) t"
    using assms j by (auto simp: request_line_def i Let_def rest_def not_less split: if_splits)
  have "list_all (\<lambda>c. c \<noteq> 0x20) t" using position_take [OF j] t(1) by simp
  with t(5) have "list_all (\<lambda>c. 0x20 < c \<and> c \<noteq> 0x7F) t"
    by (auto simp: list_all_iff list_ex_iff not_less order_less_le)
  moreover have "starts_with t [0x2F]" using t(2,3) by (cases t) (auto simp: starts_with_def)
  ultimately show ?thesis using m t by blast
qed

lemma parse_complete_ok:
  assumes "parse_complete b = Some h"
  shows "hd_method h \<noteq> [] \<and> length (hd_method h) \<le> H1_METHOD_MAX \<and> list_all is_tchar (hd_method h)
    \<and> starts_with (hd_target h) [0x2F] \<and> length (hd_target h) \<le> PATH_MAX
    \<and> list_all (\<lambda>c. 0x20 < c \<and> c \<noteq> 0x7F) (hd_target h)
    \<and> length (hd_headers h) \<le> MAX_HEADERS \<and> list_all header_ok (hd_headers h)
    \<and> framing_ok (hd_headers h) (hd_content_length h) (hd_has_chunked_te h)"
proof -
  let ?z = "\<lparr>ha_headers = [], ha_content_length = None, ha_has_chunked_te = False\<rparr>"
  from assms obtain i m t a where i: "window_position CRLF b = Some i" "request_line (take i b) = Some (m, t)"
    "header_loop (drop (i + 2) b) ?z = Some a"
    and h: "h = \<lparr>hd_method = m, hd_target = t, hd_headers = ha_headers a, hd_content_length = ha_content_length a,
      hd_has_chunked_te = ha_has_chunked_te a\<rparr>"
    by (auto simp: parse_complete_def split: option.splits)
  have "acc_ok ?z" by (simp add: acc_ok_def framing_ok_def)
  from header_loop_ok [OF i(3) this] request_line_ok [OF i(2)] show ?thesis
    by (simp add: h acc_ok_def)
qed

section \<open>Writing a head and reading it back\<close>

text \<open>The bytes of one header as \<open>write_header\<close> puts them, and of a whole request head.\<close>

definition header_bytes :: "h1_header \<Rightarrow> bytes" where
  "header_bytes h = snd (write_header (hh_name h) (hh_value h) [])"

definition head_bytes :: "bytes \<Rightarrow> bytes \<Rightarrow> h1_header list \<Rightarrow> bytes" where
  "head_bytes m t hs =
     m @ [0x20] @ t @ [0x20] @ ascii ''HTTP/1.1'' @ CRLF @ concat (map header_bytes hs) @ CRLF"

definition writable :: "h1_header \<Rightarrow> bool" where
  "writable h \<longleftrightarrow> header_ok h \<and> 0x0A \<notin> set (hh_value h)"

lemma tchar_not [simp]: "\<not> is_tchar 0x3A" "\<not> is_tchar 0x20" "\<not> is_tchar 0x0D" "\<not> is_tchar 0x0A" "\<not> is_tchar 0"
    "\<not> is_tchar 9"
  by (simp_all add: is_tchar_def is_ascii_alphanumeric_def is_ascii_digit_def)

lemma tchars_not:
  "list_all is_tchar n \<Longrightarrow> 0x3A \<notin> set n \<and> 0x20 \<notin> set n \<and> 0x0D \<notin> set n \<and> 0x0A \<notin> set n \<and> 0 \<notin> set n"
  using tchar_not unfolding list_all_iff by blast

lemma header_bytes_eq:
  assumes "writable h"
  shows "header_bytes h = (hh_name h @ [0x3A, 0x20] @ hh_value h) @ CRLF"
proof -
  have "\<not> list_ex (\<lambda>c. c = 0x0D \<or> c = 0x0A \<or> c = 0) (hh_name h @ hh_value h)"
    using assms tchars_not [of "hh_name h"] by (auto simp: writable_def header_ok_def list_ex_iff)
  then show ?thesis unfolding header_bytes_def write_header_def by simp
qed

lemma written_line_no_cr:
  assumes "writable h"
  shows "0x0D \<notin> set (hh_name h @ [0x3A, 0x20] @ hh_value h)"
  using assms tchars_not [of "hh_name h"] by (auto simp: writable_def header_ok_def)

lemma header_line_written:
  assumes "writable h" and "length (ha_headers a) < MAX_HEADERS"
    and "is_cl h \<Longrightarrow> ha_content_length a = None \<and> parse_content_length (hh_value h) \<noteq> None"
  shows "header_line (hh_name h @ [0x3A, 0x20] @ hh_value h) a = Some (accept_header h a)"
proof -
  have h: "hh_name h \<noteq> []" "list_all is_tchar (hh_name h)" "trimmed (hh_value h)" "0 \<notin> set (hh_value h)"
    "0x0D \<notin> set (hh_value h)" using assms(1) by (auto simp: writable_def header_ok_def)
  have "\<forall>x \<in> set (hh_name h). \<not> x = 0x3A" using tchars_not [OF h(2)] by blast
  then have pos: "position (\<lambda>c. c = 0x3A) (hh_name h @ [0x3A, 0x20] @ hh_value h) = Some (length (hh_name h))"
    using position_Cons_sep [of "hh_name h" "\<lambda>c. c = 0x3A" "0x3A" "0x20 # hh_value h"] by simp
  have tr: "trim_ows (0x20 # hh_value h) = hh_value h"
    by (simp add: trim_ows_Cons is_ows_def trim_ows_trimmed [OF h(3)])
  have nz: "\<not> list_ex (\<lambda>c. c = 0 \<or> c = 0x0D) (hh_value h)" using h(4,5) by (auto simp: list_ex_iff)
  have eta: "\<lparr>hh_name = hh_name h, hh_value = hh_value h\<rparr> = h" by simp
  show ?thesis
    unfolding header_line_eq pos option.case Let_def using assms(2,3) h(1,2) nz by (simp add: tr eta)
qed

fun accept_all :: "h1_header list \<Rightarrow> head_acc \<Rightarrow> head_acc" where
  "accept_all [] a = a"
| "accept_all (h # hs) a = accept_all hs (accept_header h a)"

definition cl_ok :: "h1_header list \<Rightarrow> u64 option \<Rightarrow> bool" where
  "cl_ok hs cl \<longleftrightarrow> length (filter is_cl hs) + (case cl of None \<Rightarrow> 0 | Some _ \<Rightarrow> 1) \<le> 1
     \<and> (\<forall>h \<in> set hs. is_cl h \<longrightarrow> parse_content_length (hh_value h) \<noteq> None)"

lemma header_loop_line:
  assumes "l = c # l'" and "\<not> is_ows c" and "0x0D \<notin> set l" and "header_line l a = Some a'"
  shows "header_loop (l @ CRLF @ r) a = header_loop r a'"
proof -
  have "window_position CRLF (l @ CRLF @ r) = Some (length l)"
    using window_position_no_first [OF assms(3), of "[10]" r] by (simp only: CRLF_def append.simps)
  moreover have "drop (length l + 2) (l @ CRLF @ r) = r" by (simp add: CRLF_def)
  moreover have "\<not> length (l @ CRLF @ r) \<le> 2" using assms(1) by (simp add: CRLF_def)
  moreover have "(l @ CRLF @ r) ! 0 = c" using assms(1) by simp
  moreover have "take (length l) (l @ CRLF @ r) = l" by simp
  ultimately show ?thesis using assms(2,4) by (subst header_loop.simps) (simp only: option.case if_False)
qed

lemma header_loop_written:
  assumes "list_all writable hs" and "length (ha_headers a) + length hs \<le> MAX_HEADERS"
    and "cl_ok hs (ha_content_length a)"
  shows "header_loop (concat (map header_bytes hs) @ CRLF) a = Some (accept_all hs a)"
  using assms
proof (induction hs arbitrary: a)
  case Nil
  show ?case by (subst header_loop.simps) (simp add: CRLF_def)
next
  case (Cons h hs)
  let ?l = "hh_name h @ [0x3A, 0x20] @ hh_value h" and ?r = "concat (map header_bytes hs) @ CRLF"
  have w: "writable h" using Cons.prems(1) by simp
  have eq: "concat (map header_bytes (h # hs)) @ CRLF = ?l @ CRLF @ ?r" by (simp add: header_bytes_eq [OF w])
  obtain c r where c: "?l = c # r" "is_tchar c" using w
    by (cases "hh_name h") (auto simp: writable_def header_ok_def)
  then have first: "\<not> is_ows c" using tchar_not(2,6) by (auto simp: is_ows_def)
  have cl: "is_cl h \<Longrightarrow> ha_content_length a = None \<and> parse_content_length (hh_value h) \<noteq> None"
    using Cons.prems(3) by (auto simp: cl_ok_def split: option.splits)
  have line: "header_line ?l a = Some (accept_header h a)"
    using header_line_written [OF w _ cl] Cons.prems(2) by simp
  have rest: "header_loop ?r (accept_header h a) = Some (accept_all hs (accept_header h a))"
    by (rule Cons.IH) (use Cons.prems in \<open>auto simp: accept_header_def cl_ok_def split: option.splits if_splits\<close>)
  show ?case
    unfolding eq accept_all.simps rest [symmetric]
    by (rule header_loop_line [OF c(1) first written_line_no_cr [OF w] line])
qed

lemma accept_all_eq:
  "ha_headers (accept_all hs a) = ha_headers a @ hs
   \<and> ha_has_chunked_te (accept_all hs a) = (ha_has_chunked_te a \<or> list_ex is_chunked_te hs)
   \<and> (filter is_cl hs = [] \<longrightarrow> ha_content_length (accept_all hs a) = ha_content_length a)
   \<and> (\<forall>h. filter is_cl hs = [h] \<longrightarrow> ha_content_length (accept_all hs a) = parse_content_length (hh_value h))"
  by (induction hs arbitrary: a) (auto simp: accept_header_def)

lemma framing_ok_cl:
  assumes "framing_ok hs cl te"
  shows "cl_ok hs None" and "ha_content_length (accept_all hs a) = (if cl = None then ha_content_length a else cl)"
    and "te = list_ex is_chunked_te hs"
proof -
  have te: "te = list_ex is_chunked_te hs" using assms by (simp add: framing_ok_def)
  show "te = list_ex is_chunked_te hs" by (rule te)
  have *: "filter is_cl hs = [] \<and> cl = None
    \<or> (\<exists>h. filter is_cl hs = [h] \<and> cl = parse_content_length (hh_value h) \<and> cl \<noteq> None)"
    using assms by (cases cl) (auto simp: framing_ok_def map_eq_Cons_conv)
  have "h \<in> set (filter is_cl hs)" if "h \<in> set hs" "is_cl h" for h using that by simp
  with * show "cl_ok hs None" by (fastforce simp: cl_ok_def)
  show "ha_content_length (accept_all hs a) = (if cl = None then ha_content_length a else cl)"
    using * accept_all_eq [of hs a] by auto
qed

lemma blank_line_position:
  assumes "0x0D \<notin> set l" and "list_all (\<lambda>l. l \<noteq> [] \<and> 0x0D \<notin> set l) ls"
  shows "window_position (CRLF @ CRLF) (l @ CRLF @ concat (map (\<lambda>l. l @ CRLF) ls) @ CRLF @ body)
    = Some (length l + length (concat (map (\<lambda>l. l @ CRLF) ls)))"
  using assms
proof (induction ls arbitrary: l)
  case Nil
  then show ?case using window_position_no_first [of 13 l "[10, 13, 10]" body] by (simp add: CRLF_def)
next
  case (Cons k ls)
  let ?r = "k @ CRLF @ concat (map (\<lambda>l. l @ CRLF) ls) @ CRLF @ body"
  from Cons.prems obtain c k' where k: "k = c # k'" "c \<noteq> 13" by (cases k) auto
  have "window_position (CRLF @ CRLF) (CRLF @ ?r) = map_option ((+) 2) (window_position (CRLF @ CRLF) ?r)"
    using k by (simp add: CRLF_def option.map_comp o_def)
  moreover have "window_position (CRLF @ CRLF) (l @ CRLF @ ?r)
      = map_option ((+) (length l)) (window_position (CRLF @ CRLF) (CRLF @ ?r))"
    using window_position_skip [OF Cons.prems(1), of "[10, 13, 10]" "CRLF @ ?r"] by (simp add: CRLF_def)
  ultimately show ?case using Cons.IH [of k] Cons.prems(2) by (simp add: CRLF_def)
qed

definition request_ok :: "bytes \<Rightarrow> bytes \<Rightarrow> bool" where
  "request_ok m t \<longleftrightarrow> m \<noteq> [] \<and> length m \<le> H1_METHOD_MAX \<and> list_all is_tchar m
     \<and> starts_with t [0x2F] \<and> length t \<le> PATH_MAX \<and> list_all (\<lambda>c. 0x20 < c \<and> c \<noteq> 0x7F) t"

lemma request_line_written:
  assumes "request_ok m t"
  shows "request_line (m @ [0x20] @ t @ [0x20] @ ascii ''HTTP/1.1'') = Some (m, t)"
    and "0x0D \<notin> set (m @ [0x20] @ t @ [0x20] @ ascii ''HTTP/1.1'')"
proof -
  have m: "m \<noteq> []" "length m \<le> H1_METHOD_MAX" "list_all is_tchar m"
    and t: "starts_with t [0x2F]" "length t \<le> PATH_MAX" "list_all (\<lambda>c. 0x20 < c \<and> c \<noteq> 0x7F) t"
    using assms by (auto simp: request_ok_def)
  have sp: "\<forall>x \<in> set m. \<not> x = 0x20" "\<forall>x \<in> set t. \<not> x = 0x20"
    using tchars_not [OF m(3)] t(3) by (auto simp: list_all_iff)
  have t': "t \<noteq> []" "hd t = 0x2F" using t(1) by (cases t; auto simp: starts_with_def)+
  have ctl: "\<not> list_ex (\<lambda>c. c < 0x20 \<or> c = 0x7F) t" using t(3) by (auto simp: list_ex_iff list_all_iff)
  have p1: "position (\<lambda>c. c = 0x20) (m @ 0x20 # t @ 0x20 # ascii ''HTTP/1.1'') = Some (length m)"
    and p2: "position (\<lambda>c. c = 0x20) (t @ 0x20 # ascii ''HTTP/1.1'') = Some (length t)"
    using position_Cons_sep [OF sp(1)] position_Cons_sep [OF sp(2)] by simp_all
  have v: "starts_with (ascii ''HTTP/1.1'') (ascii ''HTTP/'')" by (simp add: starts_with_def ascii_def)
  show "request_line (m @ [0x20] @ t @ [0x20] @ ascii ''HTTP/1.1'') = Some (m, t)"
    using m t(2) t' ctl v by (simp add: request_line_def p1 p2 Let_def)
  have "0x0D \<notin> set t" using t(3) by (auto simp: list_all_iff)
  with tchars_not [OF m(3)] show "0x0D \<notin> set (m @ [0x20] @ t @ [0x20] @ ascii ''HTTP/1.1'')"
    by (simp add: ascii_def)
qed

lemma head_bytes_lines:
  assumes "list_all writable hs"
  shows "head_bytes m t hs = (m @ [0x20] @ t @ [0x20] @ ascii ''HTTP/1.1'') @ CRLF
     @ concat (map (\<lambda>l. l @ CRLF) (map (\<lambda>h. hh_name h @ [0x3A, 0x20] @ hh_value h) hs)) @ CRLF"
proof -
  have "concat (map header_bytes hs)
      = concat (map (\<lambda>l. l @ CRLF) (map (\<lambda>h. hh_name h @ [0x3A, 0x20] @ hh_value h) hs))"
    using assms by (induction hs) (simp_all add: header_bytes_eq)
  then show ?thesis by (simp add: head_bytes_def)
qed

lemma parse_complete_written:
  assumes "request_ok m t" and "list_all writable hs" and "length hs \<le> MAX_HEADERS" and "framing_ok hs cl te"
  shows "parse_complete (head_bytes m t hs) = Some \<lparr>hd_method = m, hd_target = t, hd_headers = hs,
    hd_content_length = cl, hd_has_chunked_te = te\<rparr>"
proof -
  let ?l = "m @ [0x20] @ t @ [0x20] @ ascii ''HTTP/1.1''" and ?r = "concat (map header_bytes hs) @ CRLF"
  let ?z = "\<lparr>ha_headers = [], ha_content_length = None, ha_has_chunked_te = False\<rparr>"
  have eq: "head_bytes m t hs = ?l @ CRLF @ ?r" by (simp add: head_bytes_def)
  have "window_position CRLF (?l @ CRLF @ ?r) = Some (length ?l)"
    using window_position_no_first [OF request_line_written(2) [OF assms(1)], of "[10]" ?r]
    by (simp only: CRLF_def append.simps)
  moreover have "take (length ?l) (?l @ CRLF @ ?r) = ?l" by simp
  moreover have "drop (length ?l + 2) (?l @ CRLF @ ?r) = ?r" by (simp add: CRLF_def del: append_assoc)
  moreover have "header_loop ?r ?z = Some (accept_all hs ?z)"
    by (rule header_loop_written) (use assms framing_ok_cl(1) in auto)
  ultimately show ?thesis
    using accept_all_eq [of hs ?z] framing_ok_cl(2) [OF assms(4), of ?z] framing_ok_cl(3) [OF assms(4)]
    unfolding parse_complete_def eq by (simp only: option.case request_line_written(1) [OF assms(1)]) simp
qed

section \<open>Properties\<close>

lemma window_position_append_inv:
  assumes "window_position w (b @ xs) = Some p" and "p + length w \<le> length b" and "w \<noteq> []"
  shows "window_position w b = Some p"
proof -
  have "take (length w) (drop p b) = w"
    using window_position_bound [OF assms(1)] assms(2) by simp
  moreover have "p < length b" using assms(2,3) by (cases w) auto
  ultimately obtain j where j: "window_position w b = Some j" using window_position_first by blast
  from window_position_append [OF this, of xs] assms(1) j show ?thesis by simp
qed

text \<open>C9. Reading back: a request head written with \<open>write_header\<close> for every header is parsed to its
  method, target, headers and framing, however many body bytes follow, and consumption ends exactly
  at the end of the head. So no header value can end the head early or smuggle in another header.\<close>

theorem h1_roundtrip:
  assumes "request_ok m t" and "list_all writable hs" and "length hs \<le> MAX_HEADERS" and "framing_ok hs cl te"
    and "length (head_bytes m t hs) \<le> HEAD_MAX"
  shows "parse_head (head_bytes m t hs @ body) = H1Done (length (head_bytes m t hs))
    \<lparr>hd_method = m, hd_target = t, hd_headers = hs, hd_content_length = cl, hd_has_chunked_te = te\<rparr>"
proof -
  let ?ls = "map (\<lambda>h. hh_name h @ [0x3A, 0x20] @ hh_value h) hs"
  have ls: "list_all (\<lambda>l. l \<noteq> [] \<and> 0x0D \<notin> set l) ?ls"
    using assms(2) written_line_no_cr by (auto simp: list_all_iff)
  have "window_position (CRLF @ CRLF) (head_bytes m t hs @ body) = Some (length (head_bytes m t hs) - 4)"
    using blank_line_position [OF request_line_written(2) [OF assms(1)] ls, of body]
    unfolding head_bytes_lines [OF assms(2)] by (simp add: CRLF_def del: map_map)
  moreover have "length (head_bytes m t hs) - 4 + 4 = length (head_bytes m t hs)"
    by (simp add: head_bytes_def CRLF_def)
  ultimately show ?thesis
    using assms(5) parse_complete_written [OF assms(1-4)] by (simp add: parse_head_def Let_def not_less)
qed

theorem h1_roundtrip_witness:
  "parse_head (head_bytes (ascii ''POST'') (ascii ''/a?b'')
      [\<lparr>hh_name = ascii ''Host'', hh_value = ascii ''x''\<rparr>, \<lparr>hh_name = ascii ''Content-Length'', hh_value = ascii ''7''\<rparr>] @ [1, 2])
   = H1Done 50 \<lparr>hd_method = ascii ''POST'', hd_target = ascii ''/a?b'',
      hd_headers = [\<lparr>hh_name = ascii ''Host'', hh_value = ascii ''x''\<rparr>, \<lparr>hh_name = ascii ''Content-Length'', hh_value = ascii ''7''\<rparr>],
      hd_content_length = Some 7, hd_has_chunked_te = False\<rparr>"
proof -
  let ?hs = "[\<lparr>hh_name = ascii ''Host'', hh_value = ascii ''x''\<rparr>, \<lparr>hh_name = ascii ''Content-Length'', hh_value = ascii ''7''\<rparr>]"
  have 1: "request_ok (ascii ''POST'') (ascii ''/a?b'')"
    by (simp add: request_ok_def ascii_def starts_with_def is_tchar_def is_ascii_alphanumeric_def is_ascii_digit_def
        H1_METHOD_MAX_def PATH_MAX_def)
  have 2: "list_all writable ?hs" by code_simp
  have 3: "length ?hs \<le> MAX_HEADERS" by (simp add: MAX_HEADERS_def)
  have 4: "framing_ok ?hs (Some 7) False" by code_simp
  have 5: "length (head_bytes (ascii ''POST'') (ascii ''/a?b'') ?hs) = 50" by code_simp
  show ?thesis using h1_roundtrip [OF 1 2 3 4, of "[1, 2]"] by (simp add: 5 HEAD_MAX_def)
qed



text \<open>C34. Stability: once the parser has decided (accepted, refused or too large), more input does not
  change the answer, and it asks for more exactly while there is no blank line and the cap is not
  reached, so it never buffers \<open>HEAD_MAX\<close> bytes without deciding.\<close>

theorem h1_parse_stable:
  "(parse_head buf = H1Need \<longleftrightarrow> window_position (CRLF @ CRLF) buf = None \<and> length buf < HEAD_MAX)
   \<and> (parse_head buf \<noteq> H1Need \<longrightarrow> parse_head (buf @ more_in) = parse_head buf)"
proof (cases "window_position (CRLF @ CRLF) buf")
  case (Some p)
  then have "p + 4 \<le> length buf" using window_position_bound [OF Some] by (simp add: CRLF_def)
  then show ?thesis
    using window_position_append [OF Some, of more_in] Some
    by (auto simp: parse_head_def Let_def split: option.splits)
next
  case None
  have "p + 4 > length buf" if "window_position (CRLF @ CRLF) (buf @ more_in) = Some p" for p
    using window_position_append_inv [OF that] None by (force simp: CRLF_def)
  then have "HEAD_MAX \<le> length buf \<Longrightarrow> parse_head (buf @ more_in) = H1TooLarge"
    by (fastforce simp: parse_head_def Let_def split: option.splits)
  with None show ?thesis by (auto simp: parse_head_def)
qed

theorem h1_parse_stable_witness:
  "parse_head (ascii ''GET'' @ CRLF @ CRLF) = H1Bad \<and> parse_head (ascii ''GET'' @ CRLF @ CRLF @ ascii ''more'') = H1Bad"
proof -
  have "window_position (CRLF @ CRLF) (ascii ''GET'' @ CRLF @ CRLF) = Some 3"
    "parse_complete (take 7 (ascii ''GET'' @ CRLF @ CRLF)) = None" by code_simp+
  then have "parse_head (ascii ''GET'' @ CRLF @ CRLF) = H1Bad" by (simp add: parse_head_def Let_def HEAD_MAX_def)
  with h1_parse_stable [of "ascii ''GET'' @ CRLF @ CRLF" "ascii ''more''"] show ?thesis by simp
qed

text \<open>A header section is accepted exactly when it has at most \<open>COUNT_MAX\<close> fields, no field is longer than
  \<open>FIELD_MAX\<close>, and the sizes with 32 bytes per field sum to at most \<open>SECTION_MAX\<close>; the budget then
  records exactly the count and the size.\<close>

theorem section_budget_spec:
  "(fst (section_fields section_budget_new fs) = Ok () \<longleftrightarrow>
      length fs \<le> COUNT_MAX \<and> sum_list (map field_cost fs) \<le> SECTION_MAX
      \<and> list_all (\<lambda>(n, v). length n + length v \<le> FIELD_MAX) fs)
   \<and> (fst (section_fields section_budget_new fs) = Ok () \<longrightarrow>
      snd (section_fields section_budget_new fs)
        = \<lparr>sb_count = length fs, sb_size = sum_list (map field_cost fs)\<rparr>)"
  using section_fields_Ok [of section_budget_new fs] section_fields_iff [of section_budget_new fs]
  by (auto simp: section_budget_new_def)

theorem section_budget_spec_witness:
  "snd (section_fields section_budget_new [(ascii ''a'', ascii ''bc'')]) = \<lparr>sb_count = 1, sb_size = 35\<rparr>"
  using section_budget_spec [of "[(ascii ''a'', ascii ''bc'')]"]
  by (simp add: COUNT_MAX_def SECTION_MAX_def FIELD_MAX_def field_cost_def ascii_def)

end
