(* ===== verification/Http_Rules.thy ===== *)
theory Http_Rules
  imports Http_Head
begin

text \<open>
  The gateway's header rules, \<^verbatim>\<open>crates/mq-http/src/headers.rs\<close>: the target URL of a fetch and its
  canonical form, methods, versions and cache lifetimes, which headers are stripped on each leg, the
  duplicate control header check, the byte classes of names, values and URI fields, and the rejects.

  The authority scan walks the slice after the scheme; \<open>at0\<close> says whether it is at its first byte.
\<close>

section \<open>Targets\<close>

definition CACHE_TTL_MAX :: u32 where "CACHE_TTL_MAX = 31536000"
definition AUTHORITY_MAX :: nat where "AUTHORITY_MAX = 255"

record fetch_target =
  ft_scheme :: bytes
  ft_authority :: bytes
  ft_path :: bytes

definition forbidden_uri_byte :: "u8 \<Rightarrow> bool" where
  "forbidden_uri_byte c \<longleftrightarrow> c < 0x20 \<or> c = 0x7F \<or> c = 0x20"

definition has_prefix_ci :: "bytes \<Rightarrow> bytes \<Rightarrow> bool" where
  "has_prefix_ci n pfx \<longleftrightarrow> length pfx \<le> length n \<and> eq_ignore_ascii_case (take (length pfx) n) pfx"

definition is_xmq :: "bytes \<Rightarrow> bool" where
  "is_xmq n \<longleftrightarrow> has_prefix_ci n (ascii ''x-mq-'')"

fun authority_scan :: "bool \<Rightarrow> bool \<Rightarrow> bytes \<Rightarrow> (bytes \<times> bytes) option" where
  "authority_scan at0 in_brackets [] = Some ([], [])"
| "authority_scan at0 in_brackets (c # s) =
     (if c = 0x5B \<and> at0 then map_option (apfst ((#) c)) (authority_scan False True s)
      else if c = 0x5B then None
      else if c = 0x5D then map_option (apfst ((#) c)) (authority_scan False False s)
      else if (c = 0x2F \<or> c = 0x3F) \<and> \<not> in_brackets then Some ([], c # s)
      else map_option (apfst ((#) c)) (authority_scan False in_brackets s))"

text \<open>The host and port split of lines 72 to 96: where the scan for the last colon starts, and the checks.\<close>

definition host_scan_from :: "bytes \<Rightarrow> nat option" where
  "host_scan_from auth =
     (if auth ! 0 = 0x5B then
        (case position (\<lambda>c. c = 0x5D) (drop 1 auth) of
           None \<Rightarrow> None
         | Some p \<Rightarrow>
             let rb = 1 + p; scan_from = rb + 1 in
             if rb = 1 then None
             else if scan_from < length auth \<and> auth ! scan_from \<noteq> 0x3A then None
             else Some scan_from)
      else Some 0)"

definition host_port_ok :: "bytes \<Rightarrow> bool" where
  "host_port_ok auth =
     (case host_scan_from auth of
        None \<Rightarrow> False
      | Some scan_from \<Rightarrow>
          (case map_option (\<lambda>p. p + scan_from) (rposition (\<lambda>c. c = 0x3A) (drop scan_from auth)) of
             None \<Rightarrow> True
           | Some pc \<Rightarrow>
               let port = drop (pc + 1) auth in
               \<not> (port = [] \<or> \<not> list_all is_ascii_digit port \<or> pc = 0)
               \<and> \<not> (auth ! 0 \<noteq> 0x5B \<and> 0x3A \<in> set (take pc auth))))"

definition authority_bytes_ok :: "bytes \<Rightarrow> bool" where
  "authority_bytes_ok auth \<longleftrightarrow>
     list_all (\<lambda>c. \<not> (c = 0x40 \<or> c = 0x23 \<or> forbidden_uri_byte c \<or> c = 0x5D \<and> auth ! 0 \<noteq> 0x5B)) auth"

definition canonical_path :: "bytes \<Rightarrow> bytes" where
  "canonical_path rest = (case rest of [] \<Rightarrow> [0x2F] | c # _ \<Rightarrow> if c = 0x3F then 0x2F # rest else rest)"

definition target_scheme :: "bytes \<Rightarrow> (bytes \<times> nat) option" where
  "target_scheme s =
     (if starts_with s (ascii ''https://'') then Some (ascii ''https'', 8)
      else if starts_with s (ascii ''http://'') then Some (ascii ''http'', 7)
      else None)"

definition parse_target :: "bytes \<Rightarrow> fetch_target option" where
  "parse_target s =
     (case target_scheme s of
        None \<Rightarrow> None
      | Some (scheme, off) \<Rightarrow>
          (case authority_scan True False (drop off s) of
             None \<Rightarrow> None
           | Some (auth, rest) \<Rightarrow>
               if auth = [] \<or> AUTHORITY_MAX < length auth then None
               else if \<not> authority_bytes_ok auth then None
               else if \<not> host_port_ok auth then None
               else if list_ex (\<lambda>c. c = 0x23 \<or> forbidden_uri_byte c) rest then None
               else if TARGET_PATH_MAX < length (canonical_path rest) then None
               else Some \<lparr>ft_scheme = scheme, ft_authority = auth, ft_path = canonical_path rest\<rparr>))"

section \<open>Methods, versions and lifetimes\<close>

record http_method =
  m_bytes :: bytes
  m_len :: nat

definition method_as_bytes :: "http_method \<Rightarrow> bytes" where
  "method_as_bytes m = take (m_len m) (m_bytes m)"

definition parse_method :: "bytes \<Rightarrow> http_method option" where
  "parse_method s =
     (if s = [] \<or> METHOD_MAX < length s \<or> \<not> list_all is_tchar s then None
      else Some \<lparr>m_bytes = s @ replicate (METHOD_MAX - length s) 0, m_len = length s\<rparr>)"

definition parse_method_upper :: "bytes \<Rightarrow> http_method option" where
  "parse_method_upper s = parse_method (map to_ascii_uppercase s)"

definition is_head :: "http_method \<Rightarrow> bool" where
  "is_head m \<longleftrightarrow> method_as_bytes m = ascii ''HEAD''"

definition body_check_applies :: "http_method \<Rightarrow> u16 \<Rightarrow> bool" where
  "body_check_applies m status \<longleftrightarrow>
     \<not> is_head m \<and> \<not> (100 \<le> status \<and> status < 200) \<and> status \<noteq> 204 \<and> status \<noteq> 304"

datatype http_ver = VerDefault | VerH1 | VerH2 | VerH3

definition parse_http_ver :: "bytes \<Rightarrow> http_ver" where
  "parse_http_ver v =
     (if eq_ignore_ascii_case v (ascii ''h3'') then VerH3
      else if eq_ignore_ascii_case v (ascii ''h2'') then VerH2
      else if eq_ignore_ascii_case v (ascii ''h1'') then VerH1
      else VerDefault)"

fun cache_ttl_loop :: "bytes \<Rightarrow> u32 \<Rightarrow> u32" where
  "cache_ttl_loop [] n = n"
| "cache_ttl_loop (c # v) n =
     (if \<not> is_ascii_digit c then 0
      else let n' = n * 10 + ucast (c - 0x30) in if CACHE_TTL_MAX < n' then 0 else cache_ttl_loop v n')"

definition parse_cache_ttl :: "bytes \<Rightarrow> u32" where
  "parse_cache_ttl v = cache_ttl_loop v 0"

section \<open>Stripping and control headers\<close>

definition HOP :: "bytes list" where
  "HOP = map ascii [''connection'', ''keep-alive'', ''proxy-authenticate'', ''proxy-authorization'',
     ''proxy-connection'', ''te'', ''trailer'', ''transfer-encoding'', ''upgrade'']"

definition is_hop_by_hop :: "bytes \<Rightarrow> bool" where
  "is_hop_by_hop name \<longleftrightarrow> list_ex (\<lambda>h. eq_ignore_ascii_case name h) HOP"

definition strip_client :: "bytes \<Rightarrow> bool \<Rightarrow> bool" where
  "strip_client name forward_cookie \<longleftrightarrow>
     is_hop_by_hop name \<or> is_xmq name \<or> eq_ignore_ascii_case name (ascii ''host'')
     \<or> eq_ignore_ascii_case name (ascii ''content-length'')
     \<or> \<not> forward_cookie \<and> eq_ignore_ascii_case name (ascii ''cookie'')"

definition strip_server :: "bytes \<Rightarrow> bool" where
  "strip_server name \<longleftrightarrow> is_hop_by_hop name \<or> is_xmq name"

fun any_later_equal :: "bytes list \<Rightarrow> bool" where
  "any_later_equal [] = False"
| "any_later_equal (a # seen) = (list_ex (\<lambda>b. eq_ignore_ascii_case a b) seen \<or> any_later_equal seen)"

definition has_dup_xmq :: "bytes list \<Rightarrow> bool" where
  "has_dup_xmq names = any_later_equal (filter is_xmq names)"

definition forward_cookie_requested :: "(bytes \<times> bytes) list \<Rightarrow> bool" where
  "forward_cookie_requested headers =
     (case List.find (\<lambda>(n, _). eq_ignore_ascii_case n (ascii ''x-mq-forward-cookie'')) headers of
        None \<Rightarrow> False
      | Some (_, v) \<Rightarrow> eq_ignore_ascii_case v (ascii ''true''))"

definition name_ok :: "bytes \<Rightarrow> bool" where
  "name_ok s \<longleftrightarrow> list_all (\<lambda>c. 0x20 \<le> c \<and> c \<noteq> 0x7F) s"

definition value_ok :: "bytes \<Rightarrow> bool" where
  "value_ok s \<longleftrightarrow> list_all (\<lambda>c. c = 9 \<or> 0x20 \<le> c \<and> c \<noteq> 0x7F) s"

definition uri_field_ok :: "bytes \<Rightarrow> bool" where
  "uri_field_ok s \<longleftrightarrow> \<not> list_ex forbidden_uri_byte s"

definition status_from_curl :: "u32 \<Rightarrow> u16" where
  "status_from_curl n = (if n = 28 then 504 else 502)"

datatype reject =
    DupControl | MissingAuth | BadAuthFormat | BadTarget | BadMethod | BadOriginProto | BadCacheTtl
  | HeaderTooLong | TunnelUnavailable | InternalError | UpstreamReset | UpstreamProtocol

fun reject_xmq :: "reject \<Rightarrow> bytes" where
  "reject_xmq DupControl = ascii ''duplicate-control-header''"
| "reject_xmq MissingAuth = ascii ''missing-auth''"
| "reject_xmq BadAuthFormat = ascii ''bad-auth-format''"
| "reject_xmq BadTarget = ascii ''bad-target''"
| "reject_xmq BadMethod = ascii ''bad-method''"
| "reject_xmq BadOriginProto = ascii ''bad-origin-protocol''"
| "reject_xmq BadCacheTtl = ascii ''bad-cache-ttl''"
| "reject_xmq HeaderTooLong = ascii ''header-too-long''"
| "reject_xmq TunnelUnavailable = ascii ''tunnel-unavailable''"
| "reject_xmq InternalError = ascii ''internal-error''"
| "reject_xmq UpstreamReset = ascii ''upstream-reset''"
| "reject_xmq UpstreamProtocol = ascii ''upstream-protocol''"

definition reject_status :: "reject \<Rightarrow> u16" where
  "reject_status r =
     (if r \<in> {DupControl, MissingAuth, BadAuthFormat, BadTarget, BadMethod, BadOriginProto, BadCacheTtl, HeaderTooLong}
      then 400 else 502)"

section \<open>Lemmas\<close>

lemma authority_scan_append: "authority_scan at0 b s = Some (a, r) \<Longrightarrow> s = a @ r"
  by (induction at0 b s arbitrary: a r rule: authority_scan.induct) (auto split: if_splits)

lemma authority_scan_rest:
  "authority_scan at0 b s = Some (a, r) \<Longrightarrow> r = [] \<or> hd r = 0x2F \<or> hd r = 0x3F"
  by (induction at0 b s arbitrary: a r rule: authority_scan.induct) (auto split: if_splits)

text \<open>Outside brackets the scan stops at the path; an authority that closed its bracket is outside.\<close>

lemma authority_scan_path:
  "authority_scan at0 b s = Some (a, r) \<Longrightarrow> 0x5D \<in> set a \<or> \<not> b \<and> \<not> (at0 \<and> a \<noteq> [] \<and> hd a = 0x5B) \<Longrightarrow>
   authority_scan at0 b (a @ 0x2F # p) = Some (a, 0x2F # p)"
proof (induction at0 b s arbitrary: a r rule: authority_scan.induct)
  case (2 at0 b c s)
  show ?case
  proof (cases "(c = 0x2F \<or> c = 0x3F) \<and> \<not> b")
    case True
    with "2.prems" show ?thesis by (auto split: if_splits)
  next
    case False
    with "2.prems"(1) obtain a' where a: "a = c # a'" by (auto split: if_splits)
    with "2.prems" "2.IH" False show ?thesis by (auto split: if_splits)
  qed
qed auto

lemma host_port_ok_bracket:
  assumes "host_port_ok a" and "a ! 0 = 0x5B"
  shows "0x5D \<in> set a"
proof -
  from assms obtain p where "position (\<lambda>c. c = 0x5D) (drop 1 a) = Some p"
    by (auto simp: host_port_ok_def host_scan_from_def split: option.splits)
  from position_Some [OF this] have "0x5D \<in> set (drop 1 a)" by (metis nth_mem)
  then show ?thesis by (rule in_set_dropD)
qed

lemma any_later_equal_iff: "any_later_equal ns \<longleftrightarrow> \<not> distinct (map (map to_ascii_lowercase) ns)"
  by (induction ns) (auto simp: list_ex_iff eq_ignore_ascii_case_def)

lemma parse_method_as_bytes: "parse_method s = Some m \<Longrightarrow> method_as_bytes m = s"
  by (auto simp: parse_method_def method_as_bytes_def split: if_splits)

text \<open>Names and values that pass the byte checks are always written: the serializer never refuses them.\<close>

lemma checked_header_written: "name_ok n \<Longrightarrow> value_ok v \<Longrightarrow> fst (write_header n v out) = Ok ()"
proof -
  assume "name_ok n" "value_ok v"
  then have "\<not> list_ex (\<lambda>c. c = 0x0D \<or> c = 0x0A \<or> c = 0) (n @ v)"
    by (auto simp: name_ok_def value_ok_def list_all_iff list_ex_iff)
  then show ?thesis by (simp add: write_header_def)
qed

lemma strip_server_client: "strip_server n \<Longrightarrow> strip_client n fc"
  by (auto simp: strip_server_def strip_client_def)

lemma cache_ttl_loop_eq:
  "n \<le> CACHE_TTL_MAX \<Longrightarrow>
   cache_ttl_loop v n =
     (if list_all is_ascii_digit v \<and> dec_value (uint n) v \<le> uint CACHE_TTL_MAX
      then word_of_int (dec_value (uint n) v) else 0)"
proof (induction v arbitrary: n)
  case (Cons c v)
  show ?case
  proof (cases "is_ascii_digit c")
    case True
    have d: "0x30 \<le> uint c" "uint c \<le> 0x39" using True by (simp_all add: is_ascii_digit_def word_le_def)
    have le: "uint n \<le> 31536000" using Cons.prems by (simp add: CACHE_TTL_MAX_def word_le_def)
    have sub: "uint (ucast (c - 0x30) :: u32) = uint c - 0x30"
      using d by (simp add: unsigned_ucast_eq uint_word_ariths take_bit_eq_mod)
    let ?n = "n * 10 + ucast (c - 0x30)"
    have mul: "uint (n * 10) = uint n * 10" using le uint_mult_lem [of n 10] by simp
    have add: "uint ?n = uint n * 10 + (uint c - 0x30)"
      using le d sub mul uint_add_lem [of "n * 10" "ucast (c - 0x30) :: u32"] by simp
    have mono: "list_all is_ascii_digit v \<Longrightarrow> uint ?n \<le> dec_value (uint ?n) v" using dec_value_mono by simp
    show ?thesis
    proof (cases "CACHE_TTL_MAX < ?n")
      case big: True
      then have "uint CACHE_TTL_MAX < uint ?n" by (simp add: word_less_def)
      then have "\<not> (list_all is_ascii_digit (c # v) \<and> dec_value (uint n) (c # v) \<le> uint CACHE_TTL_MAX)"
        using mono add by auto
      with True big show ?thesis by (auto simp: Let_def)
    next
      case False
      then show ?thesis using Cons.IH [of ?n] True by (auto simp: Let_def add not_less)
    qed
  qed simp
qed (simp add: word_le_def)

section \<open>Properties\<close>

lemma parse_target_SomeE:
  assumes "parse_target s = Some t"
  obtains rest off where "target_scheme s = Some (ft_scheme t, off)"
    and "authority_scan True False (drop off s) = Some (ft_authority t, rest)"
    and "ft_authority t \<noteq> []" and "length (ft_authority t) \<le> AUTHORITY_MAX"
    and "authority_bytes_ok (ft_authority t)" and "host_port_ok (ft_authority t)"
    and "\<not> list_ex (\<lambda>c. c = 0x23 \<or> forbidden_uri_byte c) rest" and "length (ft_path t) \<le> TARGET_PATH_MAX"
    and "ft_path t = canonical_path rest"
  using assms by (auto simp: parse_target_def not_less split: option.splits if_splits)

lemma target_scheme_split:
  assumes "target_scheme s = Some (sch, off)"
  shows "s = sch @ ascii ''://'' @ drop off s" and "target_scheme (sch @ ascii ''://'' @ x) = Some (sch, off)"
    and "drop off (sch @ ascii ''://'' @ x) = x"
proof -
  have c: "ascii ''https://'' = ascii ''https'' @ ascii ''://''" "ascii ''http://'' = ascii ''http'' @ ascii ''://''"
    by (simp_all add: ascii_def)
  have l: "length (ascii ''https://'') = 8" "length (ascii ''http://'') = 7" and
    l': "length (ascii ''https'') + length (ascii ''://'') = 8" "length (ascii ''http'') + length (ascii ''://'') = 7"
    by (simp_all add: ascii_def)
  have n: "\<not> starts_with (ascii ''http'' @ ascii ''://'' @ x) (ascii ''https://'')" by (simp add: starts_with_def ascii_def)
  have m: "starts_with (a @ b @ x) (a @ b)" for a b x :: bytes by (simp add: starts_with_def)
  have d: "length p = k \<Longrightarrow> drop k (p @ x) = x" for p x :: bytes and k by simp
  from assms consider "starts_with s (ascii ''https://'')" "sch = ascii ''https''" "off = 8"
    | "starts_with s (ascii ''http://'')" "sch = ascii ''http''" "off = 7"
    by (auto simp: target_scheme_def split: if_splits)
  then have "take off s = sch @ ascii ''://''
      \<and> target_scheme (sch @ ascii ''://'' @ x) = Some (sch, off) \<and> drop off (sch @ ascii ''://'' @ x) = x"
  proof cases
    case 1
    then show ?thesis using m [of "ascii ''https''" "ascii ''://''" x] d [OF l(1), of x]
      by (simp add: starts_with_def [of s] l' target_scheme_def c del: drop_append)
  next
    case 2
    then show ?thesis using n m [of "ascii ''http''" "ascii ''://''" x] d [OF l(2), of x]
      by (simp add: starts_with_def [of s] l' target_scheme_def c del: drop_append)
  qed
  then show "s = sch @ ascii ''://'' @ drop off s" "target_scheme (sch @ ascii ''://'' @ x) = Some (sch, off)"
      "drop off (sch @ ascii ''://'' @ x) = x"
    using append_take_drop_id [of off s] by simp_all
qed

lemma canonical_path_slash:
  "rest = [] \<or> hd rest = 0x2F \<or> hd rest = 0x3F \<Longrightarrow> \<exists>p. canonical_path rest = 0x2F # p"
  by (cases rest) (auto simp: canonical_path_def)

text \<open>C33. What an accepted fetch target is: the input is the scheme, \<open>://\<close>, the authority and a rest,
  whose canonical form is the path. The authority is nonempty and bounded, and has no user
  information, fragment, blank or control byte; the path is absolute, bounded and clean in the same way, so
  neither can break a request line or a header it is written into.\<close>

theorem parse_target_sound:
  assumes "parse_target s = Some t"
  shows "\<exists>rest. s = ft_scheme t @ ascii ''://'' @ ft_authority t @ rest \<and> ft_path t = canonical_path rest
    \<and> ft_scheme t \<in> {ascii ''http'', ascii ''https''}
    \<and> 1 \<le> length (ft_authority t) \<and> length (ft_authority t) \<le> AUTHORITY_MAX
    \<and> uri_field_ok (ft_authority t) \<and> 0x40 \<notin> set (ft_authority t) \<and> 0x23 \<notin> set (ft_authority t)
    \<and> starts_with (ft_path t) [0x2F] \<and> length (ft_path t) \<le> TARGET_PATH_MAX
    \<and> uri_field_ok (ft_path t) \<and> 0x23 \<notin> set (ft_path t)"
  using assms
proof (rule parse_target_SomeE)
  fix rest off
  assume sch: "target_scheme s = Some (ft_scheme t, off)"
    and scan: "authority_scan True False (drop off s) = Some (ft_authority t, rest)"
    and ne: "ft_authority t \<noteq> []" and a: "length (ft_authority t) \<le> AUTHORITY_MAX" "authority_bytes_ok (ft_authority t)"
    and rest: "\<not> list_ex (\<lambda>c. c = 0x23 \<or> forbidden_uri_byte c) rest"
    and p: "length (ft_path t) \<le> TARGET_PATH_MAX" "ft_path t = canonical_path rest"
  obtain q where q: "canonical_path rest = 0x2F # q" using canonical_path_slash [OF authority_scan_rest [OF scan]] by blast
  have "s = ft_scheme t @ ascii ''://'' @ ft_authority t @ rest"
    using target_scheme_split(1) [OF sch] authority_scan_append [OF scan] by simp
  moreover have "ft_scheme t \<in> {ascii ''http'', ascii ''https''}"
    using sch by (auto simp: target_scheme_def split: if_splits)
  moreover have "uri_field_ok (ft_authority t)" "0x40 \<notin> set (ft_authority t)" "0x23 \<notin> set (ft_authority t)"
    using a(2) by (auto simp: authority_bytes_ok_def uri_field_ok_def list_all_iff list_ex_iff)
  moreover have "set (canonical_path rest) \<subseteq> insert 0x2F (set rest)"
    by (auto simp: canonical_path_def split: list.splits if_splits)
  then have "uri_field_ok (ft_path t)" "0x23 \<notin> set (ft_path t)"
    using rest p(2) by (auto simp: uri_field_ok_def list_ex_iff forbidden_uri_byte_def)
  moreover have "starts_with (ft_path t) [0x2F]" using p(2) q by (simp add: starts_with_def)
  moreover have "1 \<le> length (ft_authority t)" using ne by (cases "ft_authority t") auto
  ultimately show ?thesis using a(1) p by blast
qed

text \<open>C23. Canonical form: printing an accepted target as scheme, authority and path and parsing it
  again gives the same target, so client and server leg agree on what a target names.\<close>

theorem parse_target_canonical:
  assumes "parse_target s = Some t"
  shows "parse_target (ft_scheme t @ ascii ''://'' @ ft_authority t @ ft_path t) = Some t"
  using assms
proof (rule parse_target_SomeE)
  fix rest off
  assume sch: "target_scheme s = Some (ft_scheme t, off)"
    and scan: "authority_scan True False (drop off s) = Some (ft_authority t, rest)"
    and a: "ft_authority t \<noteq> []" "length (ft_authority t) \<le> AUTHORITY_MAX" "authority_bytes_ok (ft_authority t)"
      "host_port_ok (ft_authority t)"
    and rest: "\<not> list_ex (\<lambda>c. c = 0x23 \<or> forbidden_uri_byte c) rest"
    and p: "length (ft_path t) \<le> TARGET_PATH_MAX" "ft_path t = canonical_path rest"
  obtain q where q: "ft_path t = 0x2F # q"
    using canonical_path_slash [OF authority_scan_rest [OF scan]] p(2) by auto
  have "0x5D \<in> set (ft_authority t) \<or> \<not> hd (ft_authority t) = 0x5B"
    using host_port_ok_bracket [OF a(4)] a(1) by (auto simp: hd_conv_nth)
  then have "authority_scan True False (ft_authority t @ ft_path t) = Some (ft_authority t, ft_path t)"
    unfolding q by (intro authority_scan_path [OF scan]) auto
  moreover have "\<not> list_ex (\<lambda>c. c = 0x23 \<or> forbidden_uri_byte c) (ft_path t)"
    using rest unfolding p(2) by (auto simp: canonical_path_def forbidden_uri_byte_def split: list.splits if_splits)
  moreover have "canonical_path (ft_path t) = ft_path t" using q by (simp add: canonical_path_def)
  ultimately show ?thesis
    using a p(1) by (simp only: parse_target_def target_scheme_split(2,3) [OF sch] option.case prod.case) simp
qed

lemma example_target:
  "parse_target (ascii ''https://[::1]:8443?q'')
     = Some \<lparr>ft_scheme = ascii ''https'', ft_authority = ascii ''[::1]:8443'', ft_path = ascii ''/?q''\<rparr>"
proof -
  have "target_scheme (ascii ''https://[::1]:8443?q'') = Some (ascii ''https'', 8)" by code_simp
  moreover have "authority_scan True False (drop 8 (ascii ''https://[::1]:8443?q'')) = Some (ascii ''[::1]:8443'', ascii ''?q'')"
    by code_simp
  moreover have "authority_bytes_ok (ascii ''[::1]:8443'')" "host_port_ok (ascii ''[::1]:8443'')"
    "\<not> list_ex (\<lambda>c. c = 0x23 \<or> forbidden_uri_byte c) (ascii ''?q'')" "canonical_path (ascii ''?q'') = ascii ''/?q''"
    by code_simp+
  ultimately show ?thesis
    by (simp add: parse_target_def AUTHORITY_MAX_def TARGET_PATH_MAX_def FIELD_MAX_def) (simp add: ascii_def)
qed

theorem parse_target_sound_witness:
  "\<exists>rest. ascii ''https://[::1]:8443?q'' = ascii ''https'' @ ascii ''://'' @ ascii ''[::1]:8443'' @ rest
     \<and> ascii ''/?q'' = canonical_path rest"
  using parse_target_sound [OF example_target] by auto

theorem parse_target_canonical_witness:
  "parse_target (ascii ''https'' @ ascii ''://'' @ ascii ''[::1]:8443'' @ ascii ''/?q'')
     = Some \<lparr>ft_scheme = ascii ''https'', ft_authority = ascii ''[::1]:8443'', ft_path = ascii ''/?q''\<rparr>"
  using parse_target_canonical [OF example_target] by simp

text \<open>The quadratic check for duplicated control headers is the reference one: two \<open>X-Mq-*\<close> names coincide once
  lowercased. The lifetime parser gives the decimal value when the input is all digits and at most
  \<open>CACHE_TTL_MAX\<close>, and 0 otherwise, with no 32-bit overflow on inputs of any length.\<close>

theorem control_headers_exact:
  "has_dup_xmq names = (\<not> distinct (map (map to_ascii_lowercase) (filter is_xmq names)))
   \<and> uint (parse_cache_ttl v) =
       (if list_all is_ascii_digit v \<and> dec_value 0 v \<le> 31536000 then dec_value 0 v else 0)"
proof
  show "has_dup_xmq names = (\<not> distinct (map (map to_ascii_lowercase) (filter is_xmq names)))"
    by (simp add: has_dup_xmq_def any_later_equal_iff)
  have "0 \<le> dec_value 0 v" if "list_all is_ascii_digit v" using dec_value_mono [OF _ that, of 0] by simp
  then show "uint (parse_cache_ttl v) =
       (if list_all is_ascii_digit v \<and> dec_value 0 v \<le> 31536000 then dec_value 0 v else 0)"
    using cache_ttl_loop_eq [of 0 v]
    by (auto simp: parse_cache_ttl_def CACHE_TTL_MAX_def uint_word_of_int)
qed

end
