(* ===== verification/Http_Metrics.thy ===== *)
theory Http_Metrics
  imports Rust_Std
begin

text \<open>
  The request log line, \<^verbatim>\<open>crates/mq-http/src/metrics.rs\<close>: a line of \<open>key=value\<close> pairs built bytewise, with
  the values a peer controls quoted, escaped and cut at a cap. \<open>write!\<close> of an integer is its decimal
  form.
\<close>

section \<open>The formatter\<close>

definition LINE_MAX :: nat where "LINE_MAX = 1024"
definition AUTHORITY_CAP :: nat where "AUTHORITY_CAP = 128"
definition PATH_CAP :: nat where "PATH_CAP = 256"
definition RESET_CAP :: nat where "RESET_CAP = 64"
definition CONTENT_ENCODING_CAP :: nat where "CONTENT_ENCODING_CAP = 23"

record req_line =
  rl_sid :: u64
  rl_method :: bytes
  rl_status :: int
  rl_authority :: bytes
  rl_path :: bytes
  rl_req_bytes :: u64
  rl_resp_bytes :: u64
  rl_begin_us :: u64
  rl_header_send_us :: u64
  rl_fin_send_us :: u64
  rl_fin_ack_us :: u64
  rl_origin_protocol :: bytes
  rl_origin_tls :: bytes
  rl_content_encoding :: bytes
  rl_origin_reuse :: u8
  rl_origin_connect_ms :: int
  rl_mp_state :: int
  rl_reset :: bytes

definition ms_since :: "u64 \<Rightarrow> u64 \<Rightarrow> int" where
  "ms_since begin_us later =
     (if begin_us = 0 \<or> later = 0 \<or> later < begin_us then -1 else sint ((later - begin_us) div 1000))"

fun escape_bytes :: "bytes \<Rightarrow> bytes" where
  "escape_bytes [] = []"
| "escape_bytes (b # bs) = (if b = 0x22 \<or> b = 0x5C then [0x5C, b] else [b]) @ escape_bytes bs"

definition quoted :: "bytes \<Rightarrow> bytes \<Rightarrow> bytes \<Rightarrow> nat \<Rightarrow> bytes" where
  "quoted out key val cap =
     out @ [0x20] @ key @ [0x3D, 0x22] @ escape_bytes (take (min (length val) cap) val)
     @ (if cap < length val then [0xE2, 0x80, 0xA6] else []) @ [0x22]"

definition format_req :: "req_line \<Rightarrow> bytes option" where
  "format_req l =
     (let o1 = ascii ''mq.req cid=- sid='' @ fmt_dec (unat (rl_sid l)) @ ascii '' method='' @ rl_method l
            @ ascii '' status='' @ fmt_int (rl_status l);
          o2 = quoted o1 (ascii ''authority'') (rl_authority l) AUTHORITY_CAP;
          o3 = quoted o2 (ascii ''path'') (rl_path l) PATH_CAP;
          o4 = o3 @ ascii '' req_bytes='' @ fmt_dec (unat (rl_req_bytes l))
            @ ascii '' resp_bytes='' @ fmt_dec (unat (rl_resp_bytes l))
            @ ascii '' ttfb_ms='' @ fmt_int (ms_since (rl_begin_us l) (rl_header_send_us l))
            @ ascii '' duration_ms='' @ fmt_int (ms_since (rl_begin_us l) (rl_fin_send_us l))
            @ ascii '' origin_protocol='' @ rl_origin_protocol l
            @ ascii '' origin_tls='' @ rl_origin_tls l @ ascii '' content_encoding='';
          o5 = o4 @ (if rl_content_encoding l = [] then ascii ''none''
                     else take (min (length (rl_content_encoding l)) CONTENT_ENCODING_CAP) (rl_content_encoding l));
          o6 = o5 @ ascii '' cache=bypass origin_reuse='' @ fmt_dec (unat (rl_origin_reuse l))
            @ ascii '' origin_connect_ms='' @ fmt_int (rl_origin_connect_ms l)
            @ ascii '' mp_state='' @ fmt_int (rl_mp_state l)
            @ ascii '' completion_ms='' @ fmt_int (ms_since (rl_begin_us l) (rl_fin_ack_us l));
          o7 = quoted o6 (ascii ''reset'') (rl_reset l) RESET_CAP
      in if length o7 < LINE_MAX then Some o7 else None)"

section \<open>Reading a quoted value back\<close>

text \<open>The reader of a quoted value: it takes bytes up to the first quote that is not escaped.\<close>

fun read_quoted :: "bytes \<Rightarrow> (bytes \<times> bytes) option" where
  "read_quoted [] = None"
| "read_quoted (b # bs) =
     (if b = 0x22 then Some ([], bs)
      else if b = 0x5C then
        (case bs of [] \<Rightarrow> None | c # cs \<Rightarrow> map_option (apfst ((#) c)) (read_quoted cs))
      else map_option (apfst ((#) b)) (read_quoted bs))"

definition shown :: "bytes \<Rightarrow> nat \<Rightarrow> bytes" where
  "shown val cap = take cap val @ (if cap < length val then [0xE2, 0x80, 0xA6] else [])"

lemma read_quoted_escape:
  "read_quoted (escape_bytes v @ r) = map_option (apfst ((@) v)) (read_quoted r)"
  by (induction v rule: escape_bytes.induct) (cases "read_quoted r"; auto)+

lemma read_quoted_ellipsis:
  "read_quoted ((if c then [0xE2, 0x80, 0xA6] else []) @ 0x22 # r) = Some (if c then [0xE2, 0x80, 0xA6] else [], r)"
  by simp

lemma read_quoted_quoted:
  "quoted out key val cap @ r = out @ [0x20] @ key @ [0x3D, 0x22] @ x \<Longrightarrow> read_quoted x = Some (shown val cap, r)"
proof -
  assume "quoted out key val cap @ r = out @ [0x20] @ key @ [0x3D, 0x22] @ x"
  then have "x = escape_bytes (take cap val) @ (if cap < length val then [0xE2, 0x80, 0xA6] else []) @ 0x22 # r"
    by (simp add: quoted_def min.commute flip: take_take)
  then show ?thesis by (simp add: read_quoted_escape shown_def)
qed

lemma length_escape_bytes: "length v \<le> length (escape_bytes v) \<and> length (escape_bytes v) \<le> 2 * length v"
  by (induction v rule: escape_bytes.induct) auto

lemma ms_since_eq:
  "ms_since b t = (if b = 0 \<or> t = 0 \<or> t < b then -1 else (uint t - uint b) div 1000)"
proof -
  have "sint ((t - b) div 1000) = (uint t - uint b) div 1000" if "b \<le> t"
  proof -
    have s: "uint (t - b) = uint t - uint b" using that by (rule uint_sub_lem [THEN iffD1, OF word_le_def [THEN iffD1]])
    have "uint ((t - b) div 1000) = (uint t - uint b) div 1000" by (simp add: uint_div s)
    moreover have "uint t - uint b < 18446744073709551616" "0 \<le> uint t - uint b"
      using uint_bounded [of t, simplified] uint_ge_0 [of b] that [unfolded word_le_def] by linarith+
    then have "(uint t - uint b) div 1000 < 2 ^ 63" "0 \<le> (uint t - uint b) div 1000" by simp_all
    ultimately show ?thesis by (simp add: sint_uint signed_take_bit_int_eq_self)
  qed
  then show ?thesis by (auto simp: ms_since_def not_less)
qed

section \<open>Property\<close>

text \<open>C39. A log line that is kept is shorter than \<open>LINE_MAX\<close>, and every value a peer controls stays inside its
  quotes: reading the fields back gives the authority, the path and the reset reason, each cut at
  its cap with an ellipsis, whatever quotes and backslashes they contain, with the other fields
  where the formatter put them. So no request can forge a field of the log.\<close>

theorem format_req_readable:
  assumes "format_req l = Some line"
  shows "length line < LINE_MAX
    \<and> (\<exists>x y z w. line = ascii ''mq.req cid=- sid='' @ fmt_dec (unat (rl_sid l)) @ ascii '' method='' @ rl_method l
            @ ascii '' status='' @ fmt_int (rl_status l) @ ascii '' authority='' @ [0x22] @ x
       \<and> read_quoted x = Some (shown (rl_authority l) AUTHORITY_CAP, ascii '' path='' @ [0x22] @ y)
       \<and> read_quoted y = Some (shown (rl_path l) PATH_CAP, z @ ascii '' reset='' @ [0x22] @ w)
       \<and> read_quoted w = Some (shown (rl_reset l) RESET_CAP, []))"
proof -
  let ?w = "\<lambda>v cap. escape_bytes (take cap v) @ (if cap < length v then [0xE2, 0x80, 0xA6] else []) @ [0x22]"
  have rd: "read_quoted (?w v cap @ r) = Some (shown v cap, r)" for v cap r
    by (simp add: read_quoted_escape shown_def)
  define mid where "mid = ascii '' req_bytes='' @ fmt_dec (unat (rl_req_bytes l))
            @ ascii '' resp_bytes='' @ fmt_dec (unat (rl_resp_bytes l))
            @ ascii '' ttfb_ms='' @ fmt_int (ms_since (rl_begin_us l) (rl_header_send_us l))
            @ ascii '' duration_ms='' @ fmt_int (ms_since (rl_begin_us l) (rl_fin_send_us l))
            @ ascii '' origin_protocol='' @ rl_origin_protocol l
            @ ascii '' origin_tls='' @ rl_origin_tls l @ ascii '' content_encoding=''
            @ (if rl_content_encoding l = [] then ascii ''none''
                     else take (min (length (rl_content_encoding l)) CONTENT_ENCODING_CAP) (rl_content_encoding l))
            @ ascii '' cache=bypass origin_reuse='' @ fmt_dec (unat (rl_origin_reuse l))
            @ ascii '' origin_connect_ms='' @ fmt_int (rl_origin_connect_ms l)
            @ ascii '' mp_state='' @ fmt_int (rl_mp_state l)
            @ ascii '' completion_ms='' @ fmt_int (ms_since (rl_begin_us l) (rl_fin_ack_us l))"
  let ?w3 = "?w (rl_reset l) RESET_CAP"
  let ?w2 = "?w (rl_path l) PATH_CAP @ mid @ ascii '' reset='' @ [0x22] @ ?w3"
  let ?w1 = "?w (rl_authority l) AUTHORITY_CAP @ ascii '' path='' @ [0x22] @ ?w2"
  have key: "quoted out key v cap = out @ (0x20 # key @ [0x3D]) @ [0x22] @ ?w v cap" for out key v cap
    by (simp add: quoted_def min.commute flip: take_take)
  have keys: "0x20 # ascii ''authority'' @ [0x3D] = ascii '' authority=''" "0x20 # ascii ''path'' @ [0x3D] = ascii '' path=''"
    "0x20 # ascii ''reset'' @ [0x3D] = ascii '' reset=''" by (simp_all add: ascii_def)
  have line: "line = ascii ''mq.req cid=- sid='' @ fmt_dec (unat (rl_sid l)) @ ascii '' method='' @ rl_method l
            @ ascii '' status='' @ fmt_int (rl_status l) @ ascii '' authority='' @ [0x22] @ ?w1"
    and len: "length line < LINE_MAX"
    using assms by (simp_all only: format_req_def Let_def key keys mid_def append_assoc option.inject
        option.distinct split: if_splits) simp_all
  have "read_quoted ?w1 = Some (shown (rl_authority l) AUTHORITY_CAP, ascii '' path='' @ [0x22] @ ?w2)"
    "read_quoted ?w2 = Some (shown (rl_path l) PATH_CAP, mid @ ascii '' reset='' @ [0x22] @ ?w3)"
    "read_quoted ?w3 = Some (shown (rl_reset l) RESET_CAP, [])"
    by (rule rd, rule rd, rule rd [where r = "[]", unfolded append_Nil2])
  with line len show ?thesis by blast
qed

theorem format_req_readable_witness:
  "\<exists>line x y. format_req \<lparr>rl_sid = 4, rl_method = ascii ''GET'', rl_status = 200, rl_authority = [0x61, 0x22, 0x20],
     rl_path = ascii ''/p'', rl_req_bytes = 0, rl_resp_bytes = 9, rl_begin_us = 1000, rl_header_send_us = 3000,
     rl_fin_send_us = 4000, rl_fin_ack_us = 0, rl_origin_protocol = ascii ''h2'', rl_origin_tls = ascii ''tls'',
     rl_content_encoding = [], rl_origin_reuse = 1, rl_origin_connect_ms = -1, rl_mp_state = 0, rl_reset = []\<rparr> = Some line
   \<and> read_quoted x = Some ([0x61, 0x22, 0x20], ascii '' path='' @ [0x22] @ y)
   \<and> line = ascii ''mq.req cid=- sid='' @ fmt_dec 4 @ ascii '' method='' @ ascii ''GET''
            @ ascii '' status='' @ fmt_int 200 @ ascii '' authority='' @ [0x22] @ x"
proof -
  let ?l = "\<lparr>rl_sid = 4, rl_method = ascii ''GET'', rl_status = 200, rl_authority = [0x61, 0x22, 0x20],
     rl_path = ascii ''/p'', rl_req_bytes = 0, rl_resp_bytes = 9, rl_begin_us = 1000, rl_header_send_us = 3000,
     rl_fin_send_us = 4000, rl_fin_ack_us = 0, rl_origin_protocol = ascii ''h2'', rl_origin_tls = ascii ''tls'',
     rl_content_encoding = [], rl_origin_reuse = 1, rl_origin_connect_ms = -1, rl_mp_state = 0, rl_reset = []\<rparr>"
  have "format_req ?l \<noteq> None" by code_simp
  then obtain line where line: "format_req ?l = Some line" by auto
  from format_req_readable [OF line] show ?thesis
    using line by (simp add: shown_def AUTHORITY_CAP_def) blast
qed

end
