(* ===== verification/Ring_Buf.thy ===== *)
theory Ring_Buf
  imports Net_Types "HOL-Library.Monad_Syntax"
begin

text \<open>
  The linear byte buffer of \<^verbatim>\<open>crates/mq-transport-api/src/ringbuf.rs\<close> and the two record queues on it: the
  send ring of a UDP socket, \<^verbatim>\<open>crates/mq-runtime/src/shard/tx_ring.rs\<close>, and the datagram receive
  ring of a connection, \<^verbatim>\<open>crates/mq-transport/src/datagram.rs\<close>.

  A panic (an assertion or a slice out of range) is \<open>None\<close>. What a record queue needs of the buffer is
  the locale \<open>byte_fifo\<close>, interpreted on the buffer; what a queue of encoded records does is
  proved once in \<open>record_fifo\<close>, interpreted on both rings.
\<close>

section \<open>The buffer, \<open>ringbuf.rs\<close>\<close>

record ring_buf =
  rb_data :: bytes
  rb_r :: nat
  rb_w :: nat

definition ring_new :: "nat \<Rightarrow> ring_buf" where
  "ring_new cap = \<lparr>rb_data = replicate cap 0, rb_r = 0, rb_w = 0\<rparr>"

definition ring_capacity :: "ring_buf \<Rightarrow> nat" where
  "ring_capacity b = length (rb_data b)"

definition ring_len :: "ring_buf \<Rightarrow> nat" where
  "ring_len b = rb_w b - rb_r b"

definition ring_is_empty :: "ring_buf \<Rightarrow> bool" where
  "ring_is_empty b \<longleftrightarrow> rb_r b = rb_w b"

definition ring_space :: "ring_buf \<Rightarrow> nat" where
  "ring_space b = length (rb_data b) - rb_w b"

text \<open>\<open>write_slice()[off..off + n].copy_from_slice(xs)\<close>.\<close>

definition ring_write_slice :: "nat \<Rightarrow> bytes \<Rightarrow> ring_buf \<Rightarrow> ring_buf option" where
  "ring_write_slice off xs b =
     (let at = rb_w b + off in
      if length (rb_data b) < at + length xs then None
      else Some (b\<lparr>rb_data := take at (rb_data b) @ xs @ drop (at + length xs) (rb_data b)\<rparr>))"

definition ring_commit :: "nat \<Rightarrow> ring_buf \<Rightarrow> ring_buf option" where
  "ring_commit n b = (if \<not> n \<le> ring_space b then None else Some (b\<lparr>rb_w := rb_w b + n\<rparr>))"

definition ring_read_slice :: "ring_buf \<Rightarrow> bytes" where
  "ring_read_slice b = drop (rb_r b) (take (rb_w b) (rb_data b))"

definition ring_consume :: "nat \<Rightarrow> ring_buf \<Rightarrow> ring_buf option" where
  "ring_consume n b =
     (if \<not> n \<le> ring_len b then None
      else
        let b = b\<lparr>rb_r := rb_r b + n\<rparr> in
        Some (if rb_r b = rb_w b then b\<lparr>rb_r := 0, rb_w := 0\<rparr> else b))"

definition ring_inv :: "ring_buf \<Rightarrow> bool" where
  "ring_inv b \<longleftrightarrow> rb_r b \<le> rb_w b \<and> rb_w b \<le> length (rb_data b) \<and> (rb_r b = rb_w b \<longrightarrow> rb_w b = 0)"

lemmas ring_defs = ring_capacity_def ring_len_def ring_is_empty_def ring_space_def ring_write_slice_def
  ring_commit_def ring_read_slice_def ring_consume_def ring_inv_def

section \<open>The buffer as a queue of bytes\<close>

definition ring_append :: "bytes \<Rightarrow> ring_buf \<Rightarrow> ring_buf option" where
  "ring_append xs b = do { b \<leftarrow> ring_write_slice 0 xs b; ring_commit (length xs) b }"

text \<open>Two adjacent writes and one commit, as the rings issue them, are one append.\<close>

lemma ring_append_two:
  "do { b \<leftarrow> ring_write_slice 0 xs b; b \<leftarrow> ring_write_slice (length xs) ys b; ring_commit (length xs + length ys) b }
   = ring_append (xs @ ys) b"
  by (auto simp: ring_append_def ring_write_slice_def ring_commit_def ring_space_def Let_def ac_simps min_def)

locale byte_fifo =
  fixes inv :: "'s \<Rightarrow> bool" and contents :: "'s \<Rightarrow> bytes" and room :: "'s \<Rightarrow> nat" and cap :: "'s \<Rightarrow> nat"
    and append_bytes :: "bytes \<Rightarrow> 's \<Rightarrow> 's option" and drop_bytes :: "nat \<Rightarrow> 's \<Rightarrow> 's option"
  assumes append_ok: "inv s \<Longrightarrow> length xs \<le> room s \<Longrightarrow>
      \<exists>t. append_bytes xs s = Some t \<and> inv t \<and> contents t = contents s @ xs \<and> cap t = cap s"
    and drop_ok: "inv s \<Longrightarrow> n \<le> length (contents s) \<Longrightarrow>
      \<exists>t. drop_bytes n s = Some t \<and> inv t \<and> contents t = drop n (contents s) \<and> cap t = cap s"
    and room_empty: "inv s \<Longrightarrow> contents s = [] \<Longrightarrow> room s = cap s"

lemma ring_append_ok:
  assumes "ring_inv b" and "length xs \<le> ring_space b"
  shows "\<exists>c. ring_append xs b = Some c \<and> ring_inv c \<and> ring_read_slice c = ring_read_slice b @ xs
    \<and> ring_capacity c = ring_capacity b"
proof -
  have "rb_r b \<le> rb_w b" "rb_w b + length xs \<le> length (rb_data b)"
    using assms by (auto simp: ring_inv_def ring_space_def)
  then show ?thesis using assms
    by (auto simp: ring_append_def ring_defs Let_def min_def)
qed

lemma ring_consume_ok:
  assumes "ring_inv b" and "n \<le> length (ring_read_slice b)"
  shows "\<exists>c. ring_consume n b = Some c \<and> ring_inv c \<and> ring_read_slice c = drop n (ring_read_slice b)
    \<and> ring_capacity c = ring_capacity b"
  using assms by (auto simp: ring_defs Let_def add.commute)

interpretation ring: byte_fifo ring_inv ring_read_slice ring_space ring_capacity ring_append ring_consume
proof
  fix b :: ring_buf
  assume "ring_inv b" "ring_read_slice b = []"
  then show "ring_space b = ring_capacity b" by (auto simp: ring_defs)
qed (rule ring_append_ok ring_consume_ok; assumption)+

lemma ring_inv_new [simp]: "ring_inv (ring_new cap)" "ring_read_slice (ring_new cap) = []"
    "ring_capacity (ring_new cap) = cap" "ring_space (ring_new cap) = cap"
  by (simp_all add: ring_new_def ring_defs)

lemma length_ring_read_slice: "ring_inv b \<Longrightarrow> length (ring_read_slice b) = ring_len b"
  by (simp add: ring_defs)

lemma ring_is_empty_iff: "ring_inv b \<Longrightarrow> ring_is_empty b \<longleftrightarrow> ring_read_slice b = []"
  by (auto simp: ring_defs)

section \<open>Queues of records\<close>

text \<open>
  A queue of encoded records on a byte queue: \<open>decode\<close> reads the first record and its length, and
  undoes \<open>encode\<close> whatever follows.
\<close>

locale record_fifo = byte_fifo inv contents room cap append_bytes drop_bytes
  for inv :: "'s \<Rightarrow> bool" and contents room cap append_bytes drop_bytes +
  fixes encode :: "'r \<Rightarrow> bytes" and decode :: "bytes \<Rightarrow> ('r \<times> nat) option" and fits :: "'r \<Rightarrow> bool"
  assumes decode_encode: "fits r \<Longrightarrow> decode (encode r @ xs) = Some (r, length (encode r))"
    and decode_Nil: "decode [] = None"
begin

definition holds :: "'s \<Rightarrow> 'r list \<Rightarrow> bool" where
  "holds s rs \<longleftrightarrow> inv s \<and> contents s = concat (map encode rs) \<and> list_all fits rs"

definition rpush :: "'r \<Rightarrow> 's \<Rightarrow> bool \<times> 's" where
  "rpush r s = (if \<not> fits r \<or> room s < length (encode r) then (False, s)
     else case append_bytes (encode r) s of Some t \<Rightarrow> (True, t) | None \<Rightarrow> (False, s))"

definition rpeek :: "'s \<Rightarrow> 'r option" where
  "rpeek s = map_option fst (decode (contents s))"

definition rpop :: "'s \<Rightarrow> 's option" where
  "rpop s = (case decode (contents s) of None \<Rightarrow> Some s | Some (_, n) \<Rightarrow> drop_bytes n s)"

lemma holds_peek: "holds s rs \<Longrightarrow> rpeek s = (case rs of [] \<Rightarrow> None | r # _ \<Rightarrow> Some r)"
  by (auto simp: holds_def rpeek_def decode_Nil decode_encode split: list.splits)

lemma holds_push:
  assumes "holds s rs"
  shows "if fits r \<and> length (encode r) \<le> room s
    then \<exists>t. append_bytes (encode r) s = Some t \<and> rpush r s = (True, t) \<and> holds t (rs @ [r]) \<and> cap t = cap s
    else rpush r s = (False, s)"
  using assms append_ok [of s "encode r"] by (auto simp: holds_def rpush_def not_less)

lemma holds_pop:
  assumes "holds s rs"
  shows "\<exists>t. rpop s = Some t \<and> holds t (tl rs) \<and> cap t = cap s"
proof (cases rs)
  case Nil
  with assms show ?thesis by (simp add: holds_def rpop_def decode_Nil)
next
  case (Cons r rs')
  with assms have c: "contents s = encode r @ concat (map encode rs')" "inv s" "fits r" "list_all fits rs'"
    by (auto simp: holds_def)
  with drop_ok [of s "length (encode r)"] show ?thesis
    by (auto simp: holds_def rpop_def decode_encode Cons)
qed

lemma holds_empty_accepts:
  assumes "holds s []" and "fits r" and "length (encode r) \<le> cap s"
  shows "\<exists>t. rpush r s = (True, t) \<and> holds t [r]"
  using holds_push [OF assms(1), of r] assms room_empty [of s] by (auto simp: holds_def)

end

section \<open>The send ring, \<open>tx_ring.rs\<close>\<close>

definition TX_RING :: nat where "TX_RING = 256 * 1024"

definition le_bytes :: "nat \<Rightarrow> 'a::len word \<Rightarrow> bytes" where
  "le_bytes n w = rev (be_bytes n w)"

definition from_le :: "bytes \<Rightarrow> 'a::len word" where
  "from_le bs = from_be (rev bs)"

datatype send_buf_full = SendBufFull

definition tx_ring_new :: ring_buf where "tx_ring_new = ring_new TX_RING"

definition tx_hdr :: "socket_addr \<Rightarrow> u16 \<Rightarrow> bytes" where
  "tx_hdr dst len =
     (case dst of
        SockV4 a p \<Rightarrow> [4] @ be_bytes 4 a @ le_bytes 2 p @ le_bytes 4 (0 :: u32) @ le_bytes 2 len
      | SockV6 a p _ scope \<Rightarrow> [6] @ be_bytes 16 a @ le_bytes 2 p @ le_bytes 4 scope @ le_bytes 2 len)"

definition tx_push :: "socket_addr \<Rightarrow> bytes \<Rightarrow> ring_buf \<Rightarrow> ((unit, send_buf_full) result \<times> ring_buf) option" where
  "tx_push dst bs ring =
     (if 65535 < length bs then Some (Err SendBufFull, ring)
      else
        let hdr = tx_hdr dst (of_nat (length bs)); n = length hdr + length bs in
        if ring_space ring < n then Some (Err SendBufFull, ring)
        else do {
          b \<leftarrow> ring_write_slice 0 hdr ring;
          b \<leftarrow> ring_write_slice (length hdr) bs b;
          b \<leftarrow> ring_commit n b;
          Some (Ok (), b)
        })"

text \<open>\<open>r[a..b]\<close>.\<close>

definition get_slice :: "nat \<Rightarrow> nat \<Rightarrow> bytes \<Rightarrow> bytes option" where
  "get_slice a b r = (if b \<le> length r then Some (take (b - a) (drop a r)) else None)"

definition tx_head :: "bytes \<Rightarrow> (socket_addr \<times> nat \<times> nat) option option" where
  "tx_head r =
     (case r of
        [] \<Rightarrow> Some None
      | f # _ \<Rightarrow> do {
          (ip, at) \<leftarrow> (if f = 4 then map_option (\<lambda>o4. (IpV4 (from_be o4), 5)) (get_slice 1 5 r)
                      else map_option (\<lambda>o6. (IpV6 (from_be o6), 17)) (get_slice 1 17 r));
          port \<leftarrow> get_slice at (at + 2) r;
          scope \<leftarrow> get_slice (at + 2) (at + 6) r;
          len \<leftarrow> get_slice (at + 6) (at + 8) r;
          Some (Some ((case ip of IpV4 a \<Rightarrow> SockV4 a (from_le port) | IpV6 a \<Rightarrow> SockV6 a (from_le port) 0 (from_le scope)),
                at + 8, unat (from_le len :: u16)))
        })"

definition tx_peek :: "ring_buf \<Rightarrow> (socket_addr \<times> bytes) option option" where
  "tx_peek ring =
     (case tx_head (ring_read_slice ring) of
        None \<Rightarrow> None
      | Some None \<Rightarrow> Some None
      | Some (Some (dst, at, len)) \<Rightarrow>
          map_option (\<lambda>p. Some (dst, p)) (get_slice at (at + len) (ring_read_slice ring)))"

definition tx_pop :: "ring_buf \<Rightarrow> ring_buf option" where
  "tx_pop ring =
     (case tx_head (ring_read_slice ring) of
        None \<Rightarrow> None
      | Some None \<Rightarrow> Some ring
      | Some (Some (_, at, len)) \<Rightarrow> ring_consume (at + len) ring)"

section \<open>The receive ring, \<open>datagram.rs\<close>\<close>

definition RX_RING :: nat where "RX_RING = 16 * 1024 * 1024"

record dgram_slot =
  dgram_rx :: "ring_buf option"
  dgram_rx_dropped :: u64

definition ring_push :: "bytes \<Rightarrow> 'a dgram_slot_scheme \<Rightarrow> (bool \<times> 'a dgram_slot_scheme) option" where
  "ring_push data c =
     (let ring = (case dgram_rx c of Some b \<Rightarrow> b | None \<Rightarrow> ring_new RX_RING); need = 2 + length data in
      if length data \<le> 65535 \<and> need \<le> ring_space ring then do {
        b \<leftarrow> ring_write_slice 0 (le_bytes 2 (of_nat (length data) :: u16)) ring;
        b \<leftarrow> ring_write_slice 2 data b;
        b \<leftarrow> ring_commit need b;
        Some (True, c\<lparr>dgram_rx := Some b\<rparr>)
      } else Some (False, c\<lparr>dgram_rx := Some ring, dgram_rx_dropped := dgram_rx_dropped c + 1\<rparr>))"

text \<open>The caller's buffer is its length; the bytes written to it are returned with the count.\<close>

definition ring_pop :: "nat \<Rightarrow> 'a dgram_slot_scheme \<Rightarrow> ((nat \<times> bytes) option \<times> 'a dgram_slot_scheme) option" where
  "ring_pop blen c =
     (case dgram_rx c of
        None \<Rightarrow> Some (None, c)
      | Some ring \<Rightarrow>
          if ring_is_empty ring then Some (None, c)
          else do {
            lb \<leftarrow> get_slice 0 2 (ring_read_slice ring);
            let len = unat (from_le lb :: u16);
            if len \<le> blen then do {
              d \<leftarrow> get_slice 2 (2 + len) (ring_read_slice ring);
              b \<leftarrow> ring_consume (2 + len) ring;
              Some (Some (len, d), c\<lparr>dgram_rx := Some b\<rparr>)
            } else do {
              b \<leftarrow> ring_consume (2 + len) ring;
              Some (Some (0, []), c\<lparr>dgram_rx := Some b, dgram_rx_dropped := dgram_rx_dropped c + 1\<rparr>)
            }
          })"

section \<open>Both rings are record queues\<close>

lemma from_le_le_bytes [simp]:
  "from_le (le_bytes 2 w) = (w :: u16)" "from_le (le_bytes 4 v) = (v :: u32)"
  by (simp_all add: from_le_def le_bytes_def from_be_be_bytes take_bit_word_eq_self)

lemma length_le_bytes [simp]: "length (le_bytes n w) = n"
  by (simp add: le_bytes_def)

lemma from_be_be_bytes_ip [simp]:
  "from_be (be_bytes 4 a) = (a :: ipv4_addr)" "from_be (be_bytes 16 b) = (b :: ipv6_addr)"
  by (simp_all add: from_be_be_bytes take_bit_word_eq_self)

lemma get_slice_mid: "length a = i \<Longrightarrow> j = i + length b \<Longrightarrow> get_slice i j (a @ b @ c) = Some b"
  by (simp add: get_slice_def)

text \<open>A record carries no flow label: what is read back is the address without it.\<close>

fun clear_flow :: "socket_addr \<Rightarrow> socket_addr" where
  "clear_flow (SockV4 a p) = SockV4 a p"
| "clear_flow (SockV6 a p _ scope) = SockV6 a p 0 scope"

definition tx_encode :: "socket_addr \<times> bytes \<Rightarrow> bytes" where
  "tx_encode r = tx_hdr (fst r) (of_nat (length (snd r))) @ snd r"

definition tx_decode :: "bytes \<Rightarrow> ((socket_addr \<times> bytes) \<times> nat) option" where
  "tx_decode r = (case tx_head r of
     Some (Some (dst, at, len)) \<Rightarrow> map_option (\<lambda>p. ((dst, p), at + len)) (get_slice at (at + len) r)
   | _ \<Rightarrow> None)"

definition tx_fits :: "socket_addr \<times> bytes \<Rightarrow> bool" where
  "tx_fits r \<longleftrightarrow> length (snd r) \<le> 65535 \<and> clear_flow (fst r) = fst r"

lemma tx_hdr_clear_flow [simp]: "tx_hdr (clear_flow dst) len = tx_hdr dst len"
  by (cases dst) (simp_all add: tx_hdr_def)

lemma clear_flow_idem [simp]: "clear_flow (clear_flow dst) = clear_flow dst"
  by (cases dst) simp_all

lemma unat_of_nat_len: "n \<le> 65535 \<Longrightarrow> unat (of_nat n :: u16) = n"
  by (simp add: unat_of_nat)

lemma tx_head_hdr:
  "tx_head (tx_hdr dst len @ xs) = Some (Some (clear_flow dst, length (tx_hdr dst len), unat len))"
proof (cases dst)
  case (SockV4 a p)
  let ?r = "4 # be_bytes 4 a @ le_bytes 2 p @ le_bytes 4 (0 :: u32) @ le_bytes 2 len @ xs"
  have "get_slice 1 5 ?r = Some (be_bytes 4 a)" "get_slice 5 (5 + 2) ?r = Some (le_bytes 2 p)"
    "get_slice (5 + 2) (5 + 6) ?r = Some (le_bytes 4 (0 :: u32))" "get_slice (5 + 6) (5 + 8) ?r = Some (le_bytes 2 len)"
    by (simp_all add: get_slice_def)
  then show ?thesis by (simp add: tx_head_def tx_hdr_def SockV4)
next
  case (SockV6 a p f sc)
  let ?r = "6 # be_bytes 16 a @ le_bytes 2 p @ le_bytes 4 sc @ le_bytes 2 len @ xs"
  have "get_slice 1 17 ?r = Some (be_bytes 16 a)" "get_slice 17 (17 + 2) ?r = Some (le_bytes 2 p)"
    "get_slice (17 + 2) (17 + 6) ?r = Some (le_bytes 4 sc)" "get_slice (17 + 6) (17 + 8) ?r = Some (le_bytes 2 len)"
    by (simp_all add: get_slice_def)
  then show ?thesis by (simp add: tx_head_def tx_hdr_def SockV6)
qed

interpretation txr: record_fifo ring_inv ring_read_slice ring_space ring_capacity ring_append ring_consume
  tx_encode tx_decode tx_fits
proof
  fix r :: "socket_addr \<times> bytes" and xs
  assume "tx_fits r"
  then show "tx_decode (tx_encode r @ xs) = Some (r, length (tx_encode r))"
    by (cases r) (simp add: tx_encode_def tx_decode_def tx_fits_def tx_head_hdr get_slice_mid unat_of_nat_len)
qed (simp add: tx_decode_def tx_head_def)

lemma tx_push_eq:
  assumes "ring_inv ring"
  shows "tx_push dst bs ring = Some ((if fst (txr.rpush (clear_flow dst, bs) ring) then Ok () else Err SendBufFull),
    snd (txr.rpush (clear_flow dst, bs) ring))"
proof -
  let ?hdr = "tx_hdr dst (of_nat (length bs))"
  have two: "do { b \<leftarrow> ring_write_slice 0 ?hdr ring; b \<leftarrow> ring_write_slice (length ?hdr) bs b;
      b \<leftarrow> ring_commit (length ?hdr + length bs) b; Some (Ok (), b) }
    = map_option (\<lambda>b. (Ok (), b)) (ring_append (?hdr @ bs) ring)"
    unfolding ring_append_two [symmetric] by (auto simp: map_option_case split: bind_splits option.splits)
  have enc: "tx_encode (clear_flow dst, bs) = ?hdr @ bs" by (simp add: tx_encode_def)
  have ap: "length ?hdr + length bs \<le> ring_space ring \<Longrightarrow> \<exists>c. ring_append (?hdr @ bs) ring = Some c"
    using ring_append_ok [OF assms, of "?hdr @ bs"] by auto
  show ?thesis
    unfolding tx_push_def txr.rpush_def Let_def two enc using ap by (auto simp: tx_fits_def not_less not_le)
qed

lemma tx_peek_eq: "txr.holds ring rs \<Longrightarrow> tx_peek ring = Some (txr.rpeek ring)"
proof (cases rs)
  case (Cons r rs')
  assume "txr.holds ring rs"
  then have "ring_read_slice ring = tx_encode r @ concat (map tx_encode rs')" "tx_fits r"
    by (auto simp: txr.holds_def Cons)
  then show ?thesis
    by (cases r) (simp add: tx_peek_def txr.rpeek_def tx_decode_def tx_encode_def tx_head_hdr tx_fits_def get_slice_mid unat_of_nat_len)
qed (simp add: txr.holds_def tx_peek_def txr.rpeek_def tx_decode_def tx_head_def)

lemma tx_pop_eq: "txr.holds ring rs \<Longrightarrow> tx_pop ring = txr.rpop ring"
proof (cases rs)
  case (Cons r rs')
  assume "txr.holds ring rs"
  then have "ring_read_slice ring = tx_encode r @ concat (map tx_encode rs')" "tx_fits r"
    by (auto simp: txr.holds_def Cons)
  then show ?thesis
    by (cases r) (simp add: tx_pop_def txr.rpop_def tx_decode_def tx_encode_def tx_head_hdr tx_fits_def get_slice_mid unat_of_nat_len)
qed (simp add: txr.holds_def tx_pop_def txr.rpop_def tx_decode_def tx_head_def)

definition rx_encode :: "bytes \<Rightarrow> bytes" where
  "rx_encode d = le_bytes 2 (of_nat (length d) :: u16) @ d"

definition rx_decode :: "bytes \<Rightarrow> (bytes \<times> nat) option" where
  "rx_decode r = (case get_slice 0 2 r of
     None \<Rightarrow> None
   | Some lb \<Rightarrow> let len = unat (from_le lb :: u16) in
       map_option (\<lambda>d. (d, 2 + len)) (get_slice 2 (2 + len) r))"

interpretation rxr: record_fifo ring_inv ring_read_slice ring_space ring_capacity ring_append ring_consume
  rx_encode rx_decode "\<lambda>d. length d \<le> 65535"
proof
  fix d xs :: bytes
  assume "length d \<le> 65535"
  then show "rx_decode (rx_encode d @ xs) = Some (d, length (rx_encode d))"
    using get_slice_mid [of "[]" 0 2 "le_bytes 2 (of_nat (length d) :: u16)"]
      get_slice_mid [of "le_bytes 2 (of_nat (length d) :: u16)" 2 "2 + length d" d xs]
    by (simp add: rx_encode_def rx_decode_def Let_def unat_of_nat_len)
qed (simp add: rx_decode_def get_slice_def)

lemma ring_push_eq:
  fixes c :: "'a dgram_slot_scheme"
  defines "ring \<equiv> (case dgram_rx c of Some b \<Rightarrow> b | None \<Rightarrow> ring_new RX_RING)"
  assumes "ring_inv ring"
  shows "ring_push data c = Some (let (ok, b) = rxr.rpush data ring in
    (ok, c\<lparr>dgram_rx := Some b, dgram_rx_dropped := dgram_rx_dropped c + (if ok then 0 else 1)\<rparr>))"
proof -
  let ?l = "le_bytes 2 (of_nat (length data) :: u16)"
  have two: "do { b \<leftarrow> ring_write_slice 0 ?l ring; b \<leftarrow> ring_write_slice 2 data b;
      b \<leftarrow> ring_commit (2 + length data) b; Some (True, c\<lparr>dgram_rx := Some b\<rparr>) }
    = map_option (\<lambda>b. (True, c\<lparr>dgram_rx := Some b\<rparr>)) (ring_append (?l @ data) ring)"
    using ring_append_two [of ?l ring data] by (auto simp: map_option_case split: bind_splits option.splits)
  have ap: "2 + length data \<le> ring_space ring \<Longrightarrow> \<exists>b. ring_append (?l @ data) ring = Some b"
    using ring_append_ok [OF assms(2), of "?l @ data"] by auto
  show ?thesis
    unfolding ring_push_def Let_def two rxr.rpush_def rx_encode_def ring_def [symmetric] using ap
    by (auto simp: not_less not_le)
qed

lemma ring_pop_eq:
  assumes "rxr.holds ring rs" and "dgram_rx c = Some ring"
  shows "ring_pop blen c = (case rs of
      [] \<Rightarrow> Some (None, c)
    | d # _ \<Rightarrow> map_option (\<lambda>b. if length d \<le> blen then (Some (length d, d), c\<lparr>dgram_rx := Some b\<rparr>)
        else (Some (0, []), c\<lparr>dgram_rx := Some b, dgram_rx_dropped := dgram_rx_dropped c + 1\<rparr>)) (rxr.rpop ring))"
proof (cases rs)
  case Nil
  with assms show ?thesis using ring_is_empty_iff [of ring] by (simp add: ring_pop_def rxr.holds_def)
next
  case (Cons d rs')
  let ?l = "le_bytes 2 (of_nat (length d) :: u16)" and ?x = "concat (map rx_encode rs')"
  have c: "ring_read_slice ring = ?l @ d @ ?x" "length d \<le> 65535" "ring_inv ring"
    using assms(1) by (auto simp: rxr.holds_def Cons rx_encode_def)
  have "?l \<noteq> []" using length_le_bytes [of 2 "of_nat (length d) :: u16"] by (metis list.size(3) zero_neq_numeral)
  then have ne: "\<not> ring_is_empty ring" using c ring_is_empty_iff [of ring] by simp
  have s: "get_slice 0 2 (?l @ d @ ?x) = Some ?l" "get_slice 2 (2 + length d) (?l @ d @ ?x) = Some d"
    using get_slice_mid [of "[]" 0 2 ?l] get_slice_mid [of ?l 2 "2 + length d" d] by simp_all
  have pop: "rxr.rpop ring = ring_consume (2 + length d) ring"
    using rxr.decode_encode [OF c(2), of ?x] by (simp add: rxr.rpop_def c(1) rx_encode_def)
  show ?thesis
    unfolding ring_pop_def
    by (simp only: assms(2) option.case ne if_False c(1) s bind.bind_lunit Let_def unat_of_nat_len [OF c(2)]
        from_le_le_bytes Cons list.case pop)
      (cases "ring_consume (2 + length d) ring"; simp)
qed

section \<open>Properties\<close>

datatype tx_op = TxPush socket_addr bytes | TxPop

text \<open>A run of the ring: the accepted records, the records popped, and the ring.\<close>

fun tx_run :: "tx_op list \<Rightarrow> ring_buf \<Rightarrow> ((socket_addr \<times> bytes) list \<times> (socket_addr \<times> bytes) list \<times> ring_buf) option" where
  "tx_run [] ring = Some ([], [], ring)"
| "tx_run (TxPush dst bs # ops) ring = do {
     (r, ring) \<leftarrow> tx_push dst bs ring;
     (acc, out, ring) \<leftarrow> tx_run ops ring;
     Some ((if r = Ok () then [(dst, bs)] else []) @ acc, out, ring) }"
| "tx_run (TxPop # ops) ring = do {
     r \<leftarrow> tx_peek ring;
     ring \<leftarrow> tx_pop ring;
     (acc, out, ring) \<leftarrow> tx_run ops ring;
     Some (acc, (case r of None \<Rightarrow> [] | Some r \<Rightarrow> [r]) @ out, ring) }"

definition unflow :: "socket_addr \<times> bytes \<Rightarrow> socket_addr \<times> bytes" where
  "unflow r = (clear_flow (fst r), snd r)"

lemma tx_run_holds:
  assumes "txr.holds ring rs"
  shows "\<exists>acc out ring' left. tx_run ops ring = Some (acc, out, ring') \<and> txr.holds ring' left
    \<and> rs @ map unflow acc = out @ left \<and> ring_capacity ring' = ring_capacity ring"
  using assms
proof (induction ops arbitrary: ring rs)
  case (Cons op ops)
  have inv: "ring_inv ring" using Cons.prems by (simp add: txr.holds_def)
  show ?case
  proof (cases op)
    case (TxPush dst bs)
    obtain ok b where p: "txr.rpush (clear_flow dst, bs) ring = (ok, b)" by fastforce
    have h: "txr.holds b (rs @ (if ok then [(clear_flow dst, bs)] else []))" "ring_capacity b = ring_capacity ring"
      using txr.holds_push [OF Cons.prems, of "(clear_flow dst, bs)"] p Cons.prems by (auto split: if_splits)
    with Cons.IH [OF h(1)] show ?thesis
      by (cases ok) (auto simp: TxPush tx_push_eq [OF inv] p unflow_def)
  next
    case TxPop
    obtain b where b: "txr.rpop ring = Some b" "txr.holds b (tl rs)" "ring_capacity b = ring_capacity ring"
      using txr.holds_pop [OF Cons.prems] by blast
    with Cons.IH [OF b(2)] show ?thesis
      by (cases rs) (auto simp: TxPop tx_peek_eq [OF Cons.prems] tx_pop_eq [OF Cons.prems] txr.holds_peek [OF Cons.prems])
  qed
qed auto



datatype rx_op = RxPush bytes | RxPop nat

text \<open>
  A run of the receive ring: the datagrams accepted, the number refused, and for each successful
  read the buffer length, the count returned and the bytes written.
\<close>

fun rx_run :: "rx_op list \<Rightarrow> 'a dgram_slot_scheme \<Rightarrow> (bytes list \<times> nat \<times> (nat \<times> nat \<times> bytes) list \<times> 'a dgram_slot_scheme) option" where
  "rx_run [] c = Some ([], 0, [], c)"
| "rx_run (RxPush d # ops) c = do {
     (ok, c) \<leftarrow> ring_push d c;
     (acc, refused, out, c) \<leftarrow> rx_run ops c;
     Some ((if ok then [d] else []) @ acc, (if ok then 0 else 1) + refused, out, c) }"
| "rx_run (RxPop blen # ops) c = do {
     (r, c) \<leftarrow> ring_pop blen c;
     (acc, refused, out, c) \<leftarrow> rx_run ops c;
     Some (acc, refused, (case r of None \<Rightarrow> [] | Some nd \<Rightarrow> [(blen, nd)]) @ out, c) }"

definition delivered :: "bytes \<Rightarrow> nat \<times> nat \<times> bytes \<Rightarrow> bool" where
  "delivered d o3 = (case o3 of (blen, n, b) \<Rightarrow> (n, b) = (if length d \<le> blen then (length d, d) else (0, [])))"

definition too_short :: "bytes \<times> nat \<times> nat \<times> bytes \<Rightarrow> bool" where
  "too_short p = (case p of (d, blen, _) \<Rightarrow> blen < length d)"

definition rx_holds :: "'a dgram_slot_scheme \<Rightarrow> bytes list \<Rightarrow> bool" where
  "rx_holds c rs \<longleftrightarrow> (case dgram_rx c of None \<Rightarrow> rs = [] | Some ring \<Rightarrow> rxr.holds ring rs)"

lemma rx_push_holds:
  assumes "rx_holds c rs"
  shows "\<exists>ok c'. ring_push d c = Some (ok, c') \<and> rx_holds c' (rs @ (if ok then [d] else []))
    \<and> dgram_rx_dropped c' = dgram_rx_dropped c + (if ok then 0 else 1)"
proof -
  let ?ring = "case dgram_rx c of Some b \<Rightarrow> b | None \<Rightarrow> ring_new RX_RING"
  have h: "rxr.holds ?ring rs" using assms by (auto simp: rx_holds_def rxr.holds_def split: option.splits)
  then have inv: "ring_inv ?ring" by (simp add: rxr.holds_def)
  obtain ok b where p: "rxr.rpush d ?ring = (ok, b)" by fastforce
  have "rxr.holds b (rs @ (if ok then [d] else []))"
    using rxr.holds_push [OF h, of d] p h by (auto split: if_splits)
  then show ?thesis by (simp add: ring_push_eq [OF inv] p rx_holds_def)
qed

lemma rx_pop_holds:
  assumes "rx_holds c rs"
  shows "case rs of
      [] \<Rightarrow> ring_pop blen c = Some (None, c)
    | d # rs' \<Rightarrow> \<exists>n b c'. ring_pop blen c = Some (Some (n, b), c') \<and> rx_holds c' rs' \<and> delivered d (blen, n, b)
        \<and> dgram_rx_dropped c' = dgram_rx_dropped c + (if too_short (d, blen, n, b) then 1 else 0)"
proof (cases "dgram_rx c")
  case None
  with assms show ?thesis by (simp add: rx_holds_def ring_pop_def)
next
  case (Some ring)
  then have h: "rxr.holds ring rs" using assms by (simp add: rx_holds_def)
  obtain b where b: "rxr.rpop ring = Some b" "rxr.holds b (tl rs)" using rxr.holds_pop [OF h] by blast
  show ?thesis using b
    by (cases rs) (auto simp: ring_pop_eq [OF h Some] rx_holds_def delivered_def too_short_def)
qed

definition rx_ok :: "bytes list \<Rightarrow> u64 \<Rightarrow> (bytes list \<times> nat \<times> (nat \<times> nat \<times> bytes) list \<times> 'a dgram_slot_scheme) option \<Rightarrow> bool" where
  "rx_ok rs n0 res \<longleftrightarrow> (\<exists>acc refused out c' taken left. res = Some (acc, refused, out, c') \<and> rx_holds c' left
     \<and> rs @ acc = taken @ left \<and> list_all2 delivered taken out
     \<and> dgram_rx_dropped c' = n0 + of_nat (refused + length (filter too_short (zip taken out))))"

lemma rx_ok_push:
  assumes "ring_push d c = Some (ok, c1)" and "dgram_rx_dropped c1 = dgram_rx_dropped c + (if ok then 0 else 1)"
    and "rx_ok (rs @ (if ok then [d] else [])) (dgram_rx_dropped c1) (rx_run ops c1)"
  shows "rx_ok rs (dgram_rx_dropped c) (rx_run (RxPush d # ops) c)"
proof -
  from assms(3) obtain acc refused out c' taken left where
    ih: "rx_run ops c1 = Some (acc, refused, out, c')" "rx_holds c' left"
      "(rs @ (if ok then [d] else [])) @ acc = taken @ left" "list_all2 delivered taken out"
      "dgram_rx_dropped c' = dgram_rx_dropped c1 + of_nat (refused + length (filter too_short (zip taken out)))"
    unfolding rx_ok_def by blast
  let ?a = "(if ok then [d] else []) @ acc" and ?f = "(if ok then 0 else 1) + refused"
  have "rx_run (RxPush d # ops) c = Some (?a, ?f, out, c')" by (simp add: assms(1) ih(1))
  moreover have "dgram_rx_dropped c' = dgram_rx_dropped c + of_nat (?f + length (filter too_short (zip taken out)))"
    using ih(5) assms(2) by (cases ok) simp_all
  moreover have "rs @ ?a = taken @ left" using ih(3) by simp
  ultimately show ?thesis using ih(2,4) unfolding rx_ok_def by blast
qed

lemma rx_ok_pop:
  assumes "ring_pop blen c = Some (Some (n, b), c1)" and "delivered d (blen, n, b)"
    and "dgram_rx_dropped c1 = dgram_rx_dropped c + (if too_short (d, blen, n, b) then 1 else 0)"
    and "rx_ok rs (dgram_rx_dropped c1) (rx_run ops c1)"
  shows "rx_ok (d # rs) (dgram_rx_dropped c) (rx_run (RxPop blen # ops) c)"
proof -
  from assms(4) obtain acc refused out c' taken left where
    ih: "rx_run ops c1 = Some (acc, refused, out, c')" "rx_holds c' left" "rs @ acc = taken @ left"
      "list_all2 delivered taken out"
      "dgram_rx_dropped c' = dgram_rx_dropped c1 + of_nat (refused + length (filter too_short (zip taken out)))"
    unfolding rx_ok_def by blast
  let ?o = "(blen, n, b) # out"
  have "rx_run (RxPop blen # ops) c = Some (acc, refused, ?o, c')" by (simp add: assms(1) ih(1))
  moreover have "(d # rs) @ acc = (d # taken) @ left" using ih(3) by simp
  moreover have "list_all2 delivered (d # taken) ?o" using assms(2) ih(4) by simp
  moreover have "dgram_rx_dropped c' = dgram_rx_dropped c
      + of_nat (refused + length (filter too_short (zip (d # taken) ?o)))" using ih(5) assms(3) by simp
  ultimately show ?thesis using ih(2) unfolding rx_ok_def by blast
qed

lemma rx_run_holds: "rx_holds c rs \<Longrightarrow> rx_ok rs (dgram_rx_dropped c) (rx_run ops c)"
proof (induction ops arbitrary: c rs)
  case Nil
  have "rx_run [] c = Some ([], 0, [], c)" "rs @ [] = [] @ rs" by simp_all
  with Nil show ?case unfolding rx_ok_def by fastforce
next
  case (Cons op ops)
  show ?case
  proof (cases op)
    case (RxPush d)
    obtain ok c1 where "ring_push d c = Some (ok, c1)" "rx_holds c1 (rs @ (if ok then [d] else []))"
      "dgram_rx_dropped c1 = dgram_rx_dropped c + (if ok then 0 else 1)" using rx_push_holds [OF Cons.prems, of d] by blast
    then show ?thesis unfolding RxPush using Cons.IH by (intro rx_ok_push)
  next
    case (RxPop blen)
    note pop = rx_pop_holds [OF Cons.prems, of blen]
    show ?thesis
    proof (cases rs)
      case Nil
      then show ?thesis using pop Cons.IH [OF Cons.prems] by (auto simp: RxPop rx_ok_def)
    next
      case (Cons d rs')
      with pop obtain n b c1 where "ring_pop blen c = Some (Some (n, b), c1)" "rx_holds c1 rs'" "delivered d (blen, n, b)"
        "dgram_rx_dropped c1 = dgram_rx_dropped c + (if too_short (d, blen, n, b) then 1 else 0)" by auto
      then show ?thesis unfolding RxPop Cons using Cons.IH by (intro rx_ok_pop)
    qed
  qed
qed


end
