(* ===== verification/Slot_Table.thy ===== *)
theory Slot_Table
  imports Ring_Buf
begin

unbundle bit_operations_syntax

text \<open>
  Generational ids, \<^verbatim>\<open>crates/mq-transport-api/src/ids.rs\<close>, and the slot tables of the transport,
  \<^verbatim>\<open>crates/mq-transport/src/slots.rs\<close>. A vector is a list whose last element is the top; an index out of
  range, where Rust panics, is \<open>None\<close>.

  The contract of a table is the locale \<open>id_table\<close>: its content is a finite map from ids, an insertion
  binds an id that was not bound, and a removal unbinds one id.
\<close>

section \<open>Ids, \<open>ids.rs\<close>\<close>

type_synonym slot_id = u64

definition slot_none :: slot_id where "slot_none = 0"

definition slot_new :: "u32 \<Rightarrow> u32 \<Rightarrow> slot_id" where
  "slot_new index gen = (push_bit 32 (ucast gen)) OR (ucast index)"

definition slot_index :: "slot_id \<Rightarrow> u32" where
  "slot_index s = ucast s"

definition slot_generation :: "slot_id \<Rightarrow> u32" where
  "slot_generation s = ucast (drop_bit 32 s)"

definition slot_is_none :: "slot_id \<Rightarrow> bool" where
  "slot_is_none s \<longleftrightarrow> s = 0"

text \<open>\<open>gen_id!\<close>: connections, streams and H3 requests are named by an index and a nonzero generation.\<close>

datatype gen_id = GenId (id_index: u32) (id_generation: u32)

type_synonym conn_id = gen_id
type_synonym stream_id = gen_id
type_synonym h3_req_id = gen_id
type_synonym path_id = u64
type_synonym tx_key = "conn_id option \<times> path_id"

definition from_slot :: "slot_id \<Rightarrow> gen_id option" where
  "from_slot s = (if slot_generation s = 0 then None else Some (GenId (slot_index s) (slot_generation s)))"

definition id_slot :: "gen_id \<Rightarrow> slot_id" where
  "id_slot i = slot_new (id_index i) (id_generation i)"

text \<open>The derived order: by index, then by generation.\<close>

instantiation gen_id :: linorder
begin

definition less_eq_gen_id :: "gen_id \<Rightarrow> gen_id \<Rightarrow> bool" where
  "less_eq_gen_id a b \<longleftrightarrow> id_index a < id_index b \<or> id_index a = id_index b \<and> id_generation a \<le> id_generation b"

definition less_gen_id :: "gen_id \<Rightarrow> gen_id \<Rightarrow> bool" where
  "less_gen_id a b \<longleftrightarrow> id_index a < id_index b \<or> id_index a = id_index b \<and> id_generation a < id_generation b"

instance
  by standard (auto simp: less_eq_gen_id_def less_gen_id_def gen_id.expand)

end

section \<open>The table, \<open>slots.rs\<close>\<close>

record 'a entry =
  e_generation :: u32
  e_value :: "'a option"

record 'a slots =
  s_entries :: "'a entry list"
  s_free :: "u32 list"

definition slots_default :: "'a slots" where
  "slots_default = \<lparr>s_entries = [], s_free = []\<rparr>"

definition slots_insert :: "'a \<Rightarrow> 'a slots \<Rightarrow> (slot_id \<times> 'a slots) option" where
  "slots_insert v s =
     (if s_free s \<noteq> [] then
        let i = last (s_free s) in
        if unat i < length (s_entries s) then
          let e = (s_entries s ! unat i)\<lparr>e_value := Some v\<rparr> in
          Some (slot_new i (e_generation e), \<lparr>s_entries = (s_entries s)[unat i := e], s_free = butlast (s_free s)\<rparr>)
        else None
      else Some (slot_new (of_nat (length (s_entries s))) 1,
                 s\<lparr>s_entries := s_entries s @ [\<lparr>e_generation = 1, e_value = Some v\<rparr>]\<rparr>))"

definition slots_get :: "slot_id \<Rightarrow> 'a slots \<Rightarrow> 'a option" where
  "slots_get sid s =
     (let i = unat (slot_index sid) in
      if i < length (s_entries s) \<and> e_generation (s_entries s ! i) = slot_generation sid
      then e_value (s_entries s ! i) else None)"

text \<open>\<open>get_mut\<close> followed by an update of the value, when there is one.\<close>

definition slots_modify :: "slot_id \<Rightarrow> ('a \<Rightarrow> 'a) \<Rightarrow> 'a slots \<Rightarrow> 'a slots" where
  "slots_modify sid f s =
     (let i = unat (slot_index sid) in
      if i < length (s_entries s) \<and> e_generation (s_entries s ! i) = slot_generation sid
      then s\<lparr>s_entries := (s_entries s)[i := (s_entries s ! i)\<lparr>e_value := map_option f (e_value (s_entries s ! i))\<rparr>]\<rparr>
      else s)"

definition next_generation :: "u32 \<Rightarrow> u32" where
  "next_generation g = (if g + 1 = 0 then 1 else g + 1)"

definition slots_remove :: "slot_id \<Rightarrow> 'a slots \<Rightarrow> 'a option \<times> 'a slots" where
  "slots_remove sid s =
     (let i = unat (slot_index sid) in
      if i < length (s_entries s) \<and> e_generation (s_entries s ! i) = slot_generation sid then
        (case e_value (s_entries s ! i) of
           None \<Rightarrow> (None, s)
         | Some v \<Rightarrow>
             (Some v, \<lparr>s_entries = (s_entries s)[i := \<lparr>e_generation = next_generation (e_generation (s_entries s ! i)), e_value = None\<rparr>],
                       s_free = s_free s @ [slot_index sid]\<rparr>))
      else (None, s))"

definition slots_is_live :: "slot_id \<Rightarrow> 'a slots \<Rightarrow> bool" where
  "slots_is_live sid s \<longleftrightarrow> slots_get sid s \<noteq> None"

definition slots_iter_live :: "'a slots \<Rightarrow> (slot_id \<times> 'a) list" where
  "slots_iter_live s =
     List.map_filter (\<lambda>(i, e). map_option (\<lambda>v. (slot_new (of_nat i) (e_generation e), v)) (e_value e))
       (enumerate 0 (s_entries s))"

section \<open>Slot contents\<close>

datatype conn_proto = ProtoRaw | ProtoH3
datatype stream_kind = Bidi | Uni

text \<open>Pointers into xquic are 64-bit addresses, null being 0; connection ids are their bytes.\<close>

record conn_slot = dgram_slot +
  cs_xqc :: u64
  cs_cid :: bytes
  cs_counted :: bool
  cs_server :: bool
  cs_proto :: conn_proto
  cs_provisional :: bool
  cs_provisional_deadline :: "time option"
  cs_streams :: u32
  cs_authed :: bool
  cs_evicting :: bool
  cs_admitted :: u64
  cs_pending_close :: "u64 option"
  cs_closed_locally :: bool
  cs_mp_ready_queued :: bool
  cs_dgram_readable_queued :: bool

definition conn_slot_new :: "bool \<Rightarrow> u64 \<Rightarrow> bytes \<Rightarrow> conn_slot" where
  "conn_slot_new server xqc cid =
     \<lparr>dgram_rx = None, dgram_rx_dropped = 0, cs_xqc = xqc, cs_cid = cid, cs_counted = False, cs_server = server,
      cs_proto = ProtoRaw, cs_provisional = False, cs_provisional_deadline = None, cs_streams = 0,
      cs_authed = False, cs_evicting = False, cs_admitted = 0, cs_pending_close = None,
      cs_closed_locally = False, cs_mp_ready_queued = False, cs_dgram_readable_queued = False\<rparr>"

record stream_slot =
  ss_xqc :: u64
  ss_conn :: slot_id
  ss_quic_id :: u64
  ss_kind :: stream_kind
  ss_readable_queued :: bool
  ss_writable_queued :: bool
  ss_fin_seen :: bool
  ss_abandoned :: bool
  ss_peer_reset_reported :: bool
  ss_stop_sending_reported :: bool

definition stream_slot_new :: "slot_id \<Rightarrow> u64 \<Rightarrow> u64 \<Rightarrow> stream_kind \<Rightarrow> stream_slot" where
  "stream_slot_new conn xqc quic_id kind =
     \<lparr>ss_xqc = xqc, ss_conn = conn, ss_quic_id = quic_id, ss_kind = kind, ss_readable_queued = False,
      ss_writable_queued = False, ss_fin_seen = False, ss_abandoned = False,
      ss_peer_reset_reported = False, ss_stop_sending_reported = False\<rparr>"

section \<open>Lemmas on ids\<close>

lemma slot_index_new [simp]: "slot_index (slot_new i g) = i"
  by (rule bit_word_eqI) (auto simp: slot_index_def slot_new_def bit_simps)

lemma slot_generation_new [simp]: "slot_generation (slot_new i g) = g"
  by (rule bit_word_eqI) (auto simp: slot_generation_def slot_new_def bit_simps dest: bit_imp_le_length)

lemma slot_new_parts [simp]: "slot_new (slot_index s) (slot_generation s) = s"
  by (rule bit_word_eqI) (auto simp: slot_index_def slot_generation_def slot_new_def bit_simps)

lemma slot_eq_iff: "s = t \<longleftrightarrow> slot_index s = slot_index t \<and> slot_generation s = slot_generation t"
  by (metis slot_new_parts)

lemma from_slot_id_slot: "id_generation i \<noteq> 0 \<Longrightarrow> from_slot (id_slot i) = Some i"
  by (cases i) (simp add: from_slot_def id_slot_def)

lemma id_slot_from_slot: "from_slot s = Some i \<Longrightarrow> id_slot i = s \<and> \<not> slot_is_none s"
  by (auto simp: from_slot_def id_slot_def slot_is_none_def split: if_splits) (simp add: slot_generation_def)

section \<open>The table as a finite map\<close>

definition slots_inv :: "'a slots \<Rightarrow> bool" where
  "slots_inv s \<longleftrightarrow> distinct (s_free s) \<and> length (s_entries s) \<le> 2 ^ 32
     \<and> (\<forall>i \<in> set (s_free s). unat i < length (s_entries s) \<and> e_value (s_entries s ! unat i) = None)
     \<and> (\<forall>k < length (s_entries s). e_generation (s_entries s ! k) \<noteq> 0
          \<and> (e_value (s_entries s ! k) = None \<longrightarrow> of_nat k \<in> set (s_free s)))"

definition slots_room :: "'a slots \<Rightarrow> bool" where
  "slots_room s \<longleftrightarrow> s_free s \<noteq> [] \<or> length (s_entries s) < 2 ^ 32"

locale id_table =
  fixes inv :: "'t \<Rightarrow> bool" and room :: "'t \<Rightarrow> bool" and get :: "slot_id \<Rightarrow> 't \<Rightarrow> 'v option"
    and insert_v :: "'v \<Rightarrow> 't \<Rightarrow> (slot_id \<times> 't) option" and remove :: "slot_id \<Rightarrow> 't \<Rightarrow> 'v option \<times> 't"
    and modify :: "slot_id \<Rightarrow> ('v \<Rightarrow> 'v) \<Rightarrow> 't \<Rightarrow> 't"
  assumes insert_law: "inv t \<Longrightarrow> room t \<Longrightarrow> \<exists>i u. insert_v v t = Some (i, u) \<and> inv u \<and> get i t = None
      \<and> slot_generation i \<noteq> 0 \<and> (\<lambda>j. get j u) = (\<lambda>j. get j t)(i \<mapsto> v)"
    and remove_law: "inv t \<Longrightarrow> fst (remove i t) = get i t \<and> inv (snd (remove i t))
      \<and> (\<lambda>j. get j (snd (remove i t))) = (\<lambda>j. get j t)(i := None)"
    and modify_law: "inv t \<Longrightarrow> inv (modify i f t)
      \<and> (\<lambda>j. get j (modify i f t)) = (\<lambda>j. get j t)(i := map_option f (get i t))"
begin

text \<open>What a client relies on: a handle keeps naming its value until it is removed, whatever else happens.\<close>

lemma insert_keeps: "inv t \<Longrightarrow> room t \<Longrightarrow> get j t = Some w \<Longrightarrow>
  \<exists>i u. insert_v v t = Some (i, u) \<and> i \<noteq> j \<and> get j u = Some w \<and> get i u = Some v"
  using insert_law [of t v] by (metis fun_upd_apply option.distinct(1))

lemma remove_keeps: "inv t \<Longrightarrow> i \<noteq> j \<Longrightarrow> get j (snd (remove i t)) = get j t"
  using remove_law [of t i] by (metis fun_upd_other)

lemma remove_gone: "inv t \<Longrightarrow> get i (snd (remove i t)) = None"
  using remove_law [of t i] by (metis fun_upd_same)

lemma modify_get: "inv t \<Longrightarrow> get j (modify i f t) = (if j = i then map_option f (get i t) else get j t)"
  using modify_law [of t i f] by (metis fun_upd_apply)

lemma modify_inv: "inv t \<Longrightarrow> inv (modify i f t)"
  using modify_law by blast

end

lemma next_generation_nonzero: "next_generation g \<noteq> 0"
  by (simp add: next_generation_def)

lemma slots_inv_default [simp]: "slots_inv slots_default"
  by (simp add: slots_inv_def slots_default_def)

lemma index_eq_of_nat: "k < 2 ^ 32 \<Longrightarrow> unat i = k \<longleftrightarrow> i = (of_nat k :: u32)"
  by (auto simp: unat_of_nat take_bit_nat_eq_self)

lemma index_of_nat: "k < n \<Longrightarrow> n \<le> 2 ^ 32 \<Longrightarrow> unat (of_nat k :: u32) = k"
  using index_eq_of_nat [of k "of_nat k"] by simp

lemma slots_insert_reuse:
  fixes s :: "'a slots" and v :: 'a
  assumes "slots_inv s" and "s_free s \<noteq> []"
  defines "i \<equiv> last (s_free s)"
  defines "t \<equiv> \<lparr>s_entries = (s_entries s)[unat i := (s_entries s ! unat i)\<lparr>e_value := Some v\<rparr>], s_free = butlast (s_free s)\<rparr>"
  shows "slots_insert v s = Some (slot_new i (e_generation (s_entries s ! unat i)), t)" and "slots_inv t"
    and "slots_get j t = (if j = slot_new i (e_generation (s_entries s ! unat i)) then Some v else slots_get j s)"
    and "e_value (s_entries s ! unat i) = None" and "e_generation (s_entries s ! unat i) \<noteq> 0" and "unat i < length (s_entries s)"
proof -
  have i: "i \<in> set (s_free s)" using assms(2) by (simp add: i_def)
  with assms(1) show b: "unat i < length (s_entries s)" and n: "e_value (s_entries s ! unat i) = None"
    and "e_generation (s_entries s ! unat i) \<noteq> 0" by (auto simp: slots_inv_def)
  show "slots_insert v s = Some (slot_new i (e_generation (s_entries s ! unat i)), t)"
    using assms(2) b by (simp add: slots_insert_def Let_def t_def i_def)
  have d: "s_free s = butlast (s_free s) @ [i]" using assms(2) by (simp add: i_def)
  have "distinct (s_free s)" using assms(1) by (simp add: slots_inv_def)
  then have "distinct (butlast (s_free s))" "i \<notin> set (butlast (s_free s))"
    using arg_cong [OF d, of distinct] by simp_all
  moreover have "set (s_free s) = insert i (set (butlast (s_free s)))" using arg_cong [OF d, of set] by simp
  ultimately have fr: "set (butlast (s_free s)) = set (s_free s) - {i}" "distinct (butlast (s_free s))" by simp_all
  have n32: "unat (of_nat k :: u32) = k" if "k < length (s_entries s)" for k
    using index_of_nat [OF that] assms(1) by (simp add: slots_inv_def)
  have inj: "unat a = unat c \<Longrightarrow> a = c" for a c :: u32 by (rule unsigned_word_eqI)
  let ?v = "\<lambda>k. e_value (s_entries t ! k)"
  have v: "?v k = (if k = unat i then Some v else e_value (s_entries s ! k))"
    "e_generation (s_entries t ! k) = e_generation (s_entries s ! k)" if "k < length (s_entries s)" for k
    using that by (cases "k = unat i"; simp add: t_def)+
  have a1: "unat a < length (s_entries s) \<and> ?v (unat a) = None" if "a \<in> set (s_free t)" for a
  proof -
    have "a \<in> set (s_free s)" "a \<noteq> i" using that by (simp_all add: t_def fr)
    then show ?thesis using assms(1) inj [of a i] v [of "unat a"] by (auto simp: slots_inv_def t_def)
  qed
  have a2: "of_nat k \<in> set (s_free t)" if "k < length (s_entries s)" "?v k = None" for k
  proof -
    have "k \<noteq> unat i" "e_value (s_entries s ! k) = None"
      using v(1) [OF that(1)] unfolding that(2) by (simp_all split: if_splits)
    then have "of_nat k \<in> set (s_free s)" "of_nat k \<noteq> i"
      using assms(1) that(1) n32 [OF that(1)] by (auto simp: slots_inv_def)
    then show ?thesis by (simp add: t_def fr)
  qed
  have a3: "e_generation (s_entries t ! k) \<noteq> 0" if "k < length (s_entries s)" for k
    using that v [OF that] assms(1) by (simp add: slots_inv_def)
  have a4: "distinct (s_free t)" "length (s_entries t) = length (s_entries s)" "length (s_entries s) \<le> 2 ^ 32"
    using fr assms(1) by (simp_all add: t_def slots_inv_def)
  show "slots_inv t" unfolding slots_inv_def a4(2) using a1 a2 a3 a4(1,3) by blast
  show "slots_get j t = (if j = slot_new i (e_generation (s_entries s ! unat i)) then Some v else slots_get j s)"
  proof (cases "slot_index j = i")
    case True
    with b n show ?thesis unfolding slot_eq_iff [of j] by (simp add: slots_get_def t_def Let_def)
  next
    case False
    then have "unat (slot_index j) \<noteq> unat i" "j \<noteq> slot_new i (e_generation (s_entries s ! unat i))" using inj by auto
    then show ?thesis by (simp add: slots_get_def t_def Let_def)
  qed
qed

lemma slots_insert_grow:
  fixes s :: "'a slots" and v :: 'a
  assumes "slots_inv s" and "s_free s = []" and "length (s_entries s) < 2 ^ 32"
  defines "t \<equiv> s\<lparr>s_entries := s_entries s @ [\<lparr>e_generation = 1, e_value = Some v\<rparr>]\<rparr>"
  defines "i \<equiv> slot_new (of_nat (length (s_entries s))) 1"
  shows "slots_insert v s = Some (i, t)" and "slots_inv t"
    and "slots_get j t = (if j = i then Some v else slots_get j s)" and "slots_get i s = None"
proof -
  let ?n = "length (s_entries s)"
  have u: "unat (of_nat ?n :: u32) = ?n" using index_eq_of_nat [OF assms(3)] by blast
  show "slots_insert v s = Some (i, t)" using assms(2) by (simp add: slots_insert_def t_def i_def)
  have "e_generation (s_entries t ! k) \<noteq> 0 \<and> e_value (s_entries t ! k) \<noteq> None" if "k < Suc ?n" for k
    using that assms(1,2) by (cases "k = ?n") (auto simp: slots_inv_def t_def nth_append)
  then show "slots_inv t" using assms(2,3) by (simp add: slots_inv_def t_def)
  show "slots_get j t = (if j = i then Some v else slots_get j s)"
  proof (cases "unat (slot_index j) = ?n")
    case True
    then have "slot_index j = of_nat ?n" using index_eq_of_nat [OF assms(3)] by blast
    with True show ?thesis by (simp add: slots_get_def t_def i_def Let_def slot_eq_iff)
  next
    case False
    then have "j \<noteq> i" using u by (auto simp: i_def)
    with False show ?thesis by (simp add: slots_get_def t_def Let_def nth_append less_Suc_eq)
  qed
  show "slots_get i s = None" by (simp add: slots_get_def i_def u Let_def)
qed

lemma slots_remove_live:
  fixes t :: "'a slots"
  assumes inv: "slots_inv t" and get: "slots_get i t = Some v"
  defines "k \<equiv> unat (slot_index i)"
  defines "u \<equiv> \<lparr>s_entries = (s_entries t)[k := \<lparr>e_generation = next_generation (slot_generation i), e_value = None\<rparr>],
      s_free = s_free t @ [slot_index i]\<rparr>"
  shows "slots_remove i t = (Some v, u)" and "slots_inv u"
    and "slots_get j u = (if j = i then None else slots_get j t)"
proof -
  have b: "k < length (s_entries t)" "e_generation (s_entries t ! k) = slot_generation i"
    "e_value (s_entries t ! k) = Some v" using get by (auto simp: slots_get_def Let_def k_def split: if_splits)
  show "slots_remove i t = (Some v, u)" using b by (simp add: slots_remove_def Let_def u_def k_def)
  have "slot_index i \<notin> set (s_free t)" using inv b by (auto simp: slots_inv_def k_def)
  then show "slots_inv u"
    using inv b next_generation_nonzero by (auto simp: slots_inv_def nth_list_update u_def k_def)
  show "slots_get j u = (if j = i then None else slots_get j t)"
  proof (cases "slot_index j = slot_index i")
    case True
    with b show ?thesis unfolding slot_eq_iff [of j] by (simp add: slots_get_def Let_def u_def k_def)
  next
    case False
    then have "unat (slot_index j) \<noteq> k" "j \<noteq> i" by (auto simp: k_def dest: unsigned_word_eqI)
    then show ?thesis by (simp add: slots_get_def u_def Let_def)
  qed
qed

lemma slots_modify_get:
  "slots_get j (slots_modify i f t) = (if j = i then map_option f (slots_get i t) else slots_get j t)"
proof (cases "unat (slot_index j) = unat (slot_index i)")
  case True
  then have "slot_index j = slot_index i" by (rule unsigned_word_eqI)
  then show ?thesis unfolding slot_eq_iff [of j] by (auto simp: slots_get_def slots_modify_def Let_def)
next
  case False
  then show ?thesis by (auto simp: slots_get_def slots_modify_def Let_def)
qed

lemma slots_modify_inv:
  assumes "slots_inv t"
  shows "slots_inv (slots_modify i f t)"
proof -
  have "s_free (slots_modify i f t) = s_free t" "length (s_entries (slots_modify i f t)) = length (s_entries t)"
    by (simp_all add: slots_modify_def Let_def)
  moreover have "(e_value (s_entries (slots_modify i f t) ! k) = None) = (e_value (s_entries t ! k) = None)
      \<and> e_generation (s_entries (slots_modify i f t) ! k) = e_generation (s_entries t ! k)" for k
    by (cases "k = unat (slot_index i)") (auto simp: slots_modify_def Let_def)
  ultimately show ?thesis using assms by (simp add: slots_inv_def)
qed

interpretation slot: id_table slots_inv slots_room slots_get slots_insert slots_remove slots_modify
proof
  fix t :: "'a slots" and v
  assume "slots_inv t" "slots_room t"
  show "\<exists>i u. slots_insert v t = Some (i, u) \<and> slots_inv u \<and> slots_get i t = None
      \<and> slot_generation i \<noteq> 0 \<and> (\<lambda>j. slots_get j u) = (\<lambda>j. slots_get j t)(i \<mapsto> v)"
  proof (cases "s_free t = []")
    case True
    then have "length (s_entries t) < 2 ^ 32" using \<open>slots_room t\<close> by (simp add: slots_room_def)
    from slots_insert_grow(1-3) [OF \<open>slots_inv t\<close> True this, where v = v] slots_insert_grow(4) [OF \<open>slots_inv t\<close> True this]
    show ?thesis by (simp add: fun_eq_iff)
  next
    case False
    let ?i = "last (s_free t)"
    have "slots_get (slot_new ?i (e_generation (s_entries t ! unat ?i))) t = None"
      using slots_insert_reuse(4) [OF \<open>slots_inv t\<close> False] by (simp add: slots_get_def Let_def)
    with slots_insert_reuse(1-3) [OF \<open>slots_inv t\<close> False, where v = v] slots_insert_reuse(5) [OF \<open>slots_inv t\<close> False]
    show ?thesis by (simp add: fun_eq_iff)
  qed
next
  fix t :: "'a slots" and i
  assume inv: "slots_inv t"
  show "fst (slots_remove i t) = slots_get i t \<and> slots_inv (snd (slots_remove i t))
      \<and> (\<lambda>j. slots_get j (snd (slots_remove i t))) = (\<lambda>j. slots_get j t)(i := None)"
  proof (cases "slots_get i t")
    case None
    then have "slots_remove i t = (None, t)" by (auto simp: slots_get_def slots_remove_def Let_def split: if_splits)
    with None inv show ?thesis by (auto simp: fun_eq_iff)
  next
    case (Some v)
    with slots_remove_live [OF inv Some] show ?thesis by (simp add: fun_eq_iff)
  qed
next
  fix t :: "'a slots" and i f
  assume "slots_inv t"
  then show "slots_inv (slots_modify i f t)
      \<and> (\<lambda>j. slots_get j (slots_modify i f t)) = (\<lambda>j. slots_get j t)(i := map_option f (slots_get i t))"
    by (simp add: fun_eq_iff slots_modify_get slots_modify_inv)
qed

section \<open>Stale ids\<close>

datatype 'a slot_op = SInsert 'a | SRemove slot_id

fun slots_run :: "'a slot_op list \<Rightarrow> 'a slots \<Rightarrow> 'a slots option" where
  "slots_run [] s = Some s"
| "slots_run (SInsert v # ops) s = (case slots_insert v s of None \<Rightarrow> None | Some (_, s) \<Rightarrow> slots_run ops s)"
| "slots_run (SRemove i # ops) s = slots_run ops (snd (slots_remove i s))"

lemma unat_next_generation: "g \<noteq> 0 \<Longrightarrow> unat (next_generation g) = unat g mod (2 ^ 32 - 1) + 1"
proof (cases "g + 1 = 0")
  case True
  then have "g = - 1" by (simp add: add_eq_0_iff2)
  then show ?thesis by (simp add: next_generation_def unsigned_minus_1_eq_mask mask_eq_exp_minus_1)
next
  case False
  then have u: "unat (g + 1) = unat g + 1" using unatSuc [of g] by (simp add: add.commute)
  moreover have "unat (g + 1) < 2 ^ 32" using unsigned_less [of "g + 1"] by simp
  ultimately have "unat g < 2 ^ 32 - 1" by simp
  with False u show ?thesis by (simp add: next_generation_def)
qed

lemma unat_next_generation_pow:
  assumes "g \<noteq> 0"
  shows "unat ((next_generation ^^ m) g) = (unat g - 1 + m) mod (2 ^ 32 - 1) + 1"
proof (induction m)
  case 0
  have "0 < unat g" "unat g < 2 ^ 32" using assms unsigned_less [of g] by (simp_all add: unat_gt_0)
  then have "unat g - 1 < 2 ^ 32 - 1" "unat g - 1 + 1 = unat g" by linarith+
  then show ?case by simp
next
  case (Suc m)
  have "(next_generation ^^ m) g \<noteq> 0" using assms next_generation_nonzero by (cases m) auto
  then have "unat ((next_generation ^^ Suc m) g) = unat ((next_generation ^^ m) g) mod (2 ^ 32 - 1) + 1"
    by (simp add: unat_next_generation)
  also have "\<dots> = (unat g - 1 + Suc m) mod (2 ^ 32 - 1) + 1" unfolding Suc.IH by (simp add: mod_Suc_eq)
  finally show ?case .
qed

lemma next_generation_no_wrap:
  assumes "g \<noteq> 0" and "0 < m" and "m < 2 ^ 32 - 1"
  shows "(next_generation ^^ m) g \<noteq> g"
proof
  assume "(next_generation ^^ m) g = g"
  then have "unat ((next_generation ^^ m) g) = unat ((next_generation ^^ 0) g)" by simp
  then have "(unat g - 1 + m) mod (2 ^ 32 - 1) = (unat g - 1) mod (2 ^ 32 - 1)"
    by (simp only: unat_next_generation_pow [OF assms(1)] add_right_cancel add_0_right)
  then have "(2 ^ 32 - 1) dvd m" by (metis add_diff_cancel_left' le_add1 mod_eq_dvd_iff_nat)
  with assms(2,3) show False by (auto dest: nat_dvd_not_less)
qed

text \<open>One operation moves the generation of a slot at most one step.\<close>

lemma slots_insert_generation:
  assumes "slots_insert v s = Some (i, t)" and "k < length (s_entries s)"
  shows "k < length (s_entries t) \<and> e_generation (s_entries t ! k) = e_generation (s_entries s ! k)"
  using assms by (auto simp: slots_insert_def Let_def nth_list_update nth_append split: if_splits)

lemma slots_remove_generation:
  assumes "k < length (s_entries s)"
  shows "k < length (s_entries (snd (slots_remove i s))) \<and>
    (\<exists>m \<le> 1. e_generation (s_entries (snd (slots_remove i s)) ! k) = (next_generation ^^ m) (e_generation (s_entries s ! k)))"
proof (cases "slots_remove i s = (None, s)")
  case True
  with assms show ?thesis by (auto intro: exI [of _ 0])
next
  case False
  then have "s_entries (snd (slots_remove i s)) = (s_entries s)
      [unat (slot_index i) := \<lparr>e_generation = next_generation (e_generation (s_entries s ! unat (slot_index i))), e_value = None\<rparr>]"
    by (auto simp: slots_remove_def Let_def split: option.splits if_splits)
  with assms show ?thesis
    by (cases "k = unat (slot_index i)") (auto intro: exI [of _ 1] exI [of _ 0])
qed

lemma slots_run_generation:
  "slots_run ops s = Some t \<Longrightarrow> k < length (s_entries s) \<Longrightarrow> k < length (s_entries t) \<and>
   (\<exists>m \<le> length ops. e_generation (s_entries t ! k) = (next_generation ^^ m) (e_generation (s_entries s ! k)))"
proof (induction ops arbitrary: s)
  case (Cons op ops)
  obtain u m where u: "slots_run ops u = Some t" "k < length (s_entries u)" "m \<le> 1"
    "e_generation (s_entries u ! k) = (next_generation ^^ m) (e_generation (s_entries s ! k))"
  proof (cases op)
    case (SInsert v)
    with Cons.prems(1) obtain i w where w: "slots_insert v s = Some (i, w)" "slots_run ops w = Some t"
      by (auto split: option.splits)
    with slots_insert_generation [OF w(1) Cons.prems(2)] show ?thesis by (intro that [of w 0]) auto
  next
    case (SRemove i)
    with Cons.prems slots_remove_generation [OF Cons.prems(2), of i] that show ?thesis by fastforce
  qed
  from Cons.IH [OF u(1,2)] obtain n where "k < length (s_entries t)" "n \<le> length ops"
    "e_generation (s_entries t ! k) = (next_generation ^^ n) ((next_generation ^^ m) (e_generation (s_entries s ! k)))"
    using u(4) by auto
  then show ?case using u(3) by (auto simp: funpow_add [symmetric, THEN fun_cong, unfolded o_def] intro: exI [of _ "n + m"])
qed (auto intro: exI [of _ 0])

section \<open>Properties\<close>

text \<open>C13. The slot table is a finite map keyed by ids: with room, an insertion never fails and binds a nonzero id that
  named nothing before; a removal returns what the id named and unbinds exactly it; an update changes
  exactly its own slot; and all of them keep the table's invariant, so every other id keeps naming
  its own object.\<close>

theorem slots_refines_map:
  assumes "slots_inv s"
  shows "(slots_room s \<longrightarrow> (\<exists>i t. slots_insert v s = Some (i, t) \<and> slots_inv t \<and> slots_get i s = None
       \<and> \<not> slot_is_none i \<and> (\<lambda>j. slots_get j t) = (\<lambda>j. slots_get j s)(i \<mapsto> v)))
    \<and> (\<exists>t. slots_remove k s = (slots_get k s, t) \<and> slots_inv t \<and> (\<lambda>j. slots_get j t) = (\<lambda>j. slots_get j s)(k := None))
    \<and> slots_inv (slots_modify k f s)
    \<and> (\<lambda>j. slots_get j (slots_modify k f s)) = (\<lambda>j. slots_get j s)(k := map_option f (slots_get k s))"
proof -
  have "slot_generation i \<noteq> 0 \<Longrightarrow> \<not> slot_is_none i" for i by (auto simp: slot_is_none_def slot_generation_def)
  with slot.insert_law [OF assms, of v] have "slots_room s \<longrightarrow> (\<exists>i t. slots_insert v s = Some (i, t) \<and> slots_inv t
      \<and> slots_get i s = None \<and> \<not> slot_is_none i \<and> (\<lambda>j. slots_get j t) = (\<lambda>j. slots_get j s)(i \<mapsto> v))" by blast
  moreover have "\<exists>t. slots_remove k s = (slots_get k s, t) \<and> slots_inv t \<and> (\<lambda>j. slots_get j t) = (\<lambda>j. slots_get j s)(k := None)"
    using slot.remove_law [OF assms, of k] by (intro exI [of _ "snd (slots_remove k s)"]) (auto simp: prod_eq_iff)
  ultimately show ?thesis using slot.modify_law [OF assms, of k f] by blast
qed

theorem slots_refines_map_witness:
  "\<exists>i t. slots_insert (7 :: nat) slots_default = Some (i, t) \<and> slots_get i t = Some 7"
proof -
  have "slots_room (slots_default :: nat slots)" by (simp add: slots_room_def slots_default_def)
  with slots_refines_map [OF slots_inv_default, of 7 0 "\<lambda>x. x"] obtain i t where
    "slots_insert (7 :: nat) slots_default = Some (i, t)" "(\<lambda>j. slots_get j t) = (\<lambda>j. slots_get j slots_default)(i \<mapsto> 7)" by blast
  then show ?thesis by (metis fun_upd_same)
qed

text \<open>C16. A stale id never resolves to a reused slot: after the object an id names is removed, the id stays dead
  through any sequence of fewer than \<open>2 ^ 32 - 2\<close> insertions and removals, however often its slot is
  reused; only then can the generation come round to the same value, 0 being skipped.\<close>

theorem slots_stale_id:
  assumes "slots_inv s" and "slots_get i s = Some v" and "slots_run ops (snd (slots_remove i s)) = Some t"
    and "length ops < 2 ^ 32 - 2"
  shows "slots_get i t = None"
proof -
  let ?k = "unat (slot_index i)" and ?u = "snd (slots_remove i s)"
  have live: "?k < length (s_entries s)" "e_generation (s_entries s ! ?k) = slot_generation i"
    using assms(2) by (auto simp: slots_get_def Let_def split: if_splits)
  then have nz: "slot_generation i \<noteq> 0" using assms(1) by (metis slots_inv_def)
  have u: "?k < length (s_entries ?u)" "e_generation (s_entries ?u ! ?k) = next_generation (slot_generation i)"
    using slots_remove_live(1) [OF assms(1,2)] live by simp_all
  from slots_run_generation [OF assms(3) u(1)] obtain m where m: "m \<le> length ops"
    "e_generation (s_entries t ! ?k) = (next_generation ^^ m) (next_generation (slot_generation i))" using u(2) by auto
  then have "e_generation (s_entries t ! ?k) = (next_generation ^^ Suc m) (slot_generation i)"
    by (simp add: funpow_swap1)
  moreover have "Suc m < 2 ^ 32 - 1" using m(1) assms(4) by linarith
  ultimately have "e_generation (s_entries t ! ?k) \<noteq> slot_generation i"
    using next_generation_no_wrap [OF nz, of "Suc m"] by simp
  then show ?thesis by (simp add: slots_get_def Let_def)
qed

theorem slots_stale_id_witness:
  "slots_get (slot_new 0 1) \<lparr>s_entries = [\<lparr>e_generation = 2, e_value = Some (9 :: nat)\<rparr>], s_free = []\<rparr> = None"
proof (rule slots_stale_id)
  let ?s = "\<lparr>s_entries = [\<lparr>e_generation = 1, e_value = Some (7 :: nat)\<rparr>], s_free = []\<rparr>"
  show "slots_inv ?s" by (simp add: slots_inv_def)
  show "slots_get (slot_new 0 1) ?s = Some 7" by (simp add: slots_get_def)
  show "slots_run [SInsert 9] (snd (slots_remove (slot_new 0 1) ?s))
      = Some \<lparr>s_entries = [\<lparr>e_generation = 2, e_value = Some 9\<rparr>], s_free = []\<rparr>"
    by (simp add: slots_remove_def slots_insert_def next_generation_def)
  show "length [SInsert (9 :: nat)] < 2 ^ 32 - 2" by simp
qed

end
