(* ===== verification/Tx_Queues.thy ===== *)
theory Tx_Queues
  imports Slot_Table Wire_UdpMsg "HOL-Library.AList"
begin

text \<open>
  The transmit queues, \<^verbatim>\<open>crates/mq-transport/src/txq.rs\<close>: one packet queue per (connection, path) in a growing
  buffer, a quota per queue and a ceiling on the total, and the bookkeeping of refused connections
  that are to be resumed.

  A hash map is an association list with distinct keys, in its iteration order; no theorem depends on
  that order. The capacity of a vector grows as the standard library grows it. \<open>usize\<close> is a
  natural number: the invariant bounds every counter.
\<close>

section \<open>One queue\<close>

definition QUEUE_QUOTA :: nat where "QUEUE_QUOTA = 1024 * 1024"
definition QUEUE_LOW :: nat where "QUEUE_LOW = 512 * 1024"
definition TOTAL_HIGH :: nat where "TOTAL_HIGH = 4 * 1024 * 1024"

datatype refusal = RefuseQuota | RefuseTotal

record blocked =
  bl_quota_keys :: "tx_key list"
  bl_total :: bool

record pkt =
  p_len :: nat
  p_dst :: socket_addr

record queue =
  q_buf :: bytes
  q_cap :: nat
  q_head :: nat
  q_tail :: nat
  q_pkts :: "pkt list"
  q_bytes :: nat

record transmit =
  tr_dst :: socket_addr
  tr_segment_size :: nat
  tr_payload :: bytes

definition queue_new :: queue where
  "queue_new = \<lparr>q_buf = [], q_cap = 0, q_head = 0, q_tail = 0, q_pkts = [], q_bytes = 0\<rparr>"

definition queue_compact :: "queue \<Rightarrow> queue" where
  "queue_compact q =
     q\<lparr>q_buf := drop (q_head q) (take (q_tail q) (q_buf q)) @ drop (q_tail q - q_head q) (q_buf q),
       q_tail := q_tail q - q_head q, q_head := 0\<rparr>"

text \<open>\<open>RawVec\<close>'s amortized growth of a byte vector.\<close>

definition vec_grow :: "nat \<Rightarrow> nat \<Rightarrow> nat" where
  "vec_grow cap need = (if cap < need then max 8 (max (2 * cap) need) else cap)"

definition queue_append :: "socket_addr \<Rightarrow> bytes \<Rightarrow> queue \<Rightarrow> queue" where
  "queue_append dst p q =
     (let q = (if q_cap q < q_tail q + length p then queue_compact q else q);
          buf = take (q_tail q) (q_buf q) @ p
      in q\<lparr>q_buf := buf, q_cap := vec_grow (q_cap q) (length buf), q_tail := q_tail q + length p,
           q_pkts := q_pkts q @ [\<lparr>p_len = length p, p_dst = dst\<rparr>], q_bytes := q_bytes q + length p\<rparr>)"

text \<open>The loop of \<open>peek\<close>: the bytes of the run that starts with \<open>first\<close>.\<close>

fun peek_run :: "pkt \<Rightarrow> nat \<Rightarrow> pkt list \<Rightarrow> nat" where
  "peek_run first i [] = 0"
| "peek_run first i (p # ps) =
     (if i = 64 \<or> p_dst p \<noteq> p_dst first \<or> p_len first < p_len p then 0
      else p_len p + (if p_len p < p_len first then 0 else peek_run first (i + 1) ps))"

definition queue_peek :: "queue \<Rightarrow> transmit option option" where
  "queue_peek q =
     (case q_pkts q of
        [] \<Rightarrow> Some None
      | first # _ \<Rightarrow>
          map_option (\<lambda>pl. Some \<lparr>tr_dst = p_dst first, tr_segment_size = p_len first, tr_payload = pl\<rparr>)
            (get_slice (q_head q) (q_head q + peek_run first 0 (q_pkts q)) (q_buf q)))"

fun pop_packets :: "nat \<Rightarrow> nat \<Rightarrow> queue \<Rightarrow> (nat \<times> queue) option" where
  "pop_packets 0 freed q = Some (freed, q)"
| "pop_packets (Suc n) freed q =
     (case q_pkts q of
        [] \<Rightarrow> None
      | p # ps \<Rightarrow> pop_packets n (freed + p_len p) (q\<lparr>q_pkts := ps, q_head := q_head q + p_len p\<rparr>))"

definition queue_done :: "nat \<Rightarrow> queue \<Rightarrow> (nat \<times> queue) option" where
  "queue_done datagrams q = do {
     (freed, q) \<leftarrow> pop_packets datagrams 0 q;
     let q = q\<lparr>q_bytes := q_bytes q - freed\<rparr>;
     Some (freed, if q_pkts q = [] then q\<lparr>q_head := 0, q_tail := 0\<rparr> else q) }"

section \<open>All queues\<close>

record tx_queues =
  tq_queues :: "(tx_key \<times> queue) list"
  tq_total :: nat
  tq_blocked :: "(conn_id \<times> blocked) list"
  tq_resumable :: "conn_id list"

definition txq_default :: tx_queues where
  "txq_default = \<lparr>tq_queues = [], tq_total = 0, tq_blocked = [], tq_resumable = []\<rparr>"

definition txq_push :: "tx_key \<Rightarrow> socket_addr \<Rightarrow> bytes \<Rightarrow> tx_queues \<Rightarrow> (unit, refusal) result \<times> tx_queues" where
  "txq_push key dst p t =
     (let q = (case map_of (tq_queues t) key of Some q \<Rightarrow> q | None \<Rightarrow> queue_new);
          t = t\<lparr>tq_queues := AList.update key q (tq_queues t)\<rparr>
      in if QUEUE_QUOTA < q_bytes q + length p then (Err RefuseQuota, t)
         else if TOTAL_HIGH < tq_total t + length p then (Err RefuseTotal, t)
         else (Ok (), t\<lparr>tq_queues := AList.update key (queue_append dst p q) (tq_queues t),
                        tq_total := tq_total t + length p\<rparr>))"

definition txq_push_or_drop :: "tx_key \<Rightarrow> socket_addr \<Rightarrow> bytes \<Rightarrow> tx_queues \<Rightarrow> tx_queues" where
  "txq_push_or_drop key dst p t = snd (txq_push key dst p t)"

definition record_blocked :: "conn_id \<Rightarrow> tx_key \<Rightarrow> refusal \<Rightarrow> tx_queues \<Rightarrow> tx_queues" where
  "record_blocked conn key why t =
     (let b = (case map_of (tq_blocked t) conn of Some b \<Rightarrow> b | None \<Rightarrow> \<lparr>bl_quota_keys = [], bl_total = False\<rparr>);
          b = (case why of
                 RefuseQuota \<Rightarrow> if key \<in> set (bl_quota_keys b) then b else b\<lparr>bl_quota_keys := bl_quota_keys b @ [key]\<rparr>
               | RefuseTotal \<Rightarrow> b\<lparr>bl_total := True\<rparr>)
      in t\<lparr>tq_blocked := AList.update conn b (tq_blocked t)\<rparr>)"

definition txq_keys :: "tx_queues \<Rightarrow> tx_key list" where
  "txq_keys t = map fst (filter (\<lambda>(_, q). 0 < q_bytes q) (tq_queues t))"

definition txq_peek :: "tx_key \<Rightarrow> tx_queues \<Rightarrow> transmit option option" where
  "txq_peek key t = (case map_of (tq_queues t) key of None \<Rightarrow> Some None | Some q \<Rightarrow> queue_peek q)"

definition txq_ready :: "tx_key option \<Rightarrow> tx_queues \<Rightarrow> blocked \<Rightarrow> bool" where
  "txq_ready key t b =
     ((case key of
         None \<Rightarrow> False
       | Some k \<Rightarrow> k \<in> set (bl_quota_keys b)
           \<and> (case map_of (tq_queues t) k of None \<Rightarrow> True | Some q \<Rightarrow> q_bytes q < QUEUE_LOW))
      \<or> bl_total b \<and> tq_total t < TOTAL_HIGH)"

fun resume_all :: "conn_id list \<Rightarrow> tx_queues \<Rightarrow> tx_queues" where
  "resume_all [] t = t"
| "resume_all (c # cs) t =
     resume_all cs (t\<lparr>tq_blocked := AList.delete c (tq_blocked t),
                      tq_resumable := (if c \<in> set (tq_resumable t) then tq_resumable t else tq_resumable t @ [c])\<rparr>)"

definition resumption_pass :: "tx_key option \<Rightarrow> tx_queues \<Rightarrow> tx_queues" where
  "resumption_pass key t = resume_all (map fst (filter (\<lambda>(_, b). txq_ready key t b) (tq_blocked t))) t"

definition txq_done :: "tx_key \<Rightarrow> nat \<Rightarrow> tx_queues \<Rightarrow> tx_queues option" where
  "txq_done key datagrams t =
     (case map_of (tq_queues t) key of
        None \<Rightarrow> Some (resumption_pass (Some key) t)
      | Some q \<Rightarrow> do {
          (freed, q) \<leftarrow> queue_done datagrams q;
          Some (resumption_pass (Some key)
            (t\<lparr>tq_queues := AList.update key q (tq_queues t), tq_total := tq_total t - freed\<rparr>)) })"

fun remove_queues :: "tx_key list \<Rightarrow> tx_queues \<Rightarrow> tx_queues" where
  "remove_queues [] t = t"
| "remove_queues (k # ks) t =
     remove_queues ks
       (case map_of (tq_queues t) k of
          None \<Rightarrow> t
        | Some q \<Rightarrow> t\<lparr>tq_queues := AList.delete k (tq_queues t), tq_total := tq_total t - q_bytes q\<rparr>)"

definition drop_conn :: "conn_id \<Rightarrow> tx_queues \<Rightarrow> tx_queues" where
  "drop_conn conn t =
     (let t = remove_queues (filter (\<lambda>k. fst k = Some conn) (map fst (tq_queues t))) t
      in resumption_pass None (t\<lparr>tq_blocked := AList.delete conn (tq_blocked t),
                                tq_resumable := filter (\<lambda>c. c \<noteq> conn) (tq_resumable t)\<rparr>))"

definition take_resumable :: "tx_queues \<Rightarrow> conn_id list \<times> tx_queues" where
  "take_resumable t = (tq_resumable t, t\<lparr>tq_resumable := []\<rparr>)"

definition resume_pending :: "tx_queues \<Rightarrow> bool" where
  "resume_pending t \<longleftrightarrow> tq_resumable t \<noteq> []"

section \<open>A queue holds a list of packets\<close>

definition queue_inv :: "queue \<Rightarrow> bool" where
  "queue_inv q \<longleftrightarrow> q_head q + q_bytes q = q_tail q \<and> q_tail q \<le> length (q_buf q) \<and> length (q_buf q) \<le> q_cap q
     \<and> q_bytes q = sum_list (map p_len (q_pkts q))"

fun cut_pkts :: "pkt list \<Rightarrow> bytes \<Rightarrow> (socket_addr \<times> bytes) list" where
  "cut_pkts [] bs = []"
| "cut_pkts (p # ps) bs = (p_dst p, take (p_len p) bs) # cut_pkts ps (drop (p_len p) bs)"

definition packets :: "queue \<Rightarrow> (socket_addr \<times> bytes) list" where
  "packets q = cut_pkts (q_pkts q) (drop (q_head q) (take (q_tail q) (q_buf q)))"

lemma cut_append:
  "sum_list (map p_len ps) = length bs \<Longrightarrow> cut_pkts (ps @ [\<lparr>p_len = length p, p_dst = d\<rparr>]) (bs @ p) = cut_pkts ps bs @ [(d, p)]"
  by (induction ps arbitrary: bs) auto

lemma length_cut [simp]: "length (cut_pkts ps bs) = length ps"
  by (induction ps arbitrary: bs) auto

lemma queue_inv_new [simp]: "queue_inv queue_new" "packets queue_new = []"
  by (simp_all add: queue_inv_def queue_new_def packets_def)

lemma queue_compact_inv:
  assumes "queue_inv q"
  shows "queue_inv (queue_compact q) \<and> packets (queue_compact q) = packets q \<and> q_bytes (queue_compact q) = q_bytes q"
  using assms by (auto simp: queue_inv_def queue_compact_def packets_def min_def)

lemma queue_append_inv:
  assumes "queue_inv q"
  shows "queue_inv (queue_append dst p q) \<and> packets (queue_append dst p q) = packets q @ [(dst, p)]
    \<and> q_bytes (queue_append dst p q) = q_bytes q + length p"
proof -
  define q1 where "q1 = (if q_cap q < q_tail q + length p then queue_compact q else q)"
  have inv: "queue_inv q1" "packets q1 = packets q" "q_bytes q1 = q_bytes q"
    using assms queue_compact_inv [OF assms] by (auto simp: q1_def)
  have b: "q_head q1 \<le> q_tail q1" "q_tail q1 \<le> length (q_buf q1)"
    "sum_list (map p_len (q_pkts q1)) = length (drop (q_head q1) (take (q_tail q1) (q_buf q1)))"
    using inv(1) by (auto simp: queue_inv_def)
  have "packets (queue_append dst p q) = packets q1 @ [(dst, p)]"
    using b by (simp add: queue_append_def Let_def q1_def [symmetric] packets_def cut_append [OF b(3)])
  moreover have "queue_inv (queue_append dst p q)"
    using inv(1) b by (simp add: queue_append_def Let_def q1_def [symmetric] queue_inv_def vec_grow_def le_max_iff_disj)
  moreover have "q_bytes (queue_append dst p q) = q_bytes q1 + length p"
    by (simp add: queue_append_def Let_def q1_def [symmetric])
  ultimately show ?thesis using inv by simp
qed

lemma cut_drop: "drop n (cut_pkts ps bs) = cut_pkts (drop n ps) (drop (sum_list (map p_len (take n ps))) bs)"
proof (induction ps arbitrary: n bs)
  case (Cons p ps)
  then show ?case by (cases n) (simp_all add: add.commute)
qed simp

lemma pop_packets_eq:
  "n \<le> length (q_pkts q) \<Longrightarrow> pop_packets n freed q =
     Some (freed + sum_list (map p_len (take n (q_pkts q))),
           q\<lparr>q_pkts := drop n (q_pkts q), q_head := q_head q + sum_list (map p_len (take n (q_pkts q)))\<rparr>)"
proof (induction n freed q rule: pop_packets.induct)
  case (2 n freed q)
  then obtain p ps where ps: "q_pkts q = p # ps" by (cases "q_pkts q") auto
  with 2 show ?case by simp
qed simp

lemma pop_packets_None: "length (q_pkts q) < n \<Longrightarrow> pop_packets n freed q = None"
  by (induction n freed q rule: pop_packets.induct) (auto split: list.splits)

lemma sum_take_le: "sum_list (map f (take n xs)) \<le> (sum_list (map f xs) :: nat)"
  by (metis append_take_drop_id le_add1 map_append sum_list_append)

lemma sum_take_drop: "sum_list (map f (take n xs)) + sum_list (map f (drop n xs)) = (sum_list (map f xs) :: nat)"
  by (metis append_take_drop_id map_append sum_list_append)

lemma queue_done_inv:
  assumes "queue_inv q" and "n \<le> length (packets q)"
  shows "\<exists>freed q'. queue_done n q = Some (freed, q') \<and> queue_inv q' \<and> packets q' = drop n (packets q)
    \<and> q_bytes q' + freed = q_bytes q"
proof -
  let ?f = "sum_list (map p_len (take n (q_pkts q)))"
  let ?q = "q\<lparr>q_pkts := drop n (q_pkts q), q_head := q_head q + ?f, q_bytes := q_bytes q - ?f\<rparr>"
  have n: "n \<le> length (q_pkts q)" using assms(2) by (simp add: packets_def)
  have f: "?f \<le> q_bytes q" "?f + sum_list (map p_len (drop n (q_pkts q))) = q_bytes q"
    using assms(1) sum_take_le [of p_len n "q_pkts q"] sum_take_drop [of p_len n "q_pkts q"] by (simp_all add: queue_inv_def)
  have "queue_done n q = Some (?f, if q_pkts ?q = [] then ?q\<lparr>q_head := 0, q_tail := 0\<rparr> else ?q)"
    by (simp add: queue_done_def pop_packets_eq [OF n])
  moreover have "queue_inv ?q" using assms(1) f by (auto simp: queue_inv_def)
  moreover have "packets ?q = drop n (packets q)"
    by (simp add: packets_def cut_drop add.commute drop_drop)
  moreover have "q_pkts ?q = [] \<Longrightarrow> packets (?q\<lparr>q_head := 0, q_tail := 0\<rparr>) = packets ?q \<and> queue_inv (?q\<lparr>q_head := 0, q_tail := 0\<rparr>)"
    using calculation(2) by (auto simp: packets_def queue_inv_def)
  ultimately show ?thesis using f(1) by (cases "q_pkts ?q = []") (auto simp del: select_convs)
qed

lemma queue_done_panics: "length (packets q) < n \<Longrightarrow> queue_done n q = None"
  by (simp add: queue_done_def pop_packets_None packets_def)

text \<open>The number of packets in the run \<open>peek\<close> returns.\<close>

fun run_len :: "pkt \<Rightarrow> nat \<Rightarrow> pkt list \<Rightarrow> nat" where
  "run_len first i [] = 0"
| "run_len first i (p # ps) =
     (if i = 64 \<or> p_dst p \<noteq> p_dst first \<or> p_len first < p_len p then 0
      else 1 + (if p_len p < p_len first then 0 else run_len first (i + 1) ps))"

lemma peek_run_bytes: "peek_run first i ps = sum_list (map p_len (take (run_len first i ps) ps))"
  by (induction first i ps rule: peek_run.induct) auto

lemma run_len_le: "run_len first i ps \<le> length ps" "i \<le> 64 \<Longrightarrow> i + run_len first i ps \<le> 64"
  by (induction first i ps rule: run_len.induct) auto

lemma run_len_run:
  "\<forall>k < run_len first i ps. p_dst (ps ! k) = p_dst first \<and> p_len (ps ! k) \<le> p_len first
     \<and> (Suc k < run_len first i ps \<longrightarrow> p_len (ps ! k) = p_len first)"
proof (induction first i ps rule: run_len.induct)
  case (2 first i p ps)
  then show ?case by (auto simp: nth_Cons split: nat.splits)
qed simp

lemma concat_cut_take:
  "n \<le> length ps \<Longrightarrow> sum_list (map p_len ps) = length bs \<Longrightarrow>
   concat (map snd (take n (cut_pkts ps bs))) = take (sum_list (map p_len (take n ps))) bs"
proof (induction ps arbitrary: n bs)
  case (Cons p ps)
  show ?case
  proof (cases n)
    case (Suc m)
    have "sum_list (map p_len ps) = length (drop (p_len p) bs)" using Cons.prems(2) by simp
    with Cons.IH [of m "drop (p_len p) bs"] Cons.prems Suc show ?thesis by (simp add: take_add)
  qed simp
qed simp

lemma snd_cut_nth:
  "k < length ps \<Longrightarrow> sum_list (map p_len ps) = length bs \<Longrightarrow>
   fst (cut_pkts ps bs ! k) = p_dst (ps ! k) \<and> length (snd (cut_pkts ps bs ! k)) = p_len (ps ! k)"
proof (induction ps arbitrary: k bs)
  case (Cons p ps)
  have "sum_list (map p_len ps) = length (drop (p_len p) bs)" using Cons.prems(2) by simp
  with Cons show ?case by (cases k) auto
qed simp

text \<open>Cutting a run at the segment size gives its packets back.\<close>

lemma chunks_concat:
  "xs \<noteq> [] \<Longrightarrow> 0 < n \<Longrightarrow> (\<forall>k < length xs. length (xs ! k) \<le> n \<and> 0 < length (xs ! k) \<and> (Suc k < length xs \<longrightarrow> length (xs ! k) = n)) \<Longrightarrow>
   chunks n (concat xs) = xs"
proof (induction xs)
  case (Cons x xs)
  have x: "length x \<le> n" "x \<noteq> []" "xs \<noteq> [] \<Longrightarrow> length x = n" using Cons.prems(3) by force+
  show ?case
  proof (cases "xs = []")
    case True
    with x Cons.prems(2) show ?thesis by (subst chunks_step) auto
  next
    case False
    have "\<forall>k < length xs. length (xs ! k) \<le> n \<and> 0 < length (xs ! k) \<and> (Suc k < length xs \<longrightarrow> length (xs ! k) = n)"
      using Cons.prems(3) by (auto dest: spec [of _ "Suc _"])
    with Cons.IH False Cons.prems(2) have "chunks n (concat xs) = xs" by blast
    with x False Cons.prems(2) show ?thesis by (subst chunks_step) auto
  qed
qed simp

lemma queue_peek_run:
  assumes "queue_inv q" and "packets q \<noteq> []" and "list_all (\<lambda>p. snd p \<noteq> []) (packets q)"
  shows "\<exists>tr k. queue_peek q = Some (Some tr) \<and> 1 \<le> k \<and> k \<le> 64 \<and> k \<le> length (packets q)
    \<and> tr_payload tr = concat (map snd (take k (packets q)))
    \<and> chunks (tr_segment_size tr) (tr_payload tr) = map snd (take k (packets q))
    \<and> list_all (\<lambda>p. fst p = tr_dst tr) (take k (packets q))"
proof -
  let ?bs = "drop (q_head q) (take (q_tail q) (q_buf q))"
  obtain f ps where f: "q_pkts q = f # ps" using assms(2) by (cases "q_pkts q") (auto simp: packets_def)
  have len: "sum_list (map p_len (q_pkts q)) = length ?bs" using assms(1) by (auto simp: queue_inv_def)
  define k where "k = run_len f 0 (q_pkts q)"
  have k: "1 \<le> k" "k \<le> 64" "k \<le> length (q_pkts q)"
    using run_len_le(1) [of f 0 "q_pkts q"] run_len_le(2) [of 0 f "q_pkts q"] by (simp_all add: k_def f)
  note nth = snd_cut_nth [OF _ len]
  have run: "\<forall>j < k. p_dst (q_pkts q ! j) = p_dst f \<and> p_len (q_pkts q ! j) \<le> p_len f
      \<and> (Suc j < k \<longrightarrow> p_len (q_pkts q ! j) = p_len f)" unfolding k_def by (rule run_len_run)
  have pos: "0 < p_len (q_pkts q ! j)" if "j < length (q_pkts q)" for j
  proof -
    have "snd (packets q ! j) \<noteq> []" using assms(3) that by (simp add: list_all_length packets_def)
    then show ?thesis using nth [OF that] by (simp add: packets_def flip: length_greater_0_conv)
  qed
  have bytes: "peek_run f 0 (q_pkts q) = sum_list (map p_len (take k (q_pkts q)))" unfolding k_def by (rule peek_run_bytes)
  have cc: "concat (map snd (take k (packets q))) = take (peek_run f 0 (q_pkts q)) ?bs"
    using concat_cut_take [OF k(3) len] by (simp add: packets_def bytes)
  have "peek_run f 0 (q_pkts q) \<le> q_tail q - q_head q" "q_head q \<le> q_tail q" "q_tail q \<le> length (q_buf q)"
    using sum_take_le [of p_len k "q_pkts q"] assms(1) unfolding bytes by (auto simp: queue_inv_def)
  then have "get_slice (q_head q) (q_head q + peek_run f 0 (q_pkts q)) (q_buf q) = Some (concat (map snd (take k (packets q))))"
    unfolding cc by (simp add: get_slice_def drop_take min_def)
  then have "queue_peek q = Some (Some \<lparr>tr_dst = p_dst f, tr_segment_size = p_len f, tr_payload = concat (map snd (take k (packets q)))\<rparr>)"
    by (simp add: queue_peek_def f)
  moreover have "chunks (p_len f) (concat (map snd (take k (packets q)))) = map snd (take k (packets q))"
    using k run pos nth pos [of 0] f by (intro chunks_concat) (auto simp: packets_def)
  moreover have "list_all (\<lambda>p. fst p = p_dst f) (take k (packets q))"
    using run nth k by (auto simp: list_all_length packets_def)
  ultimately show ?thesis using k by (auto simp: packets_def)
qed

section \<open>The invariant of all queues\<close>

definition txq_inv :: "tx_queues \<Rightarrow> bool" where
  "txq_inv t \<longleftrightarrow> distinct (map fst (tq_queues t))
     \<and> (\<forall>(k, q) \<in> set (tq_queues t). queue_inv q \<and> q_bytes q \<le> QUEUE_QUOTA)
     \<and> tq_total t = sum_list (map (q_bytes \<circ> snd) (tq_queues t)) \<and> tq_total t \<le> TOTAL_HIGH
     \<and> distinct (map fst (tq_blocked t)) \<and> distinct (tq_resumable t)"

definition key_packets :: "tx_queues \<Rightarrow> tx_key \<Rightarrow> (socket_addr \<times> bytes) list" where
  "key_packets t k = (case map_of (tq_queues t) k of None \<Rightarrow> [] | Some q \<Rightarrow> packets q)"

lemma sum_update:
  "sum_list (map (g \<circ> snd) (AList.update k v xs)) + (case map_of xs k of None \<Rightarrow> 0 | Some w \<Rightarrow> g w)
   = (sum_list (map (g \<circ> snd) xs) + g v :: nat)"
  by (induction xs) (auto split: option.splits)

lemma sum_delete:
  "distinct (map fst xs) \<Longrightarrow> sum_list (map (g \<circ> snd) (AList.delete k xs)) + (case map_of xs k of None \<Rightarrow> 0 | Some w \<Rightarrow> g w)
   = (sum_list (map (g \<circ> snd) xs) :: nat)"
proof (induction xs)
  case (Cons x xs)
  show ?case
  proof (cases "fst x = k")
    case True
    with Cons.prems have "k \<notin> fst ` set xs" by auto
    then have "AList.delete k xs = xs" "map_of xs k = None" by (simp_all add: delete_idem map_of_eq_None_iff)
    with True show ?thesis by (cases x) simp
  next
    case False
    with Cons show ?thesis by (cases x) simp
  qed
qed simp

lemma set_update: "(k', v') \<in> set (AList.update k v xs) \<Longrightarrow> (k', v') = (k, v) \<or> (k', v') \<in> set xs"
  by (induction xs) (auto split: if_splits)

lemma txq_push_split:
  fixes key :: tx_key
  assumes "txq_inv t"
  defines "q \<equiv> (case map_of (tq_queues t) key of Some q \<Rightarrow> q | None \<Rightarrow> queue_new)"
  shows "queue_inv q" "q_bytes q \<le> QUEUE_QUOTA" "packets q = key_packets t key"
    "(case map_of (tq_queues t) key of None \<Rightarrow> 0 | Some w \<Rightarrow> q_bytes w) = q_bytes q"
  using assms(1) map_of_SomeD [of "tq_queues t" key]
  by (auto simp: q_def txq_inv_def key_packets_def queue_new_def queue_inv_def packets_def split: option.splits)

lemma txq_inv_update:
  assumes "txq_inv t" and "queue_inv q" and "q_bytes q \<le> QUEUE_QUOTA"
    and "n + (case map_of (tq_queues t) key of None \<Rightarrow> 0 | Some w \<Rightarrow> q_bytes w) = tq_total t + q_bytes q" and "n \<le> TOTAL_HIGH"
  shows "txq_inv (t\<lparr>tq_queues := AList.update key q (tq_queues t), tq_total := n\<rparr>)"
proof -
  have "n = sum_list (map (q_bytes \<circ> snd) (AList.update key q (tq_queues t)))"
    using sum_update [of q_bytes key q "tq_queues t"] assms(1,4) by (simp add: txq_inv_def)
  then show ?thesis using assms(1-3,5) unfolding txq_inv_def
    by (auto simp: distinct_update dest!: set_update)
qed

lemma txq_push_inv:
  assumes "txq_inv t"
  shows "txq_inv (snd (txq_push key dst p t))"
    and "case fst (txq_push key dst p t) of
        Ok _ \<Rightarrow> key_packets (snd (txq_push key dst p t)) = (key_packets t)(key := key_packets t key @ [(dst, p)])
      | Err _ \<Rightarrow> key_packets (snd (txq_push key dst p t)) = key_packets t"
proof -
  define q where "q = (case map_of (tq_queues t) key of Some q \<Rightarrow> q | None \<Rightarrow> queue_new)"
  note q = txq_push_split [OF assms, of key, folded q_def]
  define t1 where "t1 = t\<lparr>tq_queues := AList.update key q (tq_queues t)\<rparr>"
  have "txq_inv (t\<lparr>tq_queues := AList.update key q (tq_queues t), tq_total := tq_total t\<rparr>)"
    using assms q by (intro txq_inv_update) (auto simp: txq_inv_def)
  then have i1: "txq_inv t1" by (simp add: t1_def)
  have m1: "map_of (tq_queues t1) key = Some q" "tq_total t1 = tq_total t" by (simp_all add: t1_def update_Some_unfold update_conv')
  have k1: "key_packets t1 = key_packets t" using q(3) by (auto simp: key_packets_def t1_def update_conv' fun_eq_iff)
  have eq: "txq_push key dst p t = (if QUEUE_QUOTA < q_bytes q + length p then (Err RefuseQuota, t1)
      else if TOTAL_HIGH < tq_total t1 + length p then (Err RefuseTotal, t1)
      else (Ok (), t1\<lparr>tq_queues := AList.update key (queue_append dst p q) (tq_queues t1), tq_total := tq_total t1 + length p\<rparr>))"
    by (simp add: txq_push_def Let_def q_def t1_def)
  note ap = queue_append_inv [OF q(1), of dst p]
  have "txq_inv (t1\<lparr>tq_queues := AList.update key (queue_append dst p q) (tq_queues t1), tq_total := tq_total t1 + length p\<rparr>)"
    if "\<not> QUEUE_QUOTA < q_bytes q + length p" "\<not> TOTAL_HIGH < tq_total t1 + length p"
    using that ap m1 by (intro txq_inv_update [OF i1]) auto
  then show "txq_inv (snd (txq_push key dst p t))" unfolding eq using i1 by auto
  show "case fst (txq_push key dst p t) of
        Ok _ \<Rightarrow> key_packets (snd (txq_push key dst p t)) = (key_packets t)(key := key_packets t key @ [(dst, p)])
      | Err _ \<Rightarrow> key_packets (snd (txq_push key dst p t)) = key_packets t"
    unfolding eq using ap k1 q(3) by (auto simp: key_packets_def update_conv' fun_eq_iff t1_def)
qed

lemma record_blocked_inv: "txq_inv t \<Longrightarrow> txq_inv (record_blocked conn key why t)"
  by (simp add: txq_inv_def record_blocked_def Let_def distinct_update)

lemma resume_all_eq:
  "tq_queues (resume_all cs t) = tq_queues t \<and> tq_total (resume_all cs t) = tq_total t
   \<and> map_of (tq_blocked (resume_all cs t)) = (\<lambda>c. if c \<in> set cs then None else map_of (tq_blocked t) c)
   \<and> set (tq_resumable (resume_all cs t)) = set (tq_resumable t) \<union> set cs
   \<and> (distinct (tq_resumable t) \<longrightarrow> distinct (tq_resumable (resume_all cs t)))
   \<and> (distinct (map fst (tq_blocked t)) \<longrightarrow> distinct (map fst (tq_blocked (resume_all cs t))))"
proof (induction cs arbitrary: t)
  case (Cons c cs)
  show ?case
    using Cons.IH [of "t\<lparr>tq_blocked := AList.delete c (tq_blocked t),
        tq_resumable := (if c \<in> set (tq_resumable t) then tq_resumable t else tq_resumable t @ [c])\<rparr>"]
    by (auto simp: delete_conv' distinct_delete fun_eq_iff)
qed simp

lemma resumption_pass_eq:
  assumes "distinct (map fst (tq_blocked t))"
  shows "tq_queues (resumption_pass key t) = tq_queues t" and "tq_total (resumption_pass key t) = tq_total t"
    and "map_of (tq_blocked (resumption_pass key t)) c =
      (case map_of (tq_blocked t) c of None \<Rightarrow> None | Some b \<Rightarrow> if txq_ready key t b then None else Some b)"
    and "c \<in> set (tq_resumable (resumption_pass key t)) \<longleftrightarrow>
      c \<in> set (tq_resumable t) \<or> (\<exists>b. map_of (tq_blocked t) c = Some b \<and> txq_ready key t b)"
    and "txq_inv t \<Longrightarrow> txq_inv (resumption_pass key t)"
proof -
  let ?cs = "map fst (filter (\<lambda>(_, b). txq_ready key t b) (tq_blocked t))"
  have mem: "c \<in> set ?cs \<longleftrightarrow> (\<exists>b. map_of (tq_blocked t) c = Some b \<and> txq_ready key t b)" for c
    using assms by (force simp: map_of_eq_Some_iff image_iff)
  note eq = resume_all_eq [of ?cs t, folded resumption_pass_def]
  show "tq_queues (resumption_pass key t) = tq_queues t" "tq_total (resumption_pass key t) = tq_total t" using eq by auto
  show "map_of (tq_blocked (resumption_pass key t)) c =
      (case map_of (tq_blocked t) c of None \<Rightarrow> None | Some b \<Rightarrow> if txq_ready key t b then None else Some b)"
    using eq mem [of c] by (auto split: option.splits)
  show "c \<in> set (tq_resumable (resumption_pass key t)) \<longleftrightarrow>
      c \<in> set (tq_resumable t) \<or> (\<exists>b. map_of (tq_blocked t) c = Some b \<and> txq_ready key t b)"
    using eq mem [of c] by blast
  show "txq_inv t \<Longrightarrow> txq_inv (resumption_pass key t)" using eq by (simp add: txq_inv_def)
qed

lemma resumption_pass_inv: "txq_inv t \<Longrightarrow> txq_inv (resumption_pass key t)"
  by (rule resumption_pass_eq(5)) (simp_all add: txq_inv_def)

lemma key_packets_resumption [simp]:
  "distinct (map fst (tq_blocked t)) \<Longrightarrow> key_packets (resumption_pass key t) = key_packets t"
  by (simp add: key_packets_def resumption_pass_eq(1) fun_eq_iff)

lemma txq_done_inv:
  assumes "txq_inv t" and "n \<le> length (key_packets t key)"
  shows "\<exists>t1. txq_inv t1 \<and> txq_done key n t = Some (resumption_pass (Some key) t1) \<and> tq_blocked t1 = tq_blocked t
    \<and> tq_resumable t1 = tq_resumable t \<and> key_packets t1 = (key_packets t)(key := drop n (key_packets t key))"
proof (cases "map_of (tq_queues t) key")
  case None
  then have "drop n (key_packets t key) = key_packets t key" by (simp add: key_packets_def)
  with None assms(1) show ?thesis by (intro exI [of _ t]) (simp add: txq_done_def)
next
  case (Some q)
  then have q: "queue_inv q" "q_bytes q \<le> QUEUE_QUOTA" "packets q = key_packets t key"
    using assms(1) map_of_SomeD [OF Some] by (auto simp: txq_inv_def key_packets_def)
  obtain freed q' where d: "queue_done n q = Some (freed, q')" "queue_inv q'" "packets q' = drop n (packets q)"
    "q_bytes q' + freed = q_bytes q" using queue_done_inv [OF q(1)] assms(2) q(3) by metis
  let ?t = "t\<lparr>tq_queues := AList.update key q' (tq_queues t), tq_total := tq_total t - freed\<rparr>"
  have "freed \<le> tq_total t"
    using sum_update [of q_bytes key q "tq_queues t"] assms(1) Some d(4) sum_update [of q_bytes key q' "tq_queues t"]
    by (simp add: txq_inv_def)
  then have "txq_inv ?t" using assms(1) d q(2) Some by (intro txq_inv_update) (auto simp: txq_inv_def)
  moreover have "txq_done key n t = Some (resumption_pass (Some key) ?t)" by (simp add: txq_done_def Some d(1))
  moreover have "key_packets ?t = (key_packets t)(key := drop n (key_packets t key))"
    using d(3) q(3) by (auto simp: key_packets_def update_conv' fun_eq_iff)
  ultimately show ?thesis by (intro exI [of _ ?t]) simp
qed

lemma remove_queues_inv:
  "txq_inv t \<Longrightarrow> txq_inv (remove_queues ks t) \<and> tq_blocked (remove_queues ks t) = tq_blocked t
   \<and> tq_resumable (remove_queues ks t) = tq_resumable t
   \<and> key_packets (remove_queues ks t) = (\<lambda>k. if k \<in> set ks then [] else key_packets t k)"
proof (induction ks arbitrary: t)
  case (Cons k ks)
  define t1 where "t1 = (case map_of (tq_queues t) k of None \<Rightarrow> t
    | Some q \<Rightarrow> t\<lparr>tq_queues := AList.delete k (tq_queues t), tq_total := tq_total t - q_bytes q\<rparr>)"
  have kp: "key_packets t1 = (key_packets t)(k := [])"
    by (auto simp: t1_def key_packets_def fun_eq_iff delete_conv' split: option.splits)
  have "txq_inv t1"
  proof (cases "map_of (tq_queues t) k")
    case None
    with Cons.prems show ?thesis by (simp add: t1_def)
  next
    case (Some q)
    then have "tq_total t - q_bytes q = sum_list (map (q_bytes \<circ> snd) (AList.delete k (tq_queues t)))"
      using sum_delete [of "tq_queues t" q_bytes k] Cons.prems by (simp add: txq_inv_def)
    moreover have "set (AList.delete k (tq_queues t)) \<subseteq> set (tq_queues t)" by (auto simp: AList.delete_eq)
    ultimately show ?thesis using Cons.prems by (auto simp: t1_def Some txq_inv_def distinct_delete)
  qed
  moreover have "tq_blocked t1 = tq_blocked t" "tq_resumable t1 = tq_resumable t"
    by (simp_all add: t1_def split: option.splits)
  moreover have "remove_queues (k # ks) t = remove_queues ks t1" by (simp add: t1_def)
  ultimately show ?case using Cons.IH [of t1] by (simp add: kp fun_eq_iff)
qed simp

lemma drop_conn_inv:
  assumes "txq_inv t"
  shows "txq_inv (drop_conn conn t)"
    and "key_packets (drop_conn conn t) = (\<lambda>k. if fst k = Some conn then [] else key_packets t k)"
proof -
  let ?ks = "filter (\<lambda>k. fst k = Some conn) (map fst (tq_queues t))"
  let ?t = "(remove_queues ?ks t)\<lparr>tq_blocked := AList.delete conn (tq_blocked t),
    tq_resumable := filter (\<lambda>c. c \<noteq> conn) (tq_resumable t)\<rparr>"
  note rm = remove_queues_inv [OF assms, of ?ks]
  have t: "drop_conn conn t = resumption_pass None ?t" using rm by (simp add: drop_conn_def Let_def)
  have inv: "txq_inv ?t" using rm assms by (simp add: txq_inv_def distinct_delete)
  then show "txq_inv (drop_conn conn t)" unfolding t by (rule resumption_pass_inv)
  have absent: "k \<notin> fst ` set (tq_queues t) \<Longrightarrow> key_packets t k = []" for k
    by (simp add: key_packets_def flip: map_of_eq_None_iff)
  have "key_packets (drop_conn conn t) = key_packets ?t"
    unfolding t using inv by (intro key_packets_resumption) (simp add: txq_inv_def)
  also have "\<dots> = key_packets (remove_queues ?ks t)" by (simp add: key_packets_def fun_eq_iff)
  also have "\<dots> = (\<lambda>k. if fst k = Some conn then [] else key_packets t k)"
    using rm absent by (auto simp: fun_eq_iff)
  finally show "key_packets (drop_conn conn t) = (\<lambda>k. if fst k = Some conn then [] else key_packets t k)" .
qed

section \<open>Reachable states\<close>

inductive txq_step :: "tx_queues \<Rightarrow> tx_queues \<Rightarrow> bool" where
  step_push: "txq_step t (snd (txq_push key dst p t))"
| step_blocked: "txq_step t (record_blocked conn key why t)"
| step_done: "n \<le> length (key_packets t key) \<Longrightarrow> txq_done key n t = Some t' \<Longrightarrow> txq_step t t'"
| step_drop: "txq_step t (drop_conn conn t)"
| step_take: "txq_step t (snd (take_resumable t))"

inductive_cases txq_stepE: "txq_step t t'"

lemma take_resumable_inv: "txq_inv t \<Longrightarrow> txq_inv (snd (take_resumable t))"
  by (simp add: take_resumable_def txq_inv_def)

lemma txq_step_inv: "txq_step t t' \<Longrightarrow> txq_inv t \<Longrightarrow> txq_inv t'"
proof (induction rule: txq_step.induct)
  case (step_done n t key t')
  from txq_done_inv [OF step_done(3,1)] step_done(2) show ?case by (auto intro: resumption_pass_inv)
qed (auto intro: txq_push_inv(1) record_blocked_inv drop_conn_inv(1) take_resumable_inv)

lemma txq_inv_default [simp]: "txq_inv txq_default"
  by (simp add: txq_inv_def txq_default_def)

lemma txq_reachable_inv: "txq_step\<^sup>*\<^sup>* txq_default t \<Longrightarrow> txq_inv t"
  by (induction rule: rtranclp_induct) (auto intro: txq_step_inv)

section \<open>Properties\<close>

lemma sum_packets: "queue_inv q \<Longrightarrow> sum_list (map (length \<circ> snd) (packets q)) = q_bytes q"
proof -
  have "sum_list (map p_len ps) = length bs \<Longrightarrow> sum_list (map (length \<circ> snd) (cut_pkts ps bs)) = length bs" for ps bs
    by (induction ps arbitrary: bs) auto
  from this [of "q_pkts q" "drop (q_head q) (take (q_tail q) (q_buf q))"] show "queue_inv q \<Longrightarrow> ?thesis"
    by (auto simp: queue_inv_def packets_def)
qed

text \<open>C18. Memory is bounded in every reachable state: each (connection, path) queue holds at most \<open>QUEUE_QUOTA\<close> bytes of
  packets, the counter \<open>total\<close> is exactly the number of queued bytes over all queues, and it never
  exceeds \<open>TOTAL_HIGH\<close>; a connection is in the resume list at most once.\<close>

theorem txq_bounded:
  assumes "txq_step\<^sup>*\<^sup>* txq_default t"
  shows "sum_list (map (length \<circ> snd) (key_packets t key)) \<le> QUEUE_QUOTA
    \<and> tq_total t = sum_list (map (\<lambda>k. sum_list (map (length \<circ> snd) (key_packets t k))) (map fst (tq_queues t)))
    \<and> tq_total t \<le> TOTAL_HIGH \<and> distinct (tq_resumable t)"
proof -
  have inv: "txq_inv t" using assms by (rule txq_reachable_inv)
  have each: "sum_list (map (length \<circ> snd) (key_packets t k)) = q_bytes q" if "(k, q) \<in> set (tq_queues t)" for k q
    using inv that sum_packets [of q] by (auto simp: txq_inv_def key_packets_def)
  have "sum_list (map (length \<circ> snd) (key_packets t key)) \<le> QUEUE_QUOTA"
  proof (cases "map_of (tq_queues t) key")
    case (Some q)
    with each [OF map_of_SomeD] map_of_SomeD [OF Some] inv show ?thesis by (auto simp: txq_inv_def)
  qed (simp add: key_packets_def)
  moreover have "map (\<lambda>k. sum_list (map (length \<circ> snd) (key_packets t k))) (map fst (tq_queues t)) = map (q_bytes \<circ> snd) (tq_queues t)"
    using each by auto
  moreover have "tq_total t = sum_list (map (q_bytes \<circ> snd) (tq_queues t))" "tq_total t \<le> TOTAL_HIGH" "distinct (tq_resumable t)"
    using inv by (simp_all add: txq_inv_def)
  ultimately show ?thesis by (simp only: simp_thms)
qed

theorem txq_bounded_witness:
  "tq_total (snd (txq_push (None, 0) (SockV4 1 2) [7] txq_default)) \<le> TOTAL_HIGH"
proof -
  have "txq_step\<^sup>*\<^sup>* txq_default (snd (txq_push (None, 0) (SockV4 1 2) [7] txq_default))"
    by (rule r_into_rtranclp, rule step_push)
  from txq_bounded [OF this, of "(None, 0)"] show ?thesis by blast
qed

text \<open>C20. Each queue is a FIFO of packets with segmentation offload. A push appends the packet to its own queue or, refused, changes no
  queue; what \<open>peek\<close> hands out is the first 1 to 64 packets of the queue, all for one
  destination, and cutting it at the segment size gives exactly those packets; \<open>done\<close> removes exactly the
  packets transmitted, whatever compaction happened; closing a connection removes only its own.\<close>

theorem txq_refines_fifo:
  assumes "txq_inv t"
  shows "(case fst (txq_push key dst p t) of
        Ok _ \<Rightarrow> key_packets (snd (txq_push key dst p t)) = (key_packets t)(key := key_packets t key @ [(dst, p)])
      | Err _ \<Rightarrow> key_packets (snd (txq_push key dst p t)) = key_packets t)
    \<and> (key_packets t key \<noteq> [] \<and> list_all (\<lambda>p. snd p \<noteq> []) (key_packets t key) \<longrightarrow>
        (\<exists>tr k. txq_peek key t = Some (Some tr) \<and> 1 \<le> k \<and> k \<le> 64 \<and> k \<le> length (key_packets t key)
          \<and> tr_payload tr = concat (map snd (take k (key_packets t key)))
          \<and> chunks (tr_segment_size tr) (tr_payload tr) = map snd (take k (key_packets t key))
          \<and> list_all (\<lambda>p. fst p = tr_dst tr) (take k (key_packets t key))))
    \<and> (n \<le> length (key_packets t key) \<longrightarrow>
        (\<exists>t'. txq_done key n t = Some t' \<and> key_packets t' = (key_packets t)(key := drop n (key_packets t key))))
    \<and> key_packets (drop_conn conn t) = (\<lambda>k. if fst k = Some conn then [] else key_packets t k)"
proof -
  have peek: "\<exists>tr k. txq_peek key t = Some (Some tr) \<and> 1 \<le> k \<and> k \<le> 64 \<and> k \<le> length (key_packets t key)
      \<and> tr_payload tr = concat (map snd (take k (key_packets t key)))
      \<and> chunks (tr_segment_size tr) (tr_payload tr) = map snd (take k (key_packets t key))
      \<and> list_all (\<lambda>p. fst p = tr_dst tr) (take k (key_packets t key))"
    if ne: "key_packets t key \<noteq> []" "list_all (\<lambda>p. snd p \<noteq> []) (key_packets t key)"
  proof -
    obtain q where q: "map_of (tq_queues t) key = Some q" using ne(1) by (auto simp: key_packets_def split: option.splits)
    then have "queue_inv q" using assms map_of_SomeD [OF q] by (auto simp: txq_inv_def)
    from queue_peek_run [OF this] ne q show ?thesis by (simp add: key_packets_def txq_peek_def)
  qed
  have "\<exists>t'. txq_done key n t = Some t' \<and> key_packets t' = (key_packets t)(key := drop n (key_packets t key))"
    if "n \<le> length (key_packets t key)"
    using txq_done_inv [OF assms that] by (metis key_packets_resumption txq_inv_def)
  with peek txq_push_inv(2) [OF assms] drop_conn_inv(2) [OF assms] show ?thesis by blast
qed

lemma key_packets_default: "key_packets txq_default = (\<lambda>_. [])"
  by (simp add: key_packets_def txq_default_def fun_eq_iff)

theorem txq_refines_fifo_witness:
  "key_packets (snd (txq_push (None, 0) (SockV4 1 2) [7, 8] txq_default)) = (\<lambda>_. [])((None, 0) := [(SockV4 1 2, [7, 8])])"
proof -
  have "fst (txq_push (None, 0) (SockV4 1 2) [7, 8] txq_default) = Ok ()"
    by (simp add: txq_push_def txq_default_def queue_new_def QUEUE_QUOTA_def TOTAL_HIGH_def)
  with txq_refines_fifo [OF txq_inv_default, of "(None, 0)" "SockV4 1 2" "[7, 8]" 0 undefined] show ?thesis
    by (simp add: key_packets_default)
qed

text \<open>C25. No lost wakeup: whenever packets of a queue are reported sent and the queue is then below \<open>QUEUE_LOW\<close>, every connection that was
  refused for that queue is handed back to be resumed and is no longer recorded as blocked; the
  same for every connection refused for the total once the total is below \<open>TOTAL_HIGH\<close>. And
  only such connections are resumed.\<close>

theorem txq_resumes:
  assumes "txq_inv t" and "n \<le> length (key_packets t key)"
  shows "\<exists>t'. txq_done key n t = Some t'
    \<and> (\<forall>c b. map_of (tq_blocked t) c = Some b \<longrightarrow>
         (if (key \<in> set (bl_quota_keys b) \<and> sum_list (map (length \<circ> snd) (drop n (key_packets t key))) < QUEUE_LOW)
             \<or> bl_total b \<and> tq_total t' < TOTAL_HIGH
          then c \<in> set (tq_resumable t') \<and> map_of (tq_blocked t') c = None
          else map_of (tq_blocked t') c = Some b))
    \<and> (\<forall>c. c \<in> set (tq_resumable t') \<longrightarrow> c \<in> set (tq_resumable t) \<or> c \<in> dom (map_of (tq_blocked t)))"
proof -
  obtain t1 where t1: "txq_inv t1" "txq_done key n t = Some (resumption_pass (Some key) t1)" "tq_blocked t1 = tq_blocked t"
    "tq_resumable t1 = tq_resumable t" "key_packets t1 = (key_packets t)(key := drop n (key_packets t key))"
    using txq_done_inv [OF assms] by blast
  have d: "distinct (map fst (tq_blocked t1))" using t1(1) by (simp add: txq_inv_def)
  have bytes: "(case map_of (tq_queues t1) key of None \<Rightarrow> True | Some q \<Rightarrow> q_bytes q < QUEUE_LOW)
      \<longleftrightarrow> sum_list (map (length \<circ> snd) (drop n (key_packets t key))) < QUEUE_LOW"
  proof -
    have kp: "drop n (key_packets t key) = key_packets t1 key" using t1(5) by simp
    show ?thesis
    proof (cases "map_of (tq_queues t1) key")
      case (Some q)
      then have "queue_inv q" using t1(1) map_of_SomeD [OF Some] by (auto simp: txq_inv_def)
      then show ?thesis unfolding kp by (simp add: key_packets_def Some sum_packets)
    qed (simp only: kp, simp add: key_packets_def QUEUE_LOW_def)
  qed
  have ready: "txq_ready (Some key) t1 b \<longleftrightarrow> (key \<in> set (bl_quota_keys b)
      \<and> sum_list (map (length \<circ> snd) (drop n (key_packets t key))) < QUEUE_LOW) \<or> bl_total b \<and> tq_total t1 < TOTAL_HIGH" for b
    by (simp add: txq_ready_def bytes)
  note res = resumption_pass_eq(3,4) [OF d, where key = "Some key", unfolded t1(3,4) ready]
  show ?thesis
    unfolding t1(2) by (intro exI conjI allI impI, rule refl)
      (auto simp: res resumption_pass_eq(2) [OF d] dom_def split: option.splits)
qed

theorem txq_resumes_witness:
  "\<exists>t'. txq_done (None, 0) 0 (record_blocked (GenId 1 1) (None, 0) RefuseQuota txq_default) = Some t' \<and> GenId 1 1 \<in> set (tq_resumable t')"
proof -
  let ?t = "record_blocked (GenId 1 1) (None, 0) RefuseQuota txq_default"
  have inv: "txq_inv ?t" by (rule record_blocked_inv) simp
  have b: "map_of (tq_blocked ?t) (GenId 1 1) = Some \<lparr>bl_quota_keys = [(None, 0)], bl_total = False\<rparr>"
    by (simp add: record_blocked_def txq_default_def)
  have "sum_list (map (length \<circ> snd) (drop 0 (key_packets ?t (None, 0)))) < QUEUE_LOW"
    by (simp add: record_blocked_def txq_default_def key_packets_def QUEUE_LOW_def Let_def)
  with txq_resumes [OF inv, of 0 "(None, 0)"] b show ?thesis by force
qed

end
