(* ===== verification/Event_Queue.thy ===== *)
theory Event_Queue
  imports Slot_Table
begin

text \<open>
  Transport events, \<^verbatim>\<open>crates/mq-transport-api/src/event.rs\<close>, their coalescing queue,
  \<^verbatim>\<open>crates/mq-transport/src/events.rs\<close>, and the consumer \<open>Transport::poll_event\<close> of
  \<^verbatim>\<open>crates/mq-transport/src/lib.rs\<close>, which drops events whose object is gone.

  The four level flags (stream readable and writable, multipath ready, datagram readable) are handled
  alike: \<open>queued_flag\<close> reads the flag of an event from the tables.
\<close>

section \<open>Events, \<open>event.rs\<close>\<close>

datatype err_type = ErrUnknown | ErrTransport | ErrApplication

record close_reason =
  cr_err_type :: err_type
  cr_code :: u64

record stream_info =
  si_conn :: conn_id
  si_quic_id :: u64
  si_kind :: stream_kind

record stream_close_stats =
  scs_fin_send_us :: u64
  scs_fin_ack_us :: u64
  scs_mp_state :: int
  scs_stream_err :: int
  scs_close_msg :: "bytes option"

record h3_req_stats =
  hrs_send_body :: u64
  hrs_recv_body :: u64
  hrs_begin_us :: u64
  hrs_header_send_us :: u64
  hrs_fin_send_us :: u64
  hrs_fin_ack_us :: u64
  hrs_mp_state :: int
  hrs_stream_err :: int
  hrs_close_msg :: "bytes option"

record h3_close =
  hc_stats :: h3_req_stats

datatype event =
    ConnEstablished conn_id
  | ConnClosed conn_id close_reason
  | NewConn conn_id conn_proto
  | NewStream conn_id stream_id stream_info
  | StreamReadable stream_id
  | StreamWritable stream_id
  | StreamClosed stream_id
  | StreamPeerReset stream_id u64
  | StreamStopSending stream_id u64
  | StreamCloseStats stream_id stream_close_stats
  | MpReady conn_id
  | DatagramReadable conn_id
  | PathRemoved conn_id path_id
  | H3Request conn_id h3_req_id
  | H3Readable h3_req_id
  | H3Writable h3_req_id
  | H3Closed h3_req_id h3_close

section \<open>The queue, \<open>events.rs\<close>\<close>

record ev_state =
  ev_queue :: "event list"
  ev_streams :: "stream_slot slots"
  ev_conns :: "conn_slot slots"

definition push_readable :: "stream_id \<Rightarrow> ev_state \<Rightarrow> ev_state" where
  "push_readable i s =
     (case slots_get (id_slot i) (ev_streams s) of
        Some x \<Rightarrow>
          if \<not> ss_abandoned x \<and> \<not> ss_readable_queued x then
            s\<lparr>ev_streams := slots_modify (id_slot i) (ss_readable_queued_update (\<lambda>_. True)) (ev_streams s),
              ev_queue := ev_queue s @ [StreamReadable i]\<rparr>
          else s
      | None \<Rightarrow> s)"

definition push_writable :: "stream_id \<Rightarrow> ev_state \<Rightarrow> ev_state" where
  "push_writable i s =
     (case slots_get (id_slot i) (ev_streams s) of
        Some x \<Rightarrow>
          if \<not> ss_abandoned x \<and> \<not> ss_writable_queued x then
            s\<lparr>ev_streams := slots_modify (id_slot i) (ss_writable_queued_update (\<lambda>_. True)) (ev_streams s),
              ev_queue := ev_queue s @ [StreamWritable i]\<rparr>
          else s
      | None \<Rightarrow> s)"

definition push_mp_ready :: "conn_id \<Rightarrow> ev_state \<Rightarrow> ev_state" where
  "push_mp_ready i s =
     (case slots_get (id_slot i) (ev_conns s) of
        Some c \<Rightarrow>
          if \<not> cs_mp_ready_queued c then
            s\<lparr>ev_conns := slots_modify (id_slot i) (cs_mp_ready_queued_update (\<lambda>_. True)) (ev_conns s),
              ev_queue := ev_queue s @ [MpReady i]\<rparr>
          else s
      | None \<Rightarrow> s)"

definition push_datagram_readable :: "conn_id \<Rightarrow> ev_state \<Rightarrow> ev_state" where
  "push_datagram_readable i s =
     (case slots_get (id_slot i) (ev_conns s) of
        Some c \<Rightarrow>
          if \<not> cs_dgram_readable_queued c then
            s\<lparr>ev_conns := slots_modify (id_slot i) (cs_dgram_readable_queued_update (\<lambda>_. True)) (ev_conns s),
              ev_queue := ev_queue s @ [DatagramReadable i]\<rparr>
          else s
      | None \<Rightarrow> s)"

definition push_event :: "event \<Rightarrow> ev_state \<Rightarrow> ev_state" where
  "push_event e s = s\<lparr>ev_queue := ev_queue s @ [e]\<rparr>"

fun clear_flag :: "event \<Rightarrow> ev_state \<Rightarrow> ev_state" where
  "clear_flag (StreamReadable i) s =
     s\<lparr>ev_streams := slots_modify (id_slot i) (ss_readable_queued_update (\<lambda>_. False)) (ev_streams s)\<rparr>"
| "clear_flag (StreamWritable i) s =
     s\<lparr>ev_streams := slots_modify (id_slot i) (ss_writable_queued_update (\<lambda>_. False)) (ev_streams s)\<rparr>"
| "clear_flag (MpReady i) s =
     s\<lparr>ev_conns := slots_modify (id_slot i) (cs_mp_ready_queued_update (\<lambda>_. False)) (ev_conns s)\<rparr>"
| "clear_flag (DatagramReadable i) s =
     s\<lparr>ev_conns := slots_modify (id_slot i) (cs_dgram_readable_queued_update (\<lambda>_. False)) (ev_conns s)\<rparr>"
| "clear_flag _ s = s"

definition pop_event :: "ev_state \<Rightarrow> event option \<times> ev_state" where
  "pop_event s =
     (case ev_queue s of
        [] \<Rightarrow> (None, s)
      | e # es \<Rightarrow> (Some e, clear_flag e (s\<lparr>ev_queue := es\<rparr>)))"

section \<open>The consumer, \<open>lib.rs\<close>\<close>

fun event_live :: "event \<Rightarrow> ev_state \<Rightarrow> bool" where
  "event_live (ConnEstablished c) s = slots_is_live (id_slot c) (ev_conns s)"
| "event_live (NewConn c _) s = slots_is_live (id_slot c) (ev_conns s)"
| "event_live (MpReady c) s = slots_is_live (id_slot c) (ev_conns s)"
| "event_live (DatagramReadable c) s = slots_is_live (id_slot c) (ev_conns s)"
| "event_live (PathRemoved c _) s = slots_is_live (id_slot c) (ev_conns s)"
| "event_live (NewStream _ x _) s = slots_is_live (id_slot x) (ev_streams s)"
| "event_live (StreamReadable x) s = slots_is_live (id_slot x) (ev_streams s)"
| "event_live (StreamWritable x) s = slots_is_live (id_slot x) (ev_streams s)"
| "event_live (StreamPeerReset x _) s = slots_is_live (id_slot x) (ev_streams s)"
| "event_live (StreamStopSending x _) s = slots_is_live (id_slot x) (ev_streams s)"
| "event_live _ s = True"

lemma length_clear_flag [simp]: "ev_queue (clear_flag e s) = ev_queue s"
  by (cases e) simp_all

function poll_event :: "ev_state \<Rightarrow> event option \<times> ev_state" where
  "poll_event s =
     (case pop_event s of
        (None, s') \<Rightarrow> (None, s')
      | (Some e, s') \<Rightarrow> if event_live e s' then (Some e, s') else poll_event s')"
  by auto
termination
  by (relation "measure (\<lambda>s. length (ev_queue s))") (auto simp: pop_event_def split: list.splits)

declare poll_event.simps [simp del]

section \<open>Coalescing\<close>

text \<open>The level flag of an event, \<open>None\<close> when the event has none or its object is gone.\<close>

fun queued_flag :: "event \<Rightarrow> ev_state \<Rightarrow> bool option" where
  "queued_flag (StreamReadable i) s = map_option ss_readable_queued (slots_get (id_slot i) (ev_streams s))"
| "queued_flag (StreamWritable i) s = map_option ss_writable_queued (slots_get (id_slot i) (ev_streams s))"
| "queued_flag (MpReady i) s = map_option cs_mp_ready_queued (slots_get (id_slot i) (ev_conns s))"
| "queued_flag (DatagramReadable i) s = map_option cs_dgram_readable_queued (slots_get (id_slot i) (ev_conns s))"
| "queued_flag _ s = None"

fun is_level :: "event \<Rightarrow> bool" where
  "is_level (StreamReadable _) = True"
| "is_level (StreamWritable _) = True"
| "is_level (MpReady _) = True"
| "is_level (DatagramReadable _) = True"
| "is_level _ = False"

fun event_id :: "event \<Rightarrow> gen_id" where
  "event_id (StreamReadable i) = i"
| "event_id (StreamWritable i) = i"
| "event_id (MpReady i) = i"
| "event_id (DatagramReadable i) = i"
| "event_id _ = GenId 0 0"

text \<open>Every live object has a queued level event exactly when its flag says so, and then just one.\<close>

definition ev_inv :: "ev_state \<Rightarrow> bool" where
  "ev_inv s \<longleftrightarrow> slots_inv (ev_streams s) \<and> slots_inv (ev_conns s)
     \<and> (\<forall>e f. queued_flag e s = Some f \<longrightarrow> count_list (ev_queue s) e = (if f then 1 else 0))"

lemma id_slot_inj: "id_slot i = id_slot j \<longleftrightarrow> i = j"
  by (cases i; cases j) (auto simp: id_slot_def slot_eq_iff)

lemma ev_invD: "ev_inv s \<Longrightarrow> queued_flag e s = Some f \<Longrightarrow> count_list (ev_queue s) e = (if f then 1 else 0)"
  by (simp add: ev_inv_def)

text \<open>What every push of a level event does: nothing, or one event and its flag.\<close>

definition tables_inv :: "ev_state \<Rightarrow> bool" where
  "tables_inv s \<longleftrightarrow> slots_inv (ev_streams s) \<and> slots_inv (ev_conns s)"

definition pushed :: "event \<Rightarrow> ev_state \<Rightarrow> ev_state \<Rightarrow> bool" where
  "pushed e0 s t \<longleftrightarrow> t = s \<or> (tables_inv s \<longrightarrow> tables_inv t) \<and> queued_flag e0 s = Some False \<and> ev_queue t = ev_queue s @ [e0]
     \<and> (\<forall>e. queued_flag e t = (if e = e0 then Some True else queued_flag e s))"

lemma flag_modify_stream:
  "queued_flag e (s\<lparr>ev_streams := slots_modify (id_slot i) f (ev_streams s), ev_queue := q\<rparr>) =
    (case e of
       StreamReadable j \<Rightarrow> if i = j then map_option (ss_readable_queued \<circ> f) (slots_get (id_slot i) (ev_streams s)) else queued_flag e s
     | StreamWritable j \<Rightarrow> if i = j then map_option (ss_writable_queued \<circ> f) (slots_get (id_slot i) (ev_streams s)) else queued_flag e s
     | _ \<Rightarrow> queued_flag e s)"
  by (cases e) (auto simp: slots_modify_get id_slot_inj option.map_comp)

lemma flag_modify_conn:
  "queued_flag e (s\<lparr>ev_conns := slots_modify (id_slot i) f (ev_conns s), ev_queue := q\<rparr>) =
    (case e of
       MpReady j \<Rightarrow> if i = j then map_option (cs_mp_ready_queued \<circ> f) (slots_get (id_slot i) (ev_conns s)) else queued_flag e s
     | DatagramReadable j \<Rightarrow> if i = j then map_option (cs_dgram_readable_queued \<circ> f) (slots_get (id_slot i) (ev_conns s)) else queued_flag e s
     | _ \<Rightarrow> queued_flag e s)"
  by (cases e) (auto simp: slots_modify_get id_slot_inj option.map_comp)

lemma pushed_readable: "pushed (StreamReadable i) s (push_readable i s)"
proof (cases "slots_get (id_slot i) (ev_streams s)")
  case (Some x)
  then show ?thesis
    by (auto simp: pushed_def tables_inv_def slots_modify_inv push_readable_def flag_modify_stream o_def split: event.splits)
qed (simp add: pushed_def push_readable_def)

lemma pushed_writable: "pushed (StreamWritable i) s (push_writable i s)"
proof (cases "slots_get (id_slot i) (ev_streams s)")
  case (Some x)
  then show ?thesis
    by (auto simp: pushed_def tables_inv_def slots_modify_inv push_writable_def flag_modify_stream o_def split: event.splits)
qed (simp add: pushed_def push_writable_def)

lemma pushed_mp_ready: "pushed (MpReady i) s (push_mp_ready i s)"
proof (cases "slots_get (id_slot i) (ev_conns s)")
  case (Some x)
  then show ?thesis
    by (auto simp: pushed_def tables_inv_def slots_modify_inv push_mp_ready_def flag_modify_conn o_def split: event.splits)
qed (simp add: pushed_def push_mp_ready_def)

lemma pushed_datagram_readable: "pushed (DatagramReadable i) s (push_datagram_readable i s)"
proof (cases "slots_get (id_slot i) (ev_conns s)")
  case (Some x)
  then show ?thesis
    by (auto simp: pushed_def tables_inv_def slots_modify_inv push_datagram_readable_def flag_modify_conn o_def split: event.splits)
qed (simp add: pushed_def push_datagram_readable_def)

lemmas pushed_intros = pushed_readable pushed_writable pushed_mp_ready pushed_datagram_readable

lemma pushed_inv:
  assumes "pushed e0 s t" and "ev_inv s"
  shows "ev_inv t"
proof (cases "t = s")
  case False
  with assms(1) have p: "tables_inv s \<longrightarrow> tables_inv t" "queued_flag e0 s = Some False" "ev_queue t = ev_queue s @ [e0]"
    "queued_flag e t = (if e = e0 then Some True else queued_flag e s)" for e by (auto simp: pushed_def)
  have "count_list (ev_queue s) e0 = 0" using ev_invD [OF assms(2) p(2)] by simp
  then have "count_list (ev_queue t) e = (if f then 1 else 0)" if "queued_flag e t = Some f" for e f
    using that ev_invD [OF assms(2), of e f] by (cases "e = e0") (auto simp: p(3,4))
  with p(1) assms(2) show ?thesis by (simp add: ev_inv_def tables_inv_def)
qed (use assms in simp)

lemma flag_clear:
  "queued_flag e (clear_flag d s) = (if e = d then map_option (\<lambda>_. False) (queued_flag e s) else queued_flag e s)"
  using flag_modify_stream [where q = "ev_queue s" and s = s and e = e] flag_modify_conn [where q = "ev_queue s" and s = s and e = e]
  by (cases d) (auto simp: o_def option.map_comp split: event.splits)

lemma tables_clear: "tables_inv s \<Longrightarrow> tables_inv (clear_flag d s)"
  by (cases d) (simp_all add: tables_inv_def slots_modify_inv)

lemma flag_level: "queued_flag e s = Some f \<Longrightarrow> is_level e"
  by (cases e) simp_all

lemma flag_queue [simp]: "queued_flag e (s\<lparr>ev_queue := q\<rparr>) = queued_flag e s"
  by (cases e) simp_all

lemma pop_event_inv:
  assumes "ev_inv s"
  shows "ev_inv (snd (pop_event s))"
proof (cases "ev_queue s")
  case (Cons d ds)
  have "count_list ds e = (if f then 1 else 0)" if "queued_flag e (clear_flag d (s\<lparr>ev_queue := ds\<rparr>)) = Some f" for e f
    using that ev_invD [OF assms, of e] Cons by (auto simp: flag_clear split: if_splits)
  moreover have "tables_inv (clear_flag d (s\<lparr>ev_queue := ds\<rparr>))"
    using assms by (intro tables_clear) (simp add: ev_inv_def tables_inv_def)
  ultimately show ?thesis using Cons by (simp add: pop_event_def ev_inv_def tables_inv_def)
qed (use assms in \<open>simp add: pop_event_def\<close>)

section \<open>Reachable states\<close>

text \<open>
  The steps of the transport on queue and tables. A new object gets an id that no queued level event
  names (ids repeat only after \<open>2 ^ 32 - 1\<close> reuses of a slot), and its flags start clear; a released slot
  takes its flags with it; other updates of a slot leave the flags alone.
\<close>

definition unnamed :: "slot_id \<Rightarrow> ev_state \<Rightarrow> bool" where
  "unnamed i s \<longleftrightarrow> list_all (\<lambda>e. is_level e \<longrightarrow> id_slot (event_id e) \<noteq> i) (ev_queue s)"

inductive ev_step :: "ev_state \<Rightarrow> ev_state \<Rightarrow> bool" where
  "ev_step s (push_readable i s)"
| "ev_step s (push_writable i s)"
| "ev_step s (push_mp_ready i s)"
| "ev_step s (push_datagram_readable i s)"
| "\<not> is_level e \<Longrightarrow> ev_step s (push_event e s)"
| "ev_step s (snd (pop_event s))"
| new_stream: "slots_room (ev_streams s) \<Longrightarrow> slots_insert (stream_slot_new c p q k) (ev_streams s) = Some (i, t) \<Longrightarrow> unnamed i s \<Longrightarrow>
    ev_step s (s\<lparr>ev_streams := t\<rparr>)"
| new_conn: "slots_room (ev_conns s) \<Longrightarrow> slots_insert (conn_slot_new srv p cid) (ev_conns s) = Some (i, t) \<Longrightarrow> unnamed i s \<Longrightarrow>
    ev_step s (s\<lparr>ev_conns := t\<rparr>)"
| free_stream: "ev_step s (s\<lparr>ev_streams := snd (slots_remove i (ev_streams s))\<rparr>)"
| free_conn: "ev_step s (s\<lparr>ev_conns := snd (slots_remove i (ev_conns s))\<rparr>)"
| edit_stream: "(\<And>x. ss_readable_queued (f x) = ss_readable_queued x \<and> ss_writable_queued (f x) = ss_writable_queued x) \<Longrightarrow>
    ev_step s (s\<lparr>ev_streams := slots_modify i f (ev_streams s)\<rparr>)"
| edit_conn: "(\<And>x. cs_mp_ready_queued (g x) = cs_mp_ready_queued x \<and> cs_dgram_readable_queued (g x) = cs_dgram_readable_queued x) \<Longrightarrow>
    ev_step s (s\<lparr>ev_conns := slots_modify i g (ev_conns s)\<rparr>)"

text \<open>What the table steps do to the flags.\<close>

definition keeps_flags :: "ev_state \<Rightarrow> ev_state \<Rightarrow> bool" where
  "keeps_flags s t \<longleftrightarrow> ev_queue t = ev_queue s \<and> tables_inv t \<and> (\<forall>e. queued_flag e t = queued_flag e s
     \<or> queued_flag e t = None \<or> queued_flag e t = Some False \<and> e \<notin> set (ev_queue s))"

lemma keeps_new_stream:
  assumes "tables_inv s" and "slots_room (ev_streams s)" and "slots_insert (stream_slot_new c p q k) (ev_streams s) = Some (i, t)"
    and "unnamed i s"
  shows "keeps_flags s (s\<lparr>ev_streams := t\<rparr>)"
proof -
  have t: "slots_inv t" "slots_get j t = (if j = i then Some (stream_slot_new c p q k) else slots_get j (ev_streams s))" for j
    using slot.insert_law [of "ev_streams s" "stream_slot_new c p q k"] assms(1-3)
    by (auto simp: tables_inv_def fun_eq_iff)
  have "queued_flag e (s\<lparr>ev_streams := t\<rparr>) = queued_flag e s
      \<or> queued_flag e (s\<lparr>ev_streams := t\<rparr>) = Some False \<and> e \<notin> set (ev_queue s)" for e
    using assms(4) by (cases e) (auto simp: t(2) stream_slot_new_def unnamed_def list_all_iff)
  with t(1) assms(1) show ?thesis by (simp add: keeps_flags_def tables_inv_def) blast
qed

lemma keeps_new_conn:
  assumes "tables_inv s" and "slots_room (ev_conns s)" and "slots_insert (conn_slot_new srv p cid) (ev_conns s) = Some (i, t)"
    and "unnamed i s"
  shows "keeps_flags s (s\<lparr>ev_conns := t\<rparr>)"
proof -
  have t: "slots_inv t" "slots_get j t = (if j = i then Some (conn_slot_new srv p cid) else slots_get j (ev_conns s))" for j
    using slot.insert_law [of "ev_conns s" "conn_slot_new srv p cid"] assms(1-3)
    by (auto simp: tables_inv_def fun_eq_iff)
  have "queued_flag e (s\<lparr>ev_conns := t\<rparr>) = queued_flag e s
      \<or> queued_flag e (s\<lparr>ev_conns := t\<rparr>) = Some False \<and> e \<notin> set (ev_queue s)" for e
    using assms(4) by (cases e) (auto simp: t(2) conn_slot_new_def unnamed_def list_all_iff)
  with t(1) assms(1) show ?thesis by (simp add: keeps_flags_def tables_inv_def) blast
qed

lemma keeps_free:
  assumes "tables_inv s"
  shows "keeps_flags s (s\<lparr>ev_streams := snd (slots_remove i (ev_streams s))\<rparr>)"
    and "keeps_flags s (s\<lparr>ev_conns := snd (slots_remove i (ev_conns s))\<rparr>)"
proof -
  have s: "slots_inv (snd (slots_remove i (ev_streams s)))"
      "slots_get j (snd (slots_remove i (ev_streams s))) = (if j = i then None else slots_get j (ev_streams s))" for j
    using slot.remove_law [of "ev_streams s" i] assms by (auto simp: tables_inv_def fun_eq_iff)
  have c: "slots_inv (snd (slots_remove i (ev_conns s)))"
      "slots_get j (snd (slots_remove i (ev_conns s))) = (if j = i then None else slots_get j (ev_conns s))" for j
    using slot.remove_law [of "ev_conns s" i] assms by (auto simp: tables_inv_def fun_eq_iff)
  have "queued_flag e (s\<lparr>ev_streams := snd (slots_remove i (ev_streams s))\<rparr>) \<in> {queued_flag e s, None}"
    "queued_flag e (s\<lparr>ev_conns := snd (slots_remove i (ev_conns s))\<rparr>) \<in> {queued_flag e s, None}" for e
    by (cases e; simp add: s(2) c(2))+
  then show "keeps_flags s (s\<lparr>ev_streams := snd (slots_remove i (ev_streams s))\<rparr>)"
    "keeps_flags s (s\<lparr>ev_conns := snd (slots_remove i (ev_conns s))\<rparr>)"
    using s(1) c(1) assms unfolding keeps_flags_def tables_inv_def by (simp_all, blast+)
qed

lemma keeps_edit:
  assumes "tables_inv s"
  shows "(\<And>x. ss_readable_queued (f x) = ss_readable_queued x \<and> ss_writable_queued (f x) = ss_writable_queued x) \<Longrightarrow>
      keeps_flags s (s\<lparr>ev_streams := slots_modify i f (ev_streams s)\<rparr>)"
    and "(\<And>x. cs_mp_ready_queued (g x) = cs_mp_ready_queued x \<and> cs_dgram_readable_queued (g x) = cs_dgram_readable_queued x) \<Longrightarrow>
      keeps_flags s (s\<lparr>ev_conns := slots_modify i g (ev_conns s)\<rparr>)"
proof -
  assume f: "\<And>x. ss_readable_queued (f x) = ss_readable_queued x \<and> ss_writable_queued (f x) = ss_writable_queued x"
  have "queued_flag e (s\<lparr>ev_streams := slots_modify i f (ev_streams s)\<rparr>) = queued_flag e s" for e
    using f by (cases e) (auto simp: slots_modify_get option.map_comp o_def)
  then show "keeps_flags s (s\<lparr>ev_streams := slots_modify i f (ev_streams s)\<rparr>)"
    using assms by (simp add: keeps_flags_def tables_inv_def slots_modify_inv)
next
  assume g: "\<And>x. cs_mp_ready_queued (g x) = cs_mp_ready_queued x \<and> cs_dgram_readable_queued (g x) = cs_dgram_readable_queued x"
  have "queued_flag e (s\<lparr>ev_conns := slots_modify i g (ev_conns s)\<rparr>) = queued_flag e s" for e
    using g by (cases e) (auto simp: slots_modify_get option.map_comp o_def)
  then show "keeps_flags s (s\<lparr>ev_conns := slots_modify i g (ev_conns s)\<rparr>)"
    using assms by (simp add: keeps_flags_def tables_inv_def slots_modify_inv)
qed

definition ev_empty :: ev_state where
  "ev_empty = \<lparr>ev_queue = [], ev_streams = slots_default, ev_conns = slots_default\<rparr>"

lemma push_event_inv:
  assumes "\<not> is_level d" and "ev_inv s"
  shows "ev_inv (push_event d s)"
proof -
  have "queued_flag d s = None" using flag_level [of d s] assms(1) by (cases "queued_flag d s") auto
  then show ?thesis using assms(2) by (auto simp: ev_inv_def push_event_def)
qed

lemma keeps_flags_inv:
  assumes "keeps_flags s t" and "ev_inv s"
  shows "ev_inv t"
proof -
  have q: "ev_queue t = ev_queue s" and tb: "tables_inv t" using assms(1) by (simp_all add: keeps_flags_def)
  have "count_list (ev_queue t) e = (if f then 1 else 0)" if f: "queued_flag e t = Some f" for e f
  proof (cases "queued_flag e s = Some f")
    case True
    with ev_invD [OF assms(2)] q show ?thesis by simp
  next
    case False
    with f assms(1) have "queued_flag e t = Some False" "e \<notin> set (ev_queue s)" by (metis keeps_flags_def option.distinct(1))+
    with f q show ?thesis by (simp add: count_list_0_iff)
  qed
  with tb show ?thesis by (simp add: ev_inv_def tables_inv_def)
qed

lemma ev_step_inv:
  assumes "ev_step s t" and inv: "ev_inv s"
  shows "ev_inv t"
proof -
  have tb: "tables_inv s" using inv by (simp add: ev_inv_def tables_inv_def)
  from assms(1) show ?thesis
    by (cases rule: ev_step.cases)
      (blast intro: inv pushed_inv pushed_intros push_event_inv pop_event_inv
        keeps_flags_inv [OF _ inv] keeps_new_stream [OF tb] keeps_new_conn [OF tb] keeps_free [OF tb] keeps_edit [OF tb])+
qed

lemma ev_reachable_inv: "ev_step\<^sup>*\<^sup>* ev_empty s \<Longrightarrow> ev_inv s"
proof (induction rule: rtranclp_induct)
  case base
  have "queued_flag e ev_empty = None" for e
    by (cases e) (simp_all add: ev_empty_def slots_get_def slots_default_def)
  then show ?case by (simp add: ev_inv_def ev_empty_def)
qed (auto intro: ev_step_inv)

section \<open>Properties\<close>

lemma live_clear [simp]: "event_live e (clear_flag d s) = event_live e s"
proof -
  have m: "slots_is_live i (slots_modify k f t) = slots_is_live i t" for i k f and t :: "'a slots"
    by (auto simp: slots_is_live_def slots_modify_get)
  show ?thesis by (cases d; cases e) (simp_all add: m)
qed

lemma live_queue [simp]: "event_live e (s\<lparr>ev_queue := q\<rparr>) = event_live e s"
  by (cases e) simp_all

text \<open>C27. Coalescing without loss: in every reachable state, a live object has its level event queued exactly when its flag
  is set, and then once; reporting a readable or writable stream that is not abandoned, a multipath-ready
  connection or one with datagrams leaves exactly one such event queued; and taking a level event
  from the queue clears its flag, so the next report queues it again.\<close>

theorem events_coalesce:
  assumes "ev_step\<^sup>*\<^sup>* ev_empty s"
  shows "(\<forall>e f. queued_flag e s = Some f \<longrightarrow> count_list (ev_queue s) e = (if f then 1 else 0))
    \<and> (\<forall>x. slots_get (id_slot i) (ev_streams s) = Some x \<and> \<not> ss_abandoned x \<longrightarrow>
         count_list (ev_queue (push_readable i s)) (StreamReadable i) = 1
         \<and> count_list (ev_queue (push_writable i s)) (StreamWritable i) = 1)
    \<and> (slots_is_live (id_slot i) (ev_conns s) \<longrightarrow>
         count_list (ev_queue (push_mp_ready i s)) (MpReady i) = 1
         \<and> count_list (ev_queue (push_datagram_readable i s)) (DatagramReadable i) = 1)
    \<and> (\<forall>e s'. pop_event s = (Some e, s') \<and> queued_flag e s \<noteq> None \<longrightarrow>
         queued_flag e s' = Some False \<and> e \<notin> set (ev_queue s'))"
proof -
  have inv: "ev_inv s" using assms by (rule ev_reachable_inv)
  have done1: "count_list (ev_queue t) e = 1" if "pushed e s t" "queued_flag e t = Some True" for e t
    using ev_invD [OF pushed_inv [OF that(1) inv] that(2)] by simp
  have "queued_flag (StreamReadable i) (push_readable i s) = Some True \<and> queued_flag (StreamWritable i) (push_writable i s) = Some True"
    if "slots_get (id_slot i) (ev_streams s) = Some x" "\<not> ss_abandoned x" for x
    using that by (simp add: push_readable_def push_writable_def slots_modify_get)
  moreover have "queued_flag (MpReady i) (push_mp_ready i s) = Some True
      \<and> queued_flag (DatagramReadable i) (push_datagram_readable i s) = Some True" if "slots_is_live (id_slot i) (ev_conns s)"
    using that by (auto simp: slots_is_live_def push_mp_ready_def push_datagram_readable_def slots_modify_get)
  moreover have "queued_flag e s' = Some False \<and> e \<notin> set (ev_queue s')"
    if p: "pop_event s = (Some e, s')" "queued_flag e s \<noteq> None" for e s'
  proof -
    have f: "queued_flag e s' = Some False" using p by (auto simp: pop_event_def flag_clear split: list.splits)
    then have "count_list (ev_queue s') e = 0" using ev_invD [OF pop_event_inv [OF inv], of e False] p by simp
    with f show ?thesis by (simp add: count_list_0_iff)
  qed
  ultimately show ?thesis using inv done1 pushed_intros unfolding ev_inv_def by blast
qed

theorem events_coalesce_witness:
  "\<exists>s. ev_step\<^sup>*\<^sup>* ev_empty s \<and> count_list (ev_queue (push_readable (GenId 0 1) s)) (StreamReadable (GenId 0 1)) = 1"
proof -
  let ?t = "\<lparr>s_entries = [\<lparr>e_generation = 1, e_value = Some (stream_slot_new 0 0 0 Bidi)\<rparr>], s_free = []\<rparr>"
  let ?s = "ev_empty\<lparr>ev_streams := ?t\<rparr>"
  have "ev_step ev_empty ?s"
    by (rule new_stream [where i = "slot_new 0 1"])
      (simp_all add: ev_empty_def slots_room_def slots_default_def slots_insert_def unnamed_def)
  then have r: "ev_step\<^sup>*\<^sup>* ev_empty ?s" by (rule r_into_rtranclp)
  have "slots_get (id_slot (GenId 0 1)) (ev_streams ?s) = Some (stream_slot_new 0 0 0 Bidi)"
    by (simp add: slots_get_def id_slot_def)
  with events_coalesce [OF r, of "GenId 0 1"] r show ?thesis by (auto simp: stream_slot_new_def)
qed

text \<open>C28. The consumer returns the oldest event whose object still exists (a close event always does) and discards
  only events of objects that are gone, in order; it terminates, and reports nothing only when every
  queued event was stale.\<close>

theorem poll_event_oldest_live:
  "\<exists>dropped. ev_queue s = dropped @ (case fst (poll_event s) of None \<Rightarrow> [] | Some e \<Rightarrow> [e]) @ ev_queue (snd (poll_event s))
     \<and> list_all (\<lambda>d. \<not> event_live d s) dropped
     \<and> (case fst (poll_event s) of None \<Rightarrow> ev_queue (snd (poll_event s)) = [] | Some e \<Rightarrow> event_live e s)"
proof (induction s rule: poll_event.induct)
  case (1 s)
  show ?case
  proof (cases "ev_queue s")
    case Nil
    then show ?thesis by (subst (1 2 3 4) poll_event.simps) (simp add: pop_event_def)
  next
    case (Cons e es)
    let ?t = "clear_flag e (s\<lparr>ev_queue := es\<rparr>)"
    have pop: "pop_event s = (Some e, ?t)" by (simp add: pop_event_def Cons)
    show ?thesis
    proof (cases "event_live e s")
      case True
      then have "poll_event s = (Some e, ?t)" by (subst poll_event.simps) (simp add: pop)
      with True Cons show ?thesis by simp
    next
      case False
      then have p: "poll_event s = poll_event ?t" by (subst poll_event.simps) (simp add: pop)
      from "1.IH" [OF pop [symmetric] refl] False obtain dropped where
        "es = dropped @ (case fst (poll_event ?t) of None \<Rightarrow> [] | Some e \<Rightarrow> [e]) @ ev_queue (snd (poll_event ?t))"
        "list_all (\<lambda>d. \<not> event_live d s) dropped"
        "case fst (poll_event ?t) of None \<Rightarrow> ev_queue (snd (poll_event ?t)) = [] | Some e \<Rightarrow> event_live e s"
        by (cases "fst (poll_event ?t)") auto
      with False Cons show ?thesis unfolding p by (intro exI [of _ "e # dropped"]) simp
    qed
  qed
qed

end
