(* ===== verification/Tcp_Relay.thy ===== *)
theory Tcp_Relay
  imports Event_Queue
begin

text \<open>
  The flow relay, \<^verbatim>\<open>crates/mq-runtime/src/shard/relay.rs\<close>: one QUIC stream bound to one TCP socket, with a buffer
  per direction, half-close in both directions and a reset probe.

  The transport is a parameter, \<open>transport_ops\<close>: what \<open>stream_send\<close> and \<open>stream_recv\<close> answer, over a
  state of its own. \<open>stream_recv\<close> gets the length of the buffer it is offered and returns the
  bytes it put there. The loops are partial functions into \<open>option\<close>: \<open>None\<close> is a panic or a loop that never ends,
  and that neither happens is proved, not assumed.
\<close>

section \<open>Types\<close>

datatype stream_error = SBlocked | SReset | SStale | SConn

record 'x transport_ops =
  tp_send :: "time \<Rightarrow> stream_id \<Rightarrow> bytes \<Rightarrow> bool \<Rightarrow> 'x \<Rightarrow> (nat, stream_error) result \<times> 'x"
  tp_recv :: "time \<Rightarrow> stream_id \<Rightarrow> nat \<Rightarrow> 'x \<Rightarrow> (bytes \<times> bool, stream_error) result \<times> 'x"

text \<open>The kind of an I/O error is a number.\<close>

datatype io_result = IoBytes nat | IoEof | IoWouldBlock | IoError nat

record interest =
  in_read :: bool
  in_write :: bool

record stream_preread =
  sp_bytes :: bytes
  sp_fin :: bool

datatype preread_too_large = PrereadTooLarge

definition RELAY_BUF :: nat where "RELAY_BUF = 64 * 1024"

datatype relay_end = Clean | Abort
datatype relay_state = RelayOpen | RelayClosed relay_end
datatype pump_outcome = Progressed | PumpIdle | PumpClosed relay_end

record relay =
  r_conn :: conn_id
  r_tcp :: gen_id
  r_stream :: stream_id
  r_to_quic :: ring_buf
  r_to_tcp :: ring_buf
  r_stream_readable :: bool
  r_stream_writable :: bool
  r_fin_seen :: bool
  r_stream_gone :: bool
  r_reset_probe :: bool
  r_tcp_read_eof :: bool
  r_tcp_write_shut :: bool
  r_fin_sent :: bool
  r_shut_wr_requested :: bool
  r_state :: relay_state

section \<open>Operations\<close>

definition relay_start ::
  "conn_id \<Rightarrow> gen_id \<Rightarrow> stream_id \<Rightarrow> bytes \<Rightarrow> bool \<Rightarrow> bytes \<Rightarrow> stream_preread \<Rightarrow> (relay, preread_too_large) result option" where
  "relay_start conn tcp stream tcp_prebuf tcp_read_eof to_tcp_queued preread =
     (let to_quic = ring_new RELAY_BUF; to_tcp = ring_new RELAY_BUF in
      if ring_capacity to_tcp < length to_tcp_queued + length (sp_bytes preread) \<or> ring_capacity to_quic < length tcp_prebuf
      then Some (Err PrereadTooLarge)
      else do {
        to_quic \<leftarrow> ring_append tcp_prebuf to_quic;
        to_tcp \<leftarrow> ring_append to_tcp_queued to_tcp;
        to_tcp \<leftarrow> ring_append (sp_bytes preread) to_tcp;
        Some (Ok \<lparr>r_conn = conn, r_tcp = tcp, r_stream = stream, r_to_quic = to_quic, r_to_tcp = to_tcp,
          r_stream_readable = (\<not> sp_fin preread), r_stream_writable = True, r_fin_seen = sp_fin preread,
          r_stream_gone = False, r_reset_probe = False, r_tcp_read_eof = tcp_read_eof, r_tcp_write_shut = False,
          r_fin_sent = False, r_shut_wr_requested = False, r_state = RelayOpen\<rparr>)
      })"

definition relay_open :: "relay \<Rightarrow> bool" where
  "relay_open r \<longleftrightarrow> r_state r = RelayOpen"

definition relay_abort :: "relay \<Rightarrow> relay" where
  "relay_abort r = (if relay_open r then r\<lparr>r_state := RelayClosed Abort\<rparr> else r)"

definition check_clean :: "relay \<Rightarrow> relay" where
  "check_clean r =
     (if relay_open r \<and> r_fin_sent r \<and> r_tcp_write_shut r \<and> ring_is_empty (r_to_tcp r)
      then r\<lparr>r_state := RelayClosed Clean\<rparr> else r)"

definition fin_owed :: "relay \<Rightarrow> bool" where
  "fin_owed r \<longleftrightarrow> r_tcp_read_eof r \<and> ring_is_empty (r_to_quic r) \<and> \<not> r_fin_sent r"

definition shut_wr_owed :: "relay \<Rightarrow> bool" where
  "shut_wr_owed r \<longleftrightarrow> r_fin_seen r \<and> ring_is_empty (r_to_tcp r) \<and> \<not> r_tcp_write_shut r \<and> \<not> r_shut_wr_requested r"

definition is_runnable :: "relay \<Rightarrow> bool" where
  "is_runnable r \<longleftrightarrow> relay_open r
     \<and> (\<not> ring_is_empty (r_to_quic r) \<and> r_stream_writable r
        \<or> r_stream_readable r \<and> 0 < ring_space (r_to_tcp r) \<and> \<not> r_stream_gone r
        \<or> r_reset_probe r
        \<or> fin_owed r \<and> r_stream_writable r
        \<or> shut_wr_owed r)"

text \<open>Lines 191 to 210.\<close>

partial_function (option) quic_loop ::
  "'x transport_ops \<Rightarrow> time \<Rightarrow> nat \<Rightarrow> bool \<Rightarrow> relay \<Rightarrow> 'x \<Rightarrow> (bool \<times> relay \<times> 'x) option" where
  "quic_loop ops now left progressed r x =
     (if relay_open r \<and> r_stream_writable r \<and> \<not> ring_is_empty (r_to_quic r) \<and> 0 < left then
        let data = ring_read_slice (r_to_quic r);
            chunk = take (min (length data) left) data;
            fin = (r_tcp_read_eof r \<and> length chunk = length data)
        in (case tp_send ops now (r_stream r) chunk fin x of
              (Ok n, x) \<Rightarrow>
                let n = min n (length chunk);
                    short = (n < length chunk);
                    r = r\<lparr>r_fin_sent := (r_fin_sent r \<or> fin \<and> \<not> short)\<rparr>
                in Option.bind (ring_consume n (r_to_quic r))
                     (\<lambda>b. quic_loop ops now (left - n) (progressed \<or> 0 < n \<or> r_fin_sent r)
                        (if short then r\<lparr>r_to_quic := b, r_stream_writable := False\<rparr> else r\<lparr>r_to_quic := b\<rparr>) x)
            | (Err e, x) \<Rightarrow>
                quic_loop ops now left progressed
                  (if e = SBlocked then r\<lparr>r_stream_writable := False\<rparr> else relay_abort r) x)
      else Some (progressed, r, x))"

definition pump_to_quic :: "'x transport_ops \<Rightarrow> time \<Rightarrow> nat \<Rightarrow> relay \<Rightarrow> 'x \<Rightarrow> (bool \<times> relay \<times> 'x) option" where
  "pump_to_quic ops now budget r x = do {
     (progressed, r, x) \<leftarrow> quic_loop ops now budget False r x;
     if relay_open r \<and> r_stream_writable r \<and> fin_owed r then
       (case tp_send ops now (r_stream r) [] True x of
          (Ok _, x) \<Rightarrow> Some (True, r\<lparr>r_fin_sent := True\<rparr>, x)
        | (Err e, x) \<Rightarrow> Some (progressed, if e = SBlocked then r\<lparr>r_stream_writable := False\<rparr> else relay_abort r, x))
     else Some (progressed, r, x) }"

text \<open>Lines 228 to 254.\<close>

partial_function (option) tcp_loop ::
  "'x transport_ops \<Rightarrow> time \<Rightarrow> nat \<Rightarrow> bool \<Rightarrow> relay \<Rightarrow> 'x \<Rightarrow> (bool \<times> relay \<times> 'x) option" where
  "tcp_loop ops now left progressed r x =
     (if relay_open r \<and> r_stream_readable r \<and> 0 < ring_space (r_to_tcp r) \<and> \<not> r_stream_gone r \<and> 0 < left then
        let cap = min (ring_space (r_to_tcp r)) left in
        (case tp_recv ops now (r_stream r) cap x of
           (Ok (bs, fin), x) \<Rightarrow>
             let n = min (length bs) cap in
             Option.bind (ring_write_slice 0 (take n bs) (r_to_tcp r)) (\<lambda>b.
             Option.bind (ring_commit n b) (\<lambda>b.
             let r = r\<lparr>r_to_tcp := b\<rparr> in
             tcp_loop ops now (left - n) (progressed \<or> 0 < n \<or> fin)
               (if fin then r\<lparr>r_fin_seen := True, r_stream_readable := False\<rparr>
                else if n = 0 then r\<lparr>r_stream_readable := False\<rparr> else r) x))
         | (Err e, x) \<Rightarrow>
             tcp_loop ops now left progressed
               (if e = SBlocked then r\<lparr>r_stream_readable := False\<rparr> else relay_abort r) x)
      else Some (progressed, r, x))"

definition pump_to_tcp :: "'x transport_ops \<Rightarrow> time \<Rightarrow> nat \<Rightarrow> relay \<Rightarrow> 'x \<Rightarrow> (bool \<times> relay \<times> 'x) option" where
  "pump_to_tcp ops now budget r x = tcp_loop ops now budget False r x"

definition reset_probe_step :: "'x transport_ops \<Rightarrow> time \<Rightarrow> relay \<Rightarrow> 'x \<Rightarrow> bool \<times> relay \<times> 'x" where
  "reset_probe_step ops now r x =
     (if relay_open r \<and> r_reset_probe r then
        let r = r\<lparr>r_reset_probe := False\<rparr> in
        (case tp_recv ops now (r_stream r) 0 x of
           (Ok (_, fin), x) \<Rightarrow> (True, if fin then r\<lparr>r_fin_seen := True, r_stream_readable := False\<rparr> else r, x)
         | (Err e, x) \<Rightarrow> (True, if e = SBlocked then r else relay_abort r, x))
      else (False, r, x))"

definition relay_pump :: "'x transport_ops \<Rightarrow> time \<Rightarrow> nat \<Rightarrow> relay \<Rightarrow> 'x \<Rightarrow> (pump_outcome \<times> relay \<times> 'x) option" where
  "relay_pump ops now budget_per_dir r x = do {
     let (p0, r, x) = reset_probe_step ops now r x;
     (p1, r, x) \<leftarrow> pump_to_quic ops now budget_per_dir r x;
     (p2, r, x) \<leftarrow> pump_to_tcp ops now budget_per_dir r x;
     let r = check_clean r;
     Some (case r_state r of RelayClosed e \<Rightarrow> PumpClosed e | RelayOpen \<Rightarrow> if p0 \<or> p1 \<or> p2 then Progressed else PumpIdle, r, x) }"

definition tcp_rx_commit :: "'x transport_ops \<Rightarrow> time \<Rightarrow> io_result \<Rightarrow> relay \<Rightarrow> 'x \<Rightarrow> (relay \<times> 'x) option" where
  "tcp_rx_commit ops now res r x =
     (if \<not> relay_open r then Some (r, x)
      else
        (case res of
           IoBytes n \<Rightarrow> do {
             b \<leftarrow> ring_commit n (r_to_quic r);
             (_, r, x) \<leftarrow> pump_to_quic ops now RELAY_BUF (r\<lparr>r_to_quic := b\<rparr>) x;
             Some (check_clean r, x) }
         | IoEof \<Rightarrow> do {
             (_, r, x) \<leftarrow> pump_to_quic ops now RELAY_BUF (r\<lparr>r_tcp_read_eof := True\<rparr>) x;
             Some (check_clean r, x) }
         | IoWouldBlock \<Rightarrow> Some (r, x)
         | IoError _ \<Rightarrow> Some (relay_abort r, x)))"

definition tcp_tx_commit :: "io_result \<Rightarrow> relay \<Rightarrow> relay option" where
  "tcp_tx_commit res r =
     (if \<not> relay_open r then Some r
      else
        (case res of
           IoBytes n \<Rightarrow> map_option (\<lambda>b. r\<lparr>r_to_tcp := b\<rparr>) (ring_consume (min n (ring_len (r_to_tcp r))) (r_to_tcp r))
         | IoWouldBlock \<Rightarrow> Some r
         | IoEof \<Rightarrow> Some (relay_abort r)
         | IoError _ \<Rightarrow> Some (relay_abort r)))"

definition tcp_interest :: "relay \<Rightarrow> interest" where
  "tcp_interest r =
     \<lparr>in_read = (relay_open r \<and> \<not> r_tcp_read_eof r \<and> r_stream_writable r \<and> 0 < ring_space (r_to_quic r)),
      in_write = (relay_open r \<and> \<not> ring_is_empty (r_to_tcp r))\<rparr>"

fun on_stream_event :: "event \<Rightarrow> relay \<Rightarrow> relay" where
  "on_stream_event (StreamReadable s) r =
     (if relay_open r \<and> s = r_stream r \<and> \<not> r_stream_gone r then
        let r = r\<lparr>r_stream_readable := (\<not> r_fin_seen r)\<rparr> in
        if r_fin_seen r \<or> ring_space (r_to_tcp r) = 0 then r\<lparr>r_reset_probe := True\<rparr> else r
      else r)"
| "on_stream_event (StreamWritable s) r =
     (if relay_open r \<and> s = r_stream r then r\<lparr>r_stream_writable := True\<rparr> else r)"
| "on_stream_event (StreamClosed s) r =
     (if relay_open r \<and> s = r_stream r then
        if r_fin_seen r \<and> r_fin_sent r
        then check_clean (r\<lparr>r_stream_gone := True, r_stream_readable := False, r_reset_probe := False\<rparr>)
        else relay_abort r
      else r)"
| "on_stream_event (ConnClosed c _) r = (if relay_open r \<and> c = r_conn r then relay_abort r else r)"
| "on_stream_event _ r = r"

definition take_owed_shutdown :: "relay \<Rightarrow> bool \<times> relay" where
  "take_owed_shutdown r =
     (let owed = (relay_open r \<and> shut_wr_owed r) in (owed, if owed then r\<lparr>r_shut_wr_requested := True\<rparr> else r))"

definition shutdown_done :: "relay \<Rightarrow> relay" where
  "shutdown_done r = check_clean (r\<lparr>r_tcp_write_shut := True\<rparr>)"

definition end_reason :: "relay \<Rightarrow> relay_end option" where
  "end_reason r = (case r_state r of RelayOpen \<Rightarrow> None | RelayClosed e \<Rightarrow> Some e)"

section \<open>What has crossed the relay\<close>

text \<open>
  The transport with a record of what it accepted and delivered on the stream: the bytes of each
  send it took, the bytes it put into the offered buffers, and the two FINs.
\<close>

record 'x wire =
  wi_x :: 'x
  wi_out :: bytes
  wi_out_fin :: bool
  wi_in :: bytes
  wi_in_fin :: bool

definition logged :: "'x transport_ops \<Rightarrow> 'x wire transport_ops" where
  "logged ops =
     \<lparr>tp_send = (\<lambda>now s d fin w.
        (case tp_send ops now s d fin (wi_x w) of
           (Ok n, x) \<Rightarrow> (Ok n, w\<lparr>wi_x := x, wi_out := wi_out w @ take (min n (length d)) d,
                                wi_out_fin := (wi_out_fin w \<or> fin \<and> length d \<le> n)\<rparr>)
         | (Err e, x) \<Rightarrow> (Err e, w\<lparr>wi_x := x\<rparr>))),
      tp_recv = (\<lambda>now s cap w.
        (case tp_recv ops now s cap (wi_x w) of
           (Ok (bs, fin), x) \<Rightarrow> (Ok (bs, fin), w\<lparr>wi_x := x, wi_in := wi_in w @ take (min (length bs) cap) bs,
                                wi_in_fin := (wi_in_fin w \<or> fin)\<rparr>)
         | (Err e, x) \<Rightarrow> (Err e, w\<lparr>wi_x := x\<rparr>)))\<rparr>"

text \<open>
  The invariant of a relay against that record and against the bytes read from and written to TCP:
  \<open>pre\<close> is what was queued for TCP at the start, \<open>pfin\<close> whether the stream had ended by then.
\<close>

definition relay_inv :: "bytes \<Rightarrow> bool \<Rightarrow> bytes \<Rightarrow> bytes \<Rightarrow> relay \<Rightarrow> 'x wire \<Rightarrow> bool" where
  "relay_inv pre pfin tcp_in tcp_out r w \<longleftrightarrow>
     ring_inv (r_to_quic r) \<and> ring_inv (r_to_tcp r)
     \<and> wi_out w @ ring_read_slice (r_to_quic r) = tcp_in
     \<and> tcp_out @ ring_read_slice (r_to_tcp r) = pre @ wi_in w
     \<and> (r_fin_sent r \<longrightarrow> r_tcp_read_eof r \<and> ring_read_slice (r_to_quic r) = [] \<and> wi_out_fin w)
     \<and> (r_fin_seen r \<longrightarrow> \<not> r_stream_readable r \<and> (pfin \<or> wi_in_fin w))
     \<and> (r_shut_wr_requested r \<longrightarrow> r_fin_seen r \<and> ring_read_slice (r_to_tcp r) = [])
     \<and> (r_tcp_write_shut r \<longrightarrow> r_shut_wr_requested r)
     \<and> (r_state r = RelayClosed Clean \<longrightarrow> r_fin_sent r \<and> r_tcp_write_shut r)"

lemma quic_loop_exit:
  "\<not> (relay_open r \<and> r_stream_writable r \<and> \<not> ring_is_empty (r_to_quic r) \<and> 0 < left) \<Longrightarrow>
   quic_loop ops now left progressed r x = Some (progressed, r, x)"
  by (subst quic_loop.simps) (rule if_not_P)

lemma tcp_loop_exit:
  "\<not> (relay_open r \<and> r_stream_readable r \<and> 0 < ring_space (r_to_tcp r) \<and> \<not> r_stream_gone r \<and> 0 < left) \<Longrightarrow>
   tcp_loop ops now left progressed r x = Some (progressed, r, x)"
  by (subst tcp_loop.simps) (rule if_not_P)

lemma relay_inv_abort: "relay_inv pre pfin ti to r w \<Longrightarrow> relay_inv pre pfin ti to (relay_abort r) w"
  by (auto simp: relay_inv_def relay_abort_def)

lemma relay_inv_x: "relay_inv pre pfin ti to r w \<Longrightarrow> relay_inv pre pfin ti to r (w\<lparr>wi_x := x\<rparr>)"
  by (simp add: relay_inv_def)

lemma relay_abort_not_open [simp]: "\<not> relay_open (relay_abort r)"
  by (simp add: relay_abort_def relay_open_def)

lemma if_cases: "P a \<Longrightarrow> P b \<Longrightarrow> P (if c then a else b)"
  by simp

text \<open>One accepted send.\<close>

lemma relay_inv_sent:
  assumes "relay_inv pre pfin ti to r w" and "relay_open r" and "m \<le> length (ring_read_slice (r_to_quic r))"
    and "fin \<Longrightarrow> r_tcp_read_eof r \<and> m = length (ring_read_slice (r_to_quic r)) \<and> ofin"
    and "ring_consume m (r_to_quic r) = Some b" and "wi_out_fin w \<Longrightarrow> ofin"
  shows "relay_inv pre pfin ti to (r\<lparr>r_fin_sent := (r_fin_sent r \<or> fin), r_to_quic := b\<rparr>)
    (w\<lparr>wi_x := x, wi_out := wi_out w @ take m (ring_read_slice (r_to_quic r)), wi_out_fin := ofin\<rparr>)"
proof -
  have "ring_inv (r_to_quic r)" using assms(1) by (simp add: relay_inv_def)
  from ring_consume_ok [OF this assms(3)] assms(5)
  have b: "ring_inv b" "ring_read_slice b = drop m (ring_read_slice (r_to_quic r))" by auto
  show ?thesis using assms(1,2,4,6) b unfolding relay_inv_def relay_open_def by auto
qed

lemma relay_inv_unwritable: "relay_inv pre pfin ti to r w \<Longrightarrow> relay_inv pre pfin ti to (r\<lparr>r_stream_writable := False\<rparr>) w"
  by (simp add: relay_inv_def)

lemma relay_inv_unreadable: "relay_inv pre pfin ti to r w \<Longrightarrow> relay_inv pre pfin ti to (r\<lparr>r_stream_readable := False\<rparr>) w"
  by (auto simp: relay_inv_def)

lemma send_cases:
  obtains (Sent) n x where "tp_send ops now s d fin (wi_x w) = (Ok n, x)"
      "tp_send (logged ops) now s d fin w = (Ok n, w\<lparr>wi_x := x, wi_out := wi_out w @ take (min n (length d)) d,
        wi_out_fin := (wi_out_fin w \<or> fin \<and> length d \<le> n)\<rparr>)"
    | (Failed) e x where "tp_send (logged ops) now s d fin w = (Err e, w\<lparr>wi_x := x\<rparr>)"
  by (cases "tp_send ops now s d fin (wi_x w)"; cases "fst (tp_send ops now s d fin (wi_x w))") (auto simp: logged_def)

lemma recv_cases:
  obtains (Got) bs fin x where "tp_recv (logged ops) now s cap w = (Ok (bs, fin), w\<lparr>wi_x := x, wi_in := wi_in w @ take (min (length bs) cap) bs,
        wi_in_fin := (wi_in_fin w \<or> fin)\<rparr>)"
    | (Failed) e x where "tp_recv (logged ops) now s cap w = (Err e, w\<lparr>wi_x := x\<rparr>)"
  by (cases "tp_recv ops now s cap (wi_x w)"; cases "fst (tp_recv ops now s cap (wi_x w))") (auto simp: logged_def)

text \<open>One round of each loop: it either uses up budget or leaves the loop.\<close>

abbreviation quic_more :: "nat \<Rightarrow> relay \<Rightarrow> bool" where
  "quic_more left r \<equiv> relay_open r \<and> r_stream_writable r \<and> \<not> ring_is_empty (r_to_quic r) \<and> 0 < left"

abbreviation tcp_more :: "nat \<Rightarrow> relay \<Rightarrow> bool" where
  "tcp_more left r \<equiv> relay_open r \<and> r_stream_readable r \<and> 0 < ring_space (r_to_tcp r) \<and> \<not> r_stream_gone r \<and> 0 < left"

text \<open>What the loop towards the stream leaves alone of the reset probe.\<close>

definition same_probe :: "relay \<Rightarrow> relay \<Rightarrow> bool" where
  "same_probe r r' \<longleftrightarrow> r_reset_probe r' = r_reset_probe r \<and> (relay_open r' \<longrightarrow> relay_open r)"

lemma same_probe_refl [simp]: "same_probe r r"
  by (simp add: same_probe_def)

lemma same_probe_trans: "same_probe r s \<Longrightarrow> same_probe s t \<Longrightarrow> same_probe r t"
  by (simp add: same_probe_def)

lemma quic_round:
  assumes inv: "relay_inv pre pfin ti to r w" and more: "quic_more left r"
  shows "\<exists>left' p r' w'. quic_loop (logged ops) now left progressed r w = quic_loop (logged ops) now left' p r' w'
    \<and> relay_inv pre pfin ti to r' w' \<and> (left' < left \<and> p \<or> left' = left \<and> \<not> quic_more left r') \<and> (progressed \<longrightarrow> p) \<and> same_probe r r'"
proof -
  let ?data = "ring_read_slice (r_to_quic r)"
  let ?chunk = "take (min (length ?data) left) ?data"
  let ?fin = "r_tcp_read_eof r \<and> length ?chunk = length ?data"
  have rq: "ring_inv (r_to_quic r)" using inv by (simp add: relay_inv_def)
  then have ne: "?data \<noteq> []" using more ring_is_empty_iff by blast
  show ?thesis
  proof (cases rule: send_cases [of ops now "r_stream r" ?chunk ?fin w])
    case (Sent n x)
    let ?m = "min n (length ?chunk)"
    let ?w = "w\<lparr>wi_x := x, wi_out := wi_out w @ take ?m ?chunk, wi_out_fin := (wi_out_fin w \<or> ?fin \<and> length ?chunk \<le> n)\<rparr>"
    let ?r = "r\<lparr>r_fin_sent := (r_fin_sent r \<or> ?fin \<and> \<not> ?m < length ?chunk)\<rparr>"
    have m: "?m \<le> length ?data" and sel: "r_to_quic (r\<lparr>r_fin_sent := f\<rparr>) = r_to_quic r" for f by simp_all
    obtain b where b: "ring_consume ?m (r_to_quic r) = Some b" using ring_consume_ok [OF rq m] by blast
    have tk: "take ?m ?chunk = take ?m ?data" by (simp add: min.assoc)
    have inv': "relay_inv pre pfin ti to (?r\<lparr>r_to_quic := b\<rparr>) ?w"
      unfolding tk by (rule relay_inv_sent [OF inv _ m _ b]) (use more in \<open>auto simp: min_def split: if_splits\<close>)
    let ?r' = "if ?m < length ?chunk then ?r\<lparr>r_to_quic := b, r_stream_writable := False\<rparr> else ?r\<lparr>r_to_quic := b\<rparr>"
    have "quic_loop (logged ops) now left progressed r w
        = quic_loop (logged ops) now (left - ?m) (progressed \<or> 0 < ?m \<or> r_fin_sent ?r) ?r' ?w"
      by (subst quic_loop.simps)
        (simp only: more simp_thms if_True Let_def Sent(2) prod.case result.case sel b bind.bind_lunit)
    moreover have "relay_inv pre pfin ti to ?r' ?w" by (rule if_cases) (rule relay_inv_unwritable [OF inv'], rule inv')
    moreover have "left - ?m < left \<and> 0 < ?m \<or> left - ?m = left \<and> \<not> quic_more left ?r'"
      using more ne by (cases "0 < ?m") auto
    moreover have "same_probe r ?r'" by (simp add: same_probe_def relay_open_def)
    ultimately show ?thesis by blast
  next
    case (Failed e x)
    let ?r' = "if e = SBlocked then r\<lparr>r_stream_writable := False\<rparr> else relay_abort r"
    have "quic_loop (logged ops) now left progressed r w = quic_loop (logged ops) now left progressed ?r' (w\<lparr>wi_x := x\<rparr>)"
      by (subst quic_loop.simps) (simp only: more simp_thms if_True Let_def Failed prod.case result.case)
    moreover have "relay_inv pre pfin ti to ?r' (w\<lparr>wi_x := x\<rparr>)"
      using inv by (simp add: relay_inv_x relay_inv_unwritable relay_inv_abort)
    moreover have "\<not> quic_more left ?r'" by simp
    moreover have "same_probe r ?r'" by (simp add: same_probe_def relay_abort_def relay_open_def)
    ultimately show ?thesis by blast
  qed
qed

lemma quic_loop_ok:
  assumes "relay_inv pre pfin ti to r w"
  shows "\<exists>p r' w'. quic_loop (logged ops) now left progressed r w = Some (p, r', w') \<and> relay_inv pre pfin ti to r' w'
    \<and> (p \<or> \<not> quic_more left r') \<and> (progressed \<longrightarrow> p) \<and> same_probe r r'"
  using assms
proof (induction left arbitrary: progressed r w rule: less_induct)
  case (less left)
  show ?case
  proof (cases "quic_more left r")
    case False
    show ?thesis using less.prems False quic_loop_exit [OF False, of "logged ops" now progressed w] same_probe_refl by blast
  next
    case True
    from quic_round [OF less.prems True] obtain left' p r' w' where
      s: "quic_loop (logged ops) now left progressed r w = quic_loop (logged ops) now left' p r' w'"
        "relay_inv pre pfin ti to r' w'" "left' < left \<and> p \<or> left' = left \<and> \<not> quic_more left r'" "progressed \<longrightarrow> p" and sq: "same_probe r r'" by blast
    from s(3) show ?thesis
    proof
      assume "left' < left \<and> p"
      with less.IH [of left' r' w' p] s(2) show ?thesis unfolding s(1) using same_probe_trans [OF sq] by blast
    next
      assume e: "left' = left \<and> \<not> quic_more left r'"
      then have "quic_loop (logged ops) now left' p r' w' = Some (p, r', w')" by (intro quic_loop_exit) blast
      with e s(2,4) sq show ?thesis unfolding s(1) by blast
    qed
  qed
qed

lemma relay_inv_received:
  assumes "relay_inv pre pfin ti to r w" and "relay_open r" and "r_stream_readable r" and "length d \<le> ring_space (r_to_tcp r)"
    and "ring_append d (r_to_tcp r) = Some b"
  shows "relay_inv pre pfin ti to (if fin then r\<lparr>r_to_tcp := b, r_fin_seen := True, r_stream_readable := False\<rparr> else r\<lparr>r_to_tcp := b\<rparr>)
    (w\<lparr>wi_x := x, wi_in := wi_in w @ d, wi_in_fin := (wi_in_fin w \<or> fin)\<rparr>)"
proof -
  have "ring_inv (r_to_tcp r)" using assms(1) by (simp add: relay_inv_def)
  from ring_append_ok [OF this assms(4)] assms(5)
  have b: "ring_inv b" "ring_read_slice b = ring_read_slice (r_to_tcp r) @ d" by auto
  have "to @ ring_read_slice b = pre @ wi_in w @ d" unfolding b(2) using assms(1) by (simp add: relay_inv_def flip: append_assoc)
  with assms(1,2,3) b(1) show ?thesis
    by (cases fin) (simp_all add: relay_inv_def relay_open_def del: append_eq_append_conv2, blast+)
qed

text \<open>What the loop towards TCP leaves alone of the other direction.\<close>

definition same_quic :: "relay \<Rightarrow> relay \<Rightarrow> bool" where
  "same_quic r r' \<longleftrightarrow> r_to_quic r' = r_to_quic r \<and> r_stream_writable r' = r_stream_writable r \<and> r_fin_sent r' = r_fin_sent r
     \<and> r_tcp_read_eof r' = r_tcp_read_eof r \<and> r_reset_probe r' = r_reset_probe r \<and> (relay_open r' \<longrightarrow> relay_open r)"

lemma same_quic_refl [simp]: "same_quic r r"
  by (simp add: same_quic_def)

lemma same_quic_trans: "same_quic r s \<Longrightarrow> same_quic s t \<Longrightarrow> same_quic r t"
  by (simp add: same_quic_def)

lemma tcp_round:
  assumes inv: "relay_inv pre pfin ti to r w" and more: "tcp_more left r"
  shows "\<exists>left' p r' w'. tcp_loop (logged ops) now left progressed r w = tcp_loop (logged ops) now left' p r' w'
    \<and> relay_inv pre pfin ti to r' w' \<and> (left' < left \<and> p \<or> left' = left \<and> \<not> tcp_more left r') \<and> (progressed \<longrightarrow> p) \<and> same_quic r r'"
proof -
  let ?cap = "min (ring_space (r_to_tcp r)) left"
  have rq: "ring_inv (r_to_tcp r)" using inv by (simp add: relay_inv_def)
  show ?thesis
  proof (cases rule: recv_cases [of ops now "r_stream r" ?cap w])
    case (Got bs fin x)
    let ?n = "min (length bs) ?cap" and ?d = "take (min (length bs) ?cap) bs"
    let ?w = "w\<lparr>wi_x := x, wi_in := wi_in w @ ?d, wi_in_fin := (wi_in_fin w \<or> fin)\<rparr>"
    have d: "length ?d \<le> ring_space (r_to_tcp r)" "length ?d = ?n" by auto
    obtain b where b: "ring_append ?d (r_to_tcp r) = Some b" using ring_append_ok [OF rq d(1)] by blast
    let ?r = "r\<lparr>r_to_tcp := b\<rparr>"
    let ?r' = "if fin then ?r\<lparr>r_fin_seen := True, r_stream_readable := False\<rparr> else if ?n = 0 then ?r\<lparr>r_stream_readable := False\<rparr> else ?r"
    obtain b0 where b0: "ring_write_slice 0 ?d (r_to_tcp r) = Some b0" "ring_commit ?n b0 = Some b"
      using b d(2) unfolding ring_append_def by (auto simp: bind_eq_Some_conv)
    have "tcp_loop (logged ops) now left progressed r w = tcp_loop (logged ops) now (left - ?n) (progressed \<or> 0 < ?n \<or> fin) ?r' ?w"
      by (subst tcp_loop.simps)
        (simp only: more simp_thms if_True Let_def Got prod.case result.case b0 bind.bind_lunit)
    moreover have "relay_inv pre pfin ti to ?r' ?w"
    proof -
      have got: "relay_inv pre pfin ti to (if fin then ?r\<lparr>r_fin_seen := True, r_stream_readable := False\<rparr> else ?r) ?w"
        by (rule relay_inv_received [OF inv _ _ d(1) b]) (use more in blast)+
      show ?thesis using got relay_inv_unreadable [OF got] by (cases fin; cases "?n = 0") (simp_all only: if_True if_False simp_thms)
    qed
    moreover have "left - ?n < left \<and> 0 < ?n \<or> left - ?n = left \<and> \<not> tcp_more left ?r'" using more by (cases "0 < ?n") auto
    moreover have "same_quic r ?r'" by (simp add: same_quic_def relay_open_def)
    ultimately show ?thesis by blast
  next
    case (Failed e x)
    let ?r' = "if e = SBlocked then r\<lparr>r_stream_readable := False\<rparr> else relay_abort r"
    have "tcp_loop (logged ops) now left progressed r w = tcp_loop (logged ops) now left progressed ?r' (w\<lparr>wi_x := x\<rparr>)"
      by (subst tcp_loop.simps) (simp only: more simp_thms if_True Let_def Failed prod.case result.case)
    moreover have "relay_inv pre pfin ti to ?r' (w\<lparr>wi_x := x\<rparr>)"
      using inv by (simp add: relay_inv_x relay_inv_unreadable relay_inv_abort)
    moreover have "\<not> tcp_more left ?r'" by simp
    moreover have "same_quic r ?r'" by (simp add: same_quic_def relay_open_def relay_abort_def)
    ultimately show ?thesis by blast
  qed
qed

lemma tcp_loop_ok:
  assumes "relay_inv pre pfin ti to r w"
  shows "\<exists>p r' w'. tcp_loop (logged ops) now left progressed r w = Some (p, r', w') \<and> relay_inv pre pfin ti to r' w'
    \<and> (p \<or> \<not> tcp_more left r') \<and> (progressed \<longrightarrow> p) \<and> same_quic r r'"
  using assms
proof (induction left arbitrary: progressed r w rule: less_induct)
  case (less left)
  show ?case
  proof (cases "tcp_more left r")
    case False
    show ?thesis using less.prems False tcp_loop_exit [OF False, of "logged ops" now progressed w] same_quic_refl by blast
  next
    case True
    from tcp_round [OF less.prems True] obtain left' p r' w' where
      s: "tcp_loop (logged ops) now left progressed r w = tcp_loop (logged ops) now left' p r' w'"
        "relay_inv pre pfin ti to r' w'" "left' < left \<and> p \<or> left' = left \<and> \<not> tcp_more left r'" "progressed \<longrightarrow> p" and sq: "same_quic r r'" by blast
    from s(3) show ?thesis
    proof
      assume "left' < left \<and> p"
      with less.IH [of left' r' w' p] s(2) show ?thesis unfolding s(1) using same_quic_trans [OF sq] by blast
    next
      assume e: "left' = left \<and> \<not> tcp_more left r'"
      then have "tcp_loop (logged ops) now left' p r' w' = Some (p, r', w')" by (intro tcp_loop_exit) blast
      with e s(2,4) sq show ?thesis unfolding s(1) by blast
    qed
  qed
qed

section \<open>Every operation returns and keeps the invariant\<close>

lemma relay_inv_clean:
  assumes "relay_inv pre pfin ti to r w" shows "relay_inv pre pfin ti to (check_clean r) w"
  using assms by (auto simp: relay_inv_def check_clean_def)

text \<open>After the loop a FIN that is owed goes out alone.\<close>

lemma pump_to_quic_ok:
  assumes inv: "relay_inv pre pfin ti to r w"
  shows "\<exists>p r' w'. pump_to_quic (logged ops) now budget r w = Some (p, r', w') \<and> relay_inv pre pfin ti to r' w'
    \<and> (p \<or> \<not> quic_more budget r' \<and> \<not> (relay_open r' \<and> r_stream_writable r' \<and> fin_owed r'))
    \<and> same_probe r r'"
proof -
  from quic_loop_ok [OF inv] obtain p1 r1 w1 where
    l: "quic_loop (logged ops) now budget False r w = Some (p1, r1, w1)" and i1: "relay_inv pre pfin ti to r1 w1"
      and m: "p1 \<or> \<not> quic_more budget r1" and sp: "same_probe r r1" by blast
  show ?thesis
  proof (cases "relay_open r1 \<and> r_stream_writable r1 \<and> fin_owed r1")
    case False
    then have "pump_to_quic (logged ops) now budget r w = Some (p1, r1, w1)" by (auto simp: pump_to_quic_def l)
    with i1 m False sp show ?thesis by blast
  next
    case True
    show ?thesis
    proof (cases rule: send_cases [of ops now "r_stream r1" "[]" True w1])
      case (Sent n x)
      then have "pump_to_quic (logged ops) now budget r w
        = Some (True, r1\<lparr>r_fin_sent := True\<rparr>, w1\<lparr>wi_x := x, wi_out_fin := True\<rparr>)" using True by (simp add: pump_to_quic_def l)
      moreover have "relay_inv pre pfin ti to (r1\<lparr>r_fin_sent := True\<rparr>) (w1\<lparr>wi_x := x, wi_out_fin := True\<rparr>)"
        using i1 True ring_is_empty_iff by (simp add: relay_inv_def fin_owed_def relay_open_def)
      moreover have "same_probe r (r1\<lparr>r_fin_sent := True\<rparr>)" using sp by (simp add: same_probe_def relay_open_def)
      ultimately show ?thesis by blast
    next
      case (Failed e x)
      let ?r = "if e = SBlocked then r1\<lparr>r_stream_writable := False\<rparr> else relay_abort r1"
      from Failed have "pump_to_quic (logged ops) now budget r w = Some (p1, ?r, w1\<lparr>wi_x := x\<rparr>)"
        using True by (simp add: pump_to_quic_def l)
      moreover have "relay_inv pre pfin ti to ?r (w1\<lparr>wi_x := x\<rparr>)"
        using i1 by (simp add: relay_inv_x relay_inv_unwritable relay_inv_abort)
      moreover have "\<not> (relay_open ?r \<and> r_stream_writable ?r)" by simp
      moreover have "same_probe r ?r" using sp by (simp add: same_probe_def relay_abort_def relay_open_def)
      ultimately show ?thesis by blast
    qed
  qed
qed

lemma relay_inv_probe_flag: "relay_inv pre pfin ti to r w \<Longrightarrow> relay_inv pre pfin ti to (r\<lparr>r_reset_probe := b\<rparr>) w"
  by (simp add: relay_inv_def)

lemma relay_inv_fin:
  "relay_inv pre pfin ti to r w \<Longrightarrow> relay_inv pre pfin ti to (r\<lparr>r_fin_seen := True, r_stream_readable := False\<rparr>)
    (w\<lparr>wi_x := x, wi_in_fin := True\<rparr>)"
  by (simp add: relay_inv_def)

lemma reset_probe_ok:
  assumes inv: "relay_inv pre pfin ti to r w"
  shows "\<exists>p r' w'. reset_probe_step (logged ops) now r w = (p, r', w') \<and> relay_inv pre pfin ti to r' w'
    \<and> \<not> (relay_open r' \<and> r_reset_probe r')"
proof (cases "relay_open r \<and> r_reset_probe r")
  case False
  then show ?thesis using inv by (simp only: reset_probe_step_def if_False) blast
next
  case True
  let ?r = "r\<lparr>r_reset_probe := False\<rparr>"
  have i: "relay_inv pre pfin ti to ?r w" by (rule relay_inv_probe_flag [OF inv])
  show ?thesis
  proof (cases rule: recv_cases [of ops now "r_stream r" 0 w])
    case (Got bs fin x)
    then have "reset_probe_step (logged ops) now r w = (True, if fin then ?r\<lparr>r_fin_seen := True, r_stream_readable := False\<rparr> else ?r,
        w\<lparr>wi_x := x, wi_in_fin := (wi_in_fin w \<or> fin)\<rparr>)"
      using True by (simp add: reset_probe_step_def)
    moreover have "relay_inv pre pfin ti to (if fin then ?r\<lparr>r_fin_seen := True, r_stream_readable := False\<rparr> else ?r)
        (w\<lparr>wi_x := x, wi_in_fin := (wi_in_fin w \<or> fin)\<rparr>)"
      using relay_inv_fin [OF i] relay_inv_x [OF i] by (cases fin) simp_all
    moreover have "\<not> r_reset_probe (if fin then ?r\<lparr>r_fin_seen := True, r_stream_readable := False\<rparr> else ?r)" by simp
    ultimately show ?thesis by blast
  next
    case (Failed e x)
    then have "reset_probe_step (logged ops) now r w = (True, if e = SBlocked then ?r else relay_abort ?r, w\<lparr>wi_x := x\<rparr>)"
      using True by (simp add: reset_probe_step_def)
    moreover have "relay_inv pre pfin ti to (if e = SBlocked then ?r else relay_abort ?r) (w\<lparr>wi_x := x\<rparr>)"
      by (rule if_cases) (rule relay_inv_x [OF i], rule relay_inv_abort [OF relay_inv_x [OF i]])
    moreover have "\<not> r_reset_probe (if e = SBlocked then ?r else relay_abort ?r)" by (simp add: relay_abort_def)
    ultimately show ?thesis by blast
  qed
qed

lemma quic_idle:
  assumes "same_quic r r'" and "\<not> quic_more budget r" and "\<not> (relay_open r \<and> r_stream_writable r \<and> fin_owed r)"
  shows "\<not> quic_more budget r'" and "\<not> (relay_open r' \<and> r_stream_writable r' \<and> fin_owed r')"
  using assms by (auto simp: same_quic_def fin_owed_def)

lemma relay_pump_ok:
  assumes inv: "relay_inv pre pfin ti to r w"
  shows "\<exists>out r' w'. relay_pump (logged ops) now budget r w = Some (out, r', w') \<and> relay_inv pre pfin ti to r' w'
    \<and> (out = PumpIdle \<and> 0 < budget \<and> is_runnable r' \<longrightarrow> shut_wr_owed r')"
proof -
  from reset_probe_ok [OF inv] obtain p0 r0 w0 where 0: "reset_probe_step (logged ops) now r w = (p0, r0, w0)"
    "relay_inv pre pfin ti to r0 w0" "\<not> (relay_open r0 \<and> r_reset_probe r0)" by blast
  from pump_to_quic_ok [OF 0(2)] obtain p1 r1 w1 where 1: "pump_to_quic (logged ops) now budget r0 w0 = Some (p1, r1, w1)"
    "relay_inv pre pfin ti to r1 w1" "same_probe r0 r1"
    "p1 \<or> \<not> quic_more budget r1 \<and> \<not> (relay_open r1 \<and> r_stream_writable r1 \<and> fin_owed r1)" by blast
  from tcp_loop_ok [OF 1(2)] obtain p2 r2 w2 where 2: "pump_to_tcp (logged ops) now budget r1 w1 = Some (p2, r2, w2)"
    "relay_inv pre pfin ti to r2 w2" "same_quic r1 r2" "p2 \<or> \<not> tcp_more budget r2" unfolding pump_to_tcp_def by blast
  let ?out = "case r_state (check_clean r2) of RelayClosed e \<Rightarrow> PumpClosed e | RelayOpen \<Rightarrow> if p0 \<or> p1 \<or> p2 then Progressed else PumpIdle"
  have "relay_pump (logged ops) now budget r w = Some (?out, check_clean r2, w2)"
    by (simp add: relay_pump_def 0(1) 1(1) 2(1) Let_def)
  moreover have "shut_wr_owed (check_clean r2)" if "?out = PumpIdle" "0 < budget" "is_runnable (check_clean r2)"
  proof -
    from that(1) have o: "r_state (check_clean r2) = RelayOpen" and p: "\<not> p1" "\<not> p2"
      by (auto split: relay_state.splits if_splits)
    from o have c: "check_clean r2 = r2" by (auto simp: check_clean_def)
    from 0(3) 1(3) 2(3) have "\<not> (relay_open r2 \<and> r_reset_probe r2)" by (auto simp: same_probe_def same_quic_def)
    moreover have "\<not> quic_more budget r2" "\<not> (relay_open r2 \<and> r_stream_writable r2 \<and> fin_owed r2)"
      using quic_idle [OF 2(3)] 1(4) p(1) by blast+
    moreover have "\<not> tcp_more budget r2" using 2(4) p(2) by blast
    ultimately show ?thesis using that(2,3) unfolding c is_runnable_def by blast
  qed
  ultimately show ?thesis using relay_inv_clean [OF 2(2)] by blast
qed

text \<open>The driver read bytes into the space the relay offered, or met the end of the stream or an error.\<close>

lemma tcp_rx_commit_ok:
  assumes inv: "relay_inv pre pfin ti to r w" and rd: "in_read (tcp_interest r)"
    and b: "ring_write_slice 0 bs (r_to_quic r) = Some b" and fits: "length bs \<le> ring_space (r_to_quic r)"
  shows "\<exists>r' w'. tcp_rx_commit (logged ops) now (IoBytes (length bs)) (r\<lparr>r_to_quic := b\<rparr>) w = Some (r', w')
    \<and> relay_inv pre pfin (ti @ bs) to r' w'"
proof -
  from rd have o: "relay_open r" "\<not> r_tcp_read_eof r" by (simp_all add: tcp_interest_def)
  have "ring_inv (r_to_quic r)" using inv by (simp add: relay_inv_def)
  from ring_append_ok [OF this fits] b obtain c where
    c: "ring_commit (length bs) b = Some c" "ring_inv c" "ring_read_slice c = ring_read_slice (r_to_quic r) @ bs"
    by (auto simp: ring_append_def)
  have "relay_inv pre pfin (ti @ bs) to (r\<lparr>r_to_quic := c\<rparr>) w"
    using inv c(2,3) o by (simp add: relay_inv_def relay_open_def flip: append_assoc)
  from pump_to_quic_ok [OF this, of ops now RELAY_BUF] obtain p r' w' where
    "pump_to_quic (logged ops) now RELAY_BUF (r\<lparr>r_to_quic := c\<rparr>) w = Some (p, r', w')"
    "relay_inv pre pfin (ti @ bs) to r' w'" by blast
  then show ?thesis using o c(1) relay_inv_clean by (simp add: tcp_rx_commit_def relay_open_def)
qed

lemma tcp_rx_other_ok:
  assumes inv: "relay_inv pre pfin ti to r w" and "res = IoEof \<or> res = IoWouldBlock \<or> res = IoError k"
  shows "\<exists>r' w'. tcp_rx_commit (logged ops) now res r w = Some (r', w') \<and> relay_inv pre pfin ti to r' w'"
proof (cases "relay_open r \<and> res = IoEof")
  case True
  have "relay_inv pre pfin ti to (r\<lparr>r_tcp_read_eof := True\<rparr>) w" using inv by (simp add: relay_inv_def)
  from pump_to_quic_ok [OF this, of ops now RELAY_BUF] obtain p r' w' where
    "pump_to_quic (logged ops) now RELAY_BUF (r\<lparr>r_tcp_read_eof := True\<rparr>) w = Some (p, r', w')"
    "relay_inv pre pfin ti to r' w'" by blast
  then show ?thesis using True relay_inv_clean by (simp add: tcp_rx_commit_def)
next
  case False
  with assms show ?thesis using relay_inv_abort [OF inv] by (auto simp: tcp_rx_commit_def)
qed

lemma tcp_tx_commit_ok:
  assumes inv: "relay_inv pre pfin ti to r w" and "relay_open r" and n: "n \<le> length (ring_read_slice (r_to_tcp r))"
  shows "\<exists>r'. tcp_tx_commit (IoBytes n) r = Some r' \<and> relay_inv pre pfin ti (to @ take n (ring_read_slice (r_to_tcp r))) r' w"
proof -
  have rt: "ring_inv (r_to_tcp r)" using inv by (simp add: relay_inv_def)
  from ring_consume_ok [OF rt n] obtain b where b: "ring_consume n (r_to_tcp r) = Some b" "ring_inv b"
    "ring_read_slice b = drop n (ring_read_slice (r_to_tcp r))" by blast
  have "tcp_tx_commit (IoBytes n) r = Some (r\<lparr>r_to_tcp := b\<rparr>)"
    using assms(2) n b(1) length_ring_read_slice [OF rt] by (simp add: tcp_tx_commit_def min_absorb1)
  moreover have "relay_inv pre pfin ti (to @ take n (ring_read_slice (r_to_tcp r))) (r\<lparr>r_to_tcp := b\<rparr>) w"
    using inv b(2,3) by (simp add: relay_inv_def)
  ultimately show ?thesis by blast
qed

lemma relay_inv_event: "relay_inv pre pfin ti to r w \<Longrightarrow> relay_inv pre pfin ti to (on_stream_event ev r) w"
  by (cases ev) (auto simp: Let_def intro!: relay_inv_abort relay_inv_clean, auto simp: relay_inv_def)

lemma relay_inv_take:
  "relay_inv pre pfin ti to r w \<Longrightarrow> relay_inv pre pfin ti to (snd (take_owed_shutdown r)) w"
  using ring_is_empty_iff [of "r_to_tcp r"]
  by (auto simp: relay_inv_def take_owed_shutdown_def shut_wr_owed_def Let_def relay_open_def)

lemma relay_inv_shut:
  "relay_inv pre pfin ti to r w \<Longrightarrow> r_shut_wr_requested r \<Longrightarrow> relay_inv pre pfin ti to (shutdown_done r) w"
  unfolding shutdown_done_def by (rule relay_inv_clean) (auto simp: relay_inv_def)

lemma ring_append_new:
  assumes "length xs \<le> cap"
  shows "\<exists>b. ring_append xs (ring_new cap) = Some b \<and> ring_inv b \<and> ring_read_slice b = xs \<and> ring_space b = cap - length xs"
  using assms by (auto simp: ring_append_def ring_new_def ring_defs Let_def)

lemma relay_start_ok:
  assumes "length queued + length (sp_bytes preread) \<le> RELAY_BUF" and "length tcp_prebuf \<le> RELAY_BUF"
  shows "\<exists>r. relay_start c t s tcp_prebuf eof queued preread = Some (Ok r)
    \<and> relay_inv (queued @ sp_bytes preread) (sp_fin preread) tcp_prebuf [] r
        \<lparr>wi_x = x, wi_out = [], wi_out_fin = False, wi_in = [], wi_in_fin = False\<rparr>"
proof -
  from ring_append_new [OF assms(2)] obtain q where
    q: "ring_append tcp_prebuf (ring_new RELAY_BUF) = Some q" "ring_inv q" "ring_read_slice q = tcp_prebuf" by blast
  from ring_append_new [of queued RELAY_BUF] assms(1) obtain t1 where
    t1: "ring_append queued (ring_new RELAY_BUF) = Some t1" "ring_inv t1" "ring_read_slice t1 = queued"
      "length (sp_bytes preread) \<le> ring_space t1" by force
  from ring_append_ok [OF t1(2,4)] obtain t2 where
    t2: "ring_append (sp_bytes preread) t1 = Some t2" "ring_inv t2" "ring_read_slice t2 = queued @ sp_bytes preread"
    unfolding t1(3) by blast
  show ?thesis using assms q t1(1) t2 by (simp add: relay_start_def Let_def relay_inv_def)
qed

lemma relay_start_refused:
  assumes "\<not> (length queued + length (sp_bytes preread) \<le> RELAY_BUF \<and> length tcp_prebuf \<le> RELAY_BUF)"
  shows "relay_start c t s tcp_prebuf eof queued preread = Some (Err PrereadTooLarge)"
  using assms by (auto simp: relay_start_def Let_def)

section \<open>Runs\<close>

text \<open>
  What the shard does with a relay, in any order: it pumps it, tells it what the driver's reads and
  writes did, hands it transport events, and runs the two halves of a write shutdown. The driver reads and writes only
  while the relay's interest is on, reads at most the space it was offered and writes at most the
  data it was given. A state is the relay, the recorded transport, and all bytes
  read from and written to TCP so far.
\<close>

type_synonym 'x relay_world = "relay \<times> 'x wire \<times> bytes \<times> bytes"

inductive relay_step :: "'x transport_ops \<Rightarrow> 'x relay_world \<Rightarrow> 'x relay_world \<Rightarrow> bool" for ops where
  Pump: "relay_pump (logged ops) now budget r w = Some (out, r', w') \<Longrightarrow> relay_step ops (r, w, ti, to) (r', w', ti, to)"
| Read: "in_read (tcp_interest r) \<Longrightarrow> length bs \<le> ring_space (r_to_quic r) \<Longrightarrow> ring_write_slice 0 bs (r_to_quic r) = Some b \<Longrightarrow>
    tcp_rx_commit (logged ops) now (IoBytes (length bs)) (r\<lparr>r_to_quic := b\<rparr>) w = Some (r', w') \<Longrightarrow>
    relay_step ops (r, w, ti, to) (r', w', ti @ bs, to)"
| Read_other: "res = IoEof \<or> res = IoWouldBlock \<or> res = IoError k \<Longrightarrow> tcp_rx_commit (logged ops) now res r w = Some (r', w') \<Longrightarrow>
    relay_step ops (r, w, ti, to) (r', w', ti, to)"
| Write: "in_write (tcp_interest r) \<Longrightarrow> n \<le> length (ring_read_slice (r_to_tcp r)) \<Longrightarrow> tcp_tx_commit (IoBytes n) r = Some r' \<Longrightarrow>
    relay_step ops (r, w, ti, to) (r', w, ti, to @ take n (ring_read_slice (r_to_tcp r)))"
| Write_other: "res = IoEof \<or> res = IoWouldBlock \<or> res = IoError k \<Longrightarrow> tcp_tx_commit res r = Some r' \<Longrightarrow>
    relay_step ops (r, w, ti, to) (r', w, ti, to)"
| Event: "relay_step ops (r, w, ti, to) (on_stream_event ev r, w, ti, to)"
| Take: "relay_step ops (r, w, ti, to) (snd (take_owed_shutdown r), w, ti, to)"
| Shut: "r_shut_wr_requested r \<Longrightarrow> relay_step ops (r, w, ti, to) (shutdown_done r, w, ti, to)"

fun relay_holds :: "bytes \<Rightarrow> bool \<Rightarrow> 'x relay_world \<Rightarrow> bool" where
  "relay_holds pre pfin (r, w, ti, to) = relay_inv pre pfin ti to r w"

lemma relay_step_holds:
  assumes "relay_step ops a b" and "relay_holds pre pfin a" shows "relay_holds pre pfin b"
  using assms
proof cases
  case (Pump now budget r w out r' w' ti to)
  then show ?thesis using assms(2) relay_pump_ok [of pre pfin ti to r w ops now budget] by auto
next
  case (Read r bs b now w r' w' ti to)
  then show ?thesis using assms(2) tcp_rx_commit_ok [OF _ Read(3,5,4), of pre pfin ti to w ops now] by auto
next
  case (Read_other res k now r w r' w' ti to)
  then show ?thesis using assms(2) tcp_rx_other_ok [OF _ Read_other(3), of pre pfin ti to r w ops now] by auto
next
  case (Write r n r' w ti to)
  then have "relay_open r" by (simp add: tcp_interest_def)
  then show ?thesis using Write assms(2) tcp_tx_commit_ok [of pre pfin ti to r w n] by auto
next
  case (Write_other res k r r' w ti to)
  then show ?thesis using assms(2) relay_inv_abort by (auto simp: tcp_tx_commit_def split: if_splits)
next
  case (Event r w ti to ev)
  then show ?thesis using assms(2) relay_inv_event by simp
next
  case (Take r w ti to)
  then show ?thesis using assms(2) relay_inv_take by simp
next
  case (Shut r w ti to)
  then show ?thesis using assms(2) relay_inv_shut by simp
qed

lemma relay_run_holds: "(relay_step ops)\<^sup>*\<^sup>* a b \<Longrightarrow> relay_holds pre pfin a \<Longrightarrow> relay_holds pre pfin b"
  by (induction rule: rtranclp_induct) (auto intro: relay_step_holds)

definition wire_start :: "'x \<Rightarrow> 'x wire" where
  "wire_start x = \<lparr>wi_x = x, wi_out = [], wi_out_fin = False, wi_in = [], wi_in_fin = False\<rparr>"

lemma relay_start_holds:
  assumes "relay_start c t s tcp_prebuf eof queued preread = Some (Ok r)"
  shows "relay_holds (queued @ sp_bytes preread) (sp_fin preread) (r, wire_start x, tcp_prebuf, [])"
proof (cases "length queued + length (sp_bytes preread) \<le> RELAY_BUF \<and> length tcp_prebuf \<le> RELAY_BUF")
  case True
  with relay_start_ok [of queued preread tcp_prebuf c t s eof x] assms show ?thesis by (auto simp: wire_start_def)
next
  case False
  from relay_start_refused [OF this] assms show ?thesis by simp
qed

section \<open>Properties\<close>

text \<open>C2. Whatever the driver, the transport and the order of steps do, no byte is lost, duplicated or reordered in
  either direction: the bytes the stream accepted followed by those still buffered are exactly the bytes read from TCP,
  and the bytes written to TCP followed by those still buffered are exactly the output queued at the start, the preread bytes
  and what the stream delivered. A relay that ended cleanly has delivered everything, has sent its
  FIN and has seen the peer's.\<close>

theorem relay_faithful:
  assumes "relay_start c t s tcp_prebuf eof queued preread = Some (Ok r0)"
    and "(relay_step ops)\<^sup>*\<^sup>* (r0, wire_start x, tcp_prebuf, []) (r, w, tcp_in, tcp_out)"
  shows "wi_out w @ ring_read_slice (r_to_quic r) = tcp_in
    \<and> tcp_out @ ring_read_slice (r_to_tcp r) = queued @ sp_bytes preread @ wi_in w
    \<and> (end_reason r = Some Clean \<longrightarrow>
         wi_out w = tcp_in \<and> wi_out_fin w \<and> r_tcp_read_eof r
         \<and> tcp_out = queued @ sp_bytes preread @ wi_in w \<and> (sp_fin preread \<or> wi_in_fin w))"
proof -
  from relay_run_holds [OF assms(2) relay_start_holds [OF assms(1)]]
  have inv: "relay_inv (queued @ sp_bytes preread) (sp_fin preread) tcp_in tcp_out r w" by simp
  show ?thesis using inv by (auto simp: relay_inv_def end_reason_def split: relay_state.splits)
qed

text \<open>C4. A pump never panics and never loops: in every state a run reaches it returns, for every
  transport. When it reports that nothing moved although it had budget, the relay is not runnable any more, except for a write
  shutdown the shard has still to take, so the shard does not spin on it.\<close>

theorem relay_pump_settles:
  assumes "relay_start c t s tcp_prebuf eof queued preread = Some (Ok r0)"
    and "(relay_step ops)\<^sup>*\<^sup>* (r0, wire_start x, tcp_prebuf, []) (r, w, tcp_in, tcp_out)"
  shows "\<exists>out r' w'. relay_pump (logged ops) now budget r w = Some (out, r', w')
    \<and> (out = PumpIdle \<and> 0 < budget \<and> is_runnable r' \<longrightarrow> shut_wr_owed r')"
  using relay_run_holds [OF assms(2) relay_start_holds [OF assms(1)]] relay_pump_ok by simp blast

section \<open>Witnesses\<close>

text \<open>A transport that accepts whatever it is sent and has nothing to read; a client that sent one byte and closed, and a
  stream that had ended before the relay started.\<close>

definition sink :: "unit transport_ops" where
  "sink = \<lparr>tp_send = (\<lambda>_ _ d _ x. (Ok (length d), x)), tp_recv = (\<lambda>_ _ _ x. (Err SBlocked, x))\<rparr>"

definition sink_start :: "ring_buf \<Rightarrow> ring_buf \<Rightarrow> relay" where
  "sink_start q t = \<lparr>r_conn = GenId 0 1, r_tcp = GenId 0 1, r_stream = GenId 0 1, r_to_quic = q, r_to_tcp = t,
     r_stream_readable = False, r_stream_writable = True, r_fin_seen = True, r_stream_gone = False, r_reset_probe = False,
     r_tcp_read_eof = True, r_tcp_write_shut = False, r_fin_sent = False, r_shut_wr_requested = False, r_state = RelayOpen\<rparr>"

lemma sink_started:
  "\<exists>q t. relay_start (GenId 0 1) (GenId 0 1) (GenId 0 1) [7] True [] \<lparr>sp_bytes = [], sp_fin = True\<rparr> = Some (Ok (sink_start q t))
     \<and> ring_inv q \<and> ring_read_slice q = [7] \<and> ring_inv t \<and> ring_read_slice t = []"
proof -
  obtain q where q: "ring_append [7] (ring_new RELAY_BUF) = Some q" "ring_inv q" "ring_read_slice q = [7]"
    using ring_append_new [of "[7]" RELAY_BUF] by (auto simp: RELAY_BUF_def)
  obtain t where t: "ring_append [] (ring_new RELAY_BUF) = Some t" "ring_inv t" "ring_read_slice t = []"
    using ring_append_new [of "[]" RELAY_BUF] by auto
  obtain t' where t': "ring_append [] t = Some t'" "ring_inv t'" "ring_read_slice t' = []"
    using ring_append_ok [OF t(2), of "[]"] t(3) by auto
  have "1 \<le> RELAY_BUF" by (simp add: RELAY_BUF_def)
  then show ?thesis using q t t' by (auto simp: relay_start_def sink_start_def Let_def)
qed

lemma sink_pumped:
  assumes "ring_inv q" and "ring_read_slice q = [7]" and "ring_inv t"
  shows "\<exists>q'. relay_pump (logged sink) 0 1 (sink_start q t) (wire_start ()) =
    Some (Progressed, sink_start q' t\<lparr>r_fin_sent := True\<rparr>, \<lparr>wi_x = (), wi_out = [7], wi_out_fin = True, wi_in = [], wi_in_fin = False\<rparr>)"
proof -
  obtain q' where q': "ring_consume (Suc 0) q = Some q'" using ring_consume_ok [OF assms(1), of 1] assms(2) by auto
  have e: "\<not> ring_is_empty q" using assms(1,2) ring_is_empty_iff by simp
  have "quic_loop (logged sink) 0 1 False (sink_start q t) (wire_start ()) =
      Some (True, sink_start q' t\<lparr>r_fin_sent := True\<rparr>, \<lparr>wi_x = (), wi_out = [7], wi_out_fin = True, wi_in = [], wi_in_fin = False\<rparr>)"
    by (subst quic_loop.simps) (simp add: sink_start_def relay_open_def e assms(2) logged_def sink_def wire_start_def q' quic_loop_exit)
  then show ?thesis
    by (auto simp: relay_pump_def reset_probe_step_def pump_to_quic_def pump_to_tcp_def tcp_loop_exit sink_start_def fin_owed_def
        check_clean_def relay_open_def)
qed

lemma sink_run:
  "\<exists>r0 r w. relay_start (GenId 0 1) (GenId 0 1) (GenId 0 1) [7] True [] \<lparr>sp_bytes = [], sp_fin = True\<rparr> = Some (Ok r0)
     \<and> (relay_step sink)\<^sup>*\<^sup>* (r0, wire_start (), [7], []) (r, w, [7], []) \<and> end_reason r = Some Clean"
proof -
  from sink_started obtain q t where s: "relay_start (GenId 0 1) (GenId 0 1) (GenId 0 1) [7] True [] \<lparr>sp_bytes = [], sp_fin = True\<rparr>
      = Some (Ok (sink_start q t))" and q: "ring_inv q" "ring_read_slice q = [7]" and t: "ring_inv t" "ring_read_slice t = []" by blast
  from sink_pumped [OF q t(1)] obtain q' w where
    p: "relay_pump (logged sink) 0 1 (sink_start q t) (wire_start ()) = Some (Progressed, sink_start q' t\<lparr>r_fin_sent := True\<rparr>, w)" by blast
  let ?r1 = "sink_start q' t\<lparr>r_fin_sent := True\<rparr>"
  let ?r2 = "?r1\<lparr>r_shut_wr_requested := True\<rparr>"
  have e: "ring_is_empty t" using t ring_is_empty_iff by simp
  have take: "snd (take_owed_shutdown ?r1) = ?r2"
    by (simp add: take_owed_shutdown_def shut_wr_owed_def relay_open_def sink_start_def e)
  have a: "relay_step sink (sink_start q t, wire_start (), [7], []) (?r1, w, [7], [])" by (rule relay_step.Pump [OF p])
  have b: "relay_step sink (?r1, w, [7], []) (?r2, w, [7], [])" using relay_step.Take [of sink ?r1 w "[7]" "[]"] unfolding take .
  have c: "relay_step sink (?r2, w, [7], []) (shutdown_done ?r2, w, [7], [])" by (rule relay_step.Shut) simp
  have "(relay_step sink)\<^sup>*\<^sup>* (sink_start q t, wire_start (), [7], []) (shutdown_done ?r2, w, [7], [])"
    by (rule rtranclp.rtrancl_into_rtrancl [OF rtranclp.rtrancl_into_rtrancl [OF r_into_rtranclp [of "relay_step sink", OF a] b] c])
  moreover have "end_reason (shutdown_done ?r2) = Some Clean"
    by (simp add: shutdown_done_def check_clean_def end_reason_def relay_open_def sink_start_def e)
  ultimately show ?thesis using s by blast
qed

theorem relay_faithful_witness:
  "\<exists>r0 r w. relay_start (GenId 0 1) (GenId 0 1) (GenId 0 1) [7] True [] \<lparr>sp_bytes = [], sp_fin = True\<rparr> = Some (Ok r0)
     \<and> (relay_step sink)\<^sup>*\<^sup>* (r0, wire_start (), [7], []) (r, w, [7], [])
     \<and> end_reason r = Some Clean \<and> wi_out w = [7] \<and> wi_out_fin w"
proof -
  from sink_run obtain r0 r w where "relay_start (GenId 0 1) (GenId 0 1) (GenId 0 1) [7] True [] \<lparr>sp_bytes = [], sp_fin = True\<rparr> = Some (Ok r0)"
    "(relay_step sink)\<^sup>*\<^sup>* (r0, wire_start (), [7], []) (r, w, [7], [])" "end_reason r = Some Clean" by blast
  moreover from relay_faithful [OF this(1,2)] this(3) have "wi_out w = [7] \<and> wi_out_fin w" by simp
  ultimately show ?thesis by blast
qed

theorem relay_pump_settles_witness:
  "\<exists>r0 r w. relay_start (GenId 0 1) (GenId 0 1) (GenId 0 1) [7] True [] \<lparr>sp_bytes = [], sp_fin = True\<rparr> = Some (Ok r0)
     \<and> (relay_step sink)\<^sup>*\<^sup>* (r0, wire_start (), [7], []) (r, w, [7], [])
     \<and> (\<exists>out r' w'. relay_pump (logged sink) 0 100 r w = Some (out, r', w'))"
proof -
  from sink_run obtain r0 r w where "relay_start (GenId 0 1) (GenId 0 1) (GenId 0 1) [7] True [] \<lparr>sp_bytes = [], sp_fin = True\<rparr> = Some (Ok r0)"
    "(relay_step sink)\<^sup>*\<^sup>* (r0, wire_start (), [7], []) (r, w, [7], [])" by blast
  moreover from relay_pump_settles [OF this, of 0 100] have "\<exists>out r' w'. relay_pump (logged sink) 0 100 r w = Some (out, r', w')" by blast
  ultimately show ?thesis by blast
qed

end
