(* ===== verification/App_Cx.thy ===== *)
theory App_Cx
  imports Tcp_Relay Udp_Lane "HOL-Library.AList"
begin

text \<open>
  The interface between an application and the shard that drives it, \<open>Cx\<close> and \<open>App\<close> of
  \<^verbatim>\<open>crates/mq-runtime/src/app.rs\<close>, and the reads and writes on streams an application owns,
  \<^verbatim>\<open>crates/mq-proxy/src/app_stream.rs\<close>.

  A callback gets a \<open>cx\<close>: the current time and what the shard and the transport answer to each call, over a state
  \<open>'x\<close> of their own. Calls that return nothing are the values of \<open>cx_action\<close>. A hash map is an
  association list without repeated keys; where the source iterates over one, in an order Rust leaves
  open, the model takes the order of the list.

  \<open>env_ok\<close> is what the proofs rely on of the shard and the transport, and \<open>returns\<close> states that a handler returns.
\<close>

section \<open>Types, \<open>app.rs\<close>\<close>

type_synonym tcp_id = gen_id
type_synonym timer_id = gen_id
type_synonym dial_op_id = gen_id
type_synonym socket_op_id = gen_id
type_synonym udp_socket_id = gen_id

datatype dial_error = DialDns | DialRefused | DialTimeout | DialLimit | DialOther
datatype send_buf_full = SendBufFull
datatype tcp_end = ReadEof | TcpError nat

datatype cx_action =
    CxStreamReset stream_id
  | CxCloseConn conn_id
  | CxMarkConnAuthed conn_id
  | CxCancelTimer timer_id
  | CxCancelDial dial_op_id
  | CxCancelResolve dial_op_id
  | CxCancelUdpSocket socket_op_id
  | CxCloseUdpSocket udp_socket_id
  | CxTcpConsume tcp_id nat
  | CxTcpSetRead tcp_id bool
  | CxTcpSetRxLimit tcp_id nat
  | CxTcpClose tcp_id
  | CxTcpAbort tcp_id
  | CxSetAccepting bool
  | CxRequestExit int

record 'x cx = "'x transport_ops" +
  cx_now :: time
  cx_do :: "cx_action \<Rightarrow> 'x \<Rightarrow> 'x"
  cx_open_stream :: "conn_id \<Rightarrow> 'x \<Rightarrow> (stream_id, unit) result \<times> 'x"
  cx_datagram_mss :: "conn_id \<Rightarrow> 'x \<Rightarrow> nat"
  cx_datagram_send :: "conn_id \<Rightarrow> 'x \<Rightarrow> bytes \<Rightarrow> (unit, unit) result \<times> 'x"
  cx_datagram_recv :: "conn_id \<Rightarrow> nat \<Rightarrow> 'x \<Rightarrow> bytes option \<times> 'x"
  cx_open_app_udp_socket :: "ip_addr \<Rightarrow> 'x \<Rightarrow> socket_op_id \<times> 'x"
  cx_udp_send :: "udp_socket_id \<Rightarrow> socket_addr \<Rightarrow> bytes \<Rightarrow> 'x \<Rightarrow> (unit, send_buf_full) result \<times> 'x"
  cx_tcp_rx :: "tcp_id \<Rightarrow> 'x \<Rightarrow> bytes"
  cx_tcp_write :: "tcp_id \<Rightarrow> bytes \<Rightarrow> 'x \<Rightarrow> (unit, send_buf_full) result \<times> 'x"
  cx_start_relay :: "tcp_id \<Rightarrow> stream_id \<Rightarrow> stream_preread \<Rightarrow> 'x \<Rightarrow> (unit, preread_too_large) result \<times> 'x"
  cx_dial :: "target \<Rightarrow> duration \<Rightarrow> 'x \<Rightarrow> dial_op_id \<times> 'x"
  cx_resolve :: "target \<Rightarrow> duration \<Rightarrow> 'x \<Rightarrow> dial_op_id \<times> 'x"
  cx_set_timer :: "time \<Rightarrow> 'x \<Rightarrow> timer_id \<times> 'x"

text \<open>The callbacks of the trait \<open>App\<close>. A listener tag and the kind of an I/O error are numbers.\<close>

datatype app_event =
    AppStart
  | AppTransport event
  | AppAccepted u32 tcp_id accept_meta
  | AppTcpData tcp_id
  | AppTcpEnd tcp_id tcp_end
  | AppTcpWritable tcp_id
  | AppDialResult dial_op_id "(tcp_id, dial_error) result"
  | AppResolveResult dial_op_id "(socket_addr, dial_error) result"
  | AppUdpSocket socket_op_id "(udp_socket_id \<times> socket_addr, nat) result"
  | AppUdpRx udp_socket_id socket_addr bytes
  | AppTimer timer_id
  | AppShutdown

section \<open>Addresses\<close>

text \<open>\<open>IpAddr::to_canonical\<close>: an IPv4-mapped IPv6 address is the IPv4 address. \<open>SocketAddr::set_ip\<close> keeps the flow
  information and the scope of an IPv6 address.\<close>

fun ip_to_canonical :: "ip_addr \<Rightarrow> ip_addr" where
  "ip_to_canonical (IpV4 a) = IpV4 a"
| "ip_to_canonical (IpV6 a) = (if drop_bit 32 a = 0xFFFF then IpV4 (ucast a) else IpV6 a)"

fun socket_addr_set_ip :: "socket_addr \<Rightarrow> ip_addr \<Rightarrow> socket_addr" where
  "socket_addr_set_ip (SockV4 _ p) (IpV4 a) = SockV4 a p"
| "socket_addr_set_ip (SockV6 _ p f s) (IpV6 a) = SockV6 a p f s"
| "socket_addr_set_ip (SockV4 _ p) ip = socket_addr_new ip p"
| "socket_addr_set_ip (SockV6 _ p _ _) ip = socket_addr_new ip p"

section \<open>Streams an application owns, \<open>app_stream.rs\<close>\<close>

definition CHUNK :: nat where "CHUNK = 1024"

datatype recv = RecvData nat bool | RecvBlocked | RecvFailed

definition app_recv :: "('x, 'm) cx_scheme \<Rightarrow> stream_id \<Rightarrow> bytes \<Rightarrow> nat \<Rightarrow> 'x \<Rightarrow> recv \<times> bytes \<times> 'x" where
  "app_recv cx s buf cap x =
     (case tp_recv cx (cx_now cx) s cap x of
        (Ok (bs, fin), x) \<Rightarrow> let bs = take cap bs in (RecvData (length bs) fin, buf @ bs, x)
      | (Err e, x) \<Rightarrow>
          if e = SBlocked then (RecvBlocked, buf, x) else (RecvFailed, buf, cx_do cx (CxStreamReset s) x))"

partial_function (option) drain :: "('x, 'm) cx_scheme \<Rightarrow> stream_id \<Rightarrow> 'x \<Rightarrow> (bool \<times> 'x) option" where
  "drain cx s x =
     (case app_recv cx s [] CHUNK x of
        (RecvData n fin, _, x) \<Rightarrow> if \<not> fin \<and> 0 < n then drain cx s x else Some (True, x)
      | (RecvBlocked, _, x) \<Rightarrow> Some (True, x)
      | (RecvFailed, _, x) \<Rightarrow> Some (False, x))"

definition flush :: "('x, 'm) cx_scheme \<Rightarrow> stream_id \<Rightarrow> bytes \<Rightarrow> bool \<Rightarrow> 'x \<Rightarrow> bool \<times> bytes \<times> 'x" where
  "flush cx s tx fin x =
     (if tx = [] then (True, tx, x)
      else
        (case tp_send cx (cx_now cx) s tx fin x of
           (Ok n, x) \<Rightarrow> (True, drop (min n (length tx)) tx, x)
         | (Err e, x) \<Rightarrow> (e = SBlocked, tx, x)))"

text \<open>A frame encoded into a buffer of \<open>MAX_FRAME\<close> bytes and cut to its length; a frame that does not fit panics.\<close>

fun encoded :: "(nat, encode_error) result \<times> bytes \<Rightarrow> bytes option" where
  "encoded (Ok n, b) = Some (take n b)"
| "encoded (Err _, b) = None"

lemma encoded_ok: "is_ok_result (fst p) \<Longrightarrow> \<exists>b. encoded p = Some b"
  by (cases p; cases "fst p") auto

section \<open>Calls that return\<close>

text \<open>\<open>returns m Q\<close>: the call neither panics nor runs forever, and its result satisfies \<open>Q\<close>.\<close>

definition returns :: "'r option \<Rightarrow> ('r \<Rightarrow> bool) \<Rightarrow> bool" where
  "returns m Q \<longleftrightarrow> (\<exists>r. m = Some r \<and> Q r)"

lemma returns_Some [simp]: "returns (Some r) Q \<longleftrightarrow> Q r"
  by (simp add: returns_def)

lemma returns_None [simp]: "\<not> returns None Q"
  by (simp add: returns_def)

lemma returns_bind [simp]: "returns (Option.bind m f) Q \<longleftrightarrow> returns m (\<lambda>r. returns (f r) Q)"
  by (cases m) simp_all

lemma returns_mono: "returns m P \<Longrightarrow> (\<And>r. P r \<Longrightarrow> Q r) \<Longrightarrow> returns m Q"
  by (auto simp: returns_def)

lemma returns_SomeD: "returns m Q \<Longrightarrow> m = Some r \<Longrightarrow> Q r"
  by simp

section \<open>Association lists\<close>

lemma map_of_upd [simp]: "map_of (AList.update k v al) = (map_of al)(k \<mapsto> v)"
  by (rule ext) (simp add: update_conv')

lemma map_of_del [simp]: "map_of (AList.delete k al) = (map_of al)(k := None)"
  by (rule ext) (simp add: delete_conv')

lemma length_update: "length (AList.update k v al) = (if map_of al k = None then Suc (length al) else length al)"
  by (induction al) auto

lemma length_delete_le': "length (AList.delete k al) \<le> length al"
  by (simp add: AList.length_delete_le)

section \<open>What the loops rely on\<close>

text \<open>
  Two measures of the world. \<open>left x\<close> bounds what can still be read before the next callback: the bytes and datagrams
  that have arrived are finitely many, and reading some leaves fewer. \<open>hist x s\<close> is the record of all bytes
  that were read from stream \<open>s\<close>. \<open>env_ok\<close> says how the calls move both.
\<close>

definition quiet :: "('x \<Rightarrow> nat) \<Rightarrow> ('x \<Rightarrow> stream_id \<Rightarrow> bytes) \<Rightarrow> 'x \<Rightarrow> 'x \<Rightarrow> bool" where
  "quiet left hist x x' \<longleftrightarrow> left x' \<le> left x \<and> hist x' = hist x"

definition recv_ok ::
  "('x \<Rightarrow> nat) \<Rightarrow> ('x \<Rightarrow> stream_id \<Rightarrow> bytes) \<Rightarrow> stream_id \<Rightarrow> nat \<Rightarrow> 'x \<Rightarrow> (bytes \<times> bool, stream_error) result \<times> 'x \<Rightarrow> bool" where
  "recv_ok left hist s cap x r \<longleftrightarrow>
     (case r of
        (Ok (bs, fin), x') \<Rightarrow>
          left x' + length (take cap bs) \<le> left x \<and> hist x' = (hist x)(s := hist x s @ take cap bs)
      | (Err e, x') \<Rightarrow> quiet left hist x x')"

definition env_ok :: "('x, 'm) cx_scheme \<Rightarrow> ('x \<Rightarrow> nat) \<Rightarrow> ('x \<Rightarrow> stream_id \<Rightarrow> bytes) \<Rightarrow> bool" where
  "env_ok cx left hist \<longleftrightarrow>
     (\<forall>now s cap x. recv_ok left hist s cap x (tp_recv cx now s cap x)) \<and>
     (\<forall>c cap x. case cx_datagram_recv cx c cap x of
        (Some _, x') \<Rightarrow> left x' < left x \<and> hist x' = hist x | (None, x') \<Rightarrow> quiet left hist x x') \<and>
     (\<forall>now s d fin x. quiet left hist x (snd (tp_send cx now s d fin x))) \<and>
     (\<forall>a x. quiet left hist x (cx_do cx a x)) \<and>
     (\<forall>c x. quiet left hist x (snd (cx_open_stream cx c x))) \<and>
     (\<forall>c x d. quiet left hist x (snd (cx_datagram_send cx c x d))) \<and>
     (\<forall>ip x. quiet left hist x (snd (cx_open_app_udp_socket cx ip x))) \<and>
     (\<forall>s a d x. quiet left hist x (snd (cx_udp_send cx s a d x))) \<and>
     (\<forall>t d x. quiet left hist x (snd (cx_tcp_write cx t d x))) \<and>
     (\<forall>t s p x. quiet left hist x (snd (cx_start_relay cx t s p x))) \<and>
     (\<forall>t d x. quiet left hist x (snd (cx_dial cx t d x))) \<and>
     (\<forall>t d x. quiet left hist x (snd (cx_resolve cx t d x))) \<and>
     (\<forall>t x. quiet left hist x (snd (cx_set_timer cx t x)))"

text \<open>\<open>reads_only S\<close>: nothing arrived meanwhile, and only streams of \<open>S\<close> were read.\<close>

definition reads_only :: "('x \<Rightarrow> nat) \<Rightarrow> ('x \<Rightarrow> stream_id \<Rightarrow> bytes) \<Rightarrow> stream_id set \<Rightarrow> 'x \<Rightarrow> 'x \<Rightarrow> bool" where
  "reads_only left hist S x x' \<longleftrightarrow> left x' \<le> left x \<and> (\<forall>s. s \<notin> S \<longrightarrow> hist x' s = hist x s)"

lemma quiet_refl [simp]: "quiet left hist x x"
  by (simp add: quiet_def)

lemma quiet_trans: "quiet left hist x y \<Longrightarrow> quiet left hist y z \<Longrightarrow> quiet left hist x z"
  by (simp add: quiet_def)

lemma quiet_reads: "quiet left hist x x' \<Longrightarrow> reads_only left hist S x x'"
  by (simp add: quiet_def reads_only_def)

lemma reads_only_refl [simp]: "reads_only left hist S x x"
  by (simp add: reads_only_def)

lemma reads_only_trans:
  "reads_only left hist S x y \<Longrightarrow> reads_only left hist T y z \<Longrightarrow> T \<subseteq> S \<Longrightarrow> reads_only left hist S x z"
  by (fastforce simp: reads_only_def)

named_theorems env_simps \<open>how the calls of a world with \<open>env_ok\<close> move its measures\<close>

lemma env_do [env_simps]: "env_ok cx left hist \<Longrightarrow> quiet left hist x (cx_do cx a x)"
  by (simp add: env_ok_def)

lemma quiet_do: "env_ok cx left hist \<Longrightarrow> quiet left hist x y \<Longrightarrow> quiet left hist x (cx_do cx a y)"
  by (rule quiet_trans [OF _ env_do])

lemma env_timer [env_simps]: "env_ok cx left hist \<Longrightarrow> quiet left hist x (snd (cx_set_timer cx t x))"
  by (simp add: env_ok_def)

lemma env_dial [env_simps]: "env_ok cx left hist \<Longrightarrow> quiet left hist x (snd (cx_dial cx t d x))"
  by (simp add: env_ok_def)

lemma env_resolve [env_simps]: "env_ok cx left hist \<Longrightarrow> quiet left hist x (snd (cx_resolve cx t d x))"
  by (simp add: env_ok_def)

lemma env_open_udp [env_simps]: "env_ok cx left hist \<Longrightarrow> quiet left hist x (snd (cx_open_app_udp_socket cx ip x))"
  by (simp add: env_ok_def)

lemma env_udp_send [env_simps]: "env_ok cx left hist \<Longrightarrow> quiet left hist x (snd (cx_udp_send cx s a d x))"
  by (simp add: env_ok_def)

lemma env_start_relay [env_simps]: "env_ok cx left hist \<Longrightarrow> quiet left hist x (snd (cx_start_relay cx t s p x))"
  by (simp add: env_ok_def)

lemma env_open_stream [env_simps]: "env_ok cx left hist \<Longrightarrow> quiet left hist x (snd (cx_open_stream cx c x))"
  by (simp add: env_ok_def)

lemma env_tcp_write [env_simps]: "env_ok cx left hist \<Longrightarrow> quiet left hist x (snd (cx_tcp_write cx t d x))"
  by (simp add: env_ok_def)

lemma flush_quiet [env_simps]: "env_ok cx left hist \<Longrightarrow> quiet left hist x (snd (snd (flush cx s tx fin x)))"
proof -
  assume "env_ok cx left hist"
  then have "quiet left hist x (snd (tp_send cx (cx_now cx) s tx fin x))" by (simp add: env_ok_def)
  then show ?thesis by (auto simp: flush_def split: prod.splits result.splits)
qed

lemma fold_emit_frag_quiet:
  assumes "\<And>t d. quiet left hist t (snd (send t d))"
  shows "quiet left hist (ss_transport s) (ss_transport (fold (emit_frag send) fs s))"
proof (induction fs arbitrary: s)
  case (Cons f fs)
  have "ss_transport (emit_frag send f s) = snd (send (ss_transport s) (udp_msg_hdr_encode (fst f) @ snd f))"
    by (auto simp: emit_frag_def Let_def split: prod.splits result.splits)
  then have "quiet left hist (ss_transport s) (ss_transport (emit_frag send f s))" using assms by simp
  from quiet_trans [OF this Cons.IH] show ?case by simp
qed simp

lemma send_packet_quiet [env_simps]:
  assumes "env_ok cx left hist"
  shows "quiet left hist x (fst (snd (send_packet mss_of (cx_datagram_send cx c) x mss sid pid payload n)))"
proof -
  have "quiet left hist t (snd (cx_datagram_send cx c t d))" for t d using assms by (simp add: env_ok_def)
  note q = fold_emit_frag_quiet [of left hist "cx_datagram_send cx c", OF this]
  show ?thesis using q [of "\<lparr>ss_transport = x, ss_buf = b, ss_out = out, ss_mss = m, ss_counters = n\<rparr>" for b out m]
    by (simp add: send_packet_def Let_def split: prod.splits)
qed

lemma app_recv_ok:
  assumes "env_ok cx left hist" and "app_recv cx s buf cap x = (r, buf', x')"
  shows "\<exists>bs. buf' = buf @ bs \<and> length bs \<le> cap \<and> left x' + length bs \<le> left x \<and> hist x' = (hist x)(s := hist x s @ bs)
    \<and> (\<forall>n fin. r = RecvData n fin \<longrightarrow> n = length bs) \<and> (r = RecvBlocked \<or> r = RecvFailed \<longrightarrow> bs = [])"
proof -
  have r: "recv_ok left hist s cap x (tp_recv cx (cx_now cx) s cap x)" using assms(1) by (simp add: env_ok_def)
  show ?thesis
  proof (cases "tp_recv cx (cx_now cx) s cap x")
    case (Pair a y)
    show ?thesis
    proof (cases a)
      case (Ok p)
      then show ?thesis using r assms(2) Pair by (cases p) (auto simp: app_recv_def recv_ok_def Let_def)
    next
      case (Err e)
      have q: "quiet left hist y (cx_do cx (CxStreamReset s) y)" by (rule env_do [OF assms(1)])
      show ?thesis using r q assms(2) Pair Err by (auto simp: app_recv_def recv_ok_def quiet_def split: if_splits)
    qed
  qed
qed

text \<open>\<open>reads_more s\<close>: bytes were read from \<open>s\<close> alone.\<close>

definition reads_more :: "('x \<Rightarrow> nat) \<Rightarrow> ('x \<Rightarrow> stream_id \<Rightarrow> bytes) \<Rightarrow> stream_id \<Rightarrow> 'x \<Rightarrow> 'x \<Rightarrow> bool" where
  "reads_more left hist s x x' \<longleftrightarrow> left x' \<le> left x \<and> (\<exists>bs. hist x' = (hist x)(s := hist x s @ bs))"

lemma reads_more_trans: "reads_more left hist s x y \<Longrightarrow> reads_more left hist s y z \<Longrightarrow> reads_more left hist s x z"
  by (auto simp: reads_more_def)

lemma reads_more_quiet: "quiet left hist x y \<Longrightarrow> reads_more left hist s x y"
  by (auto simp: reads_more_def quiet_def intro: exI [of _ "[]"])

lemma reads_more_only: "reads_more left hist s x x' \<Longrightarrow> s \<in> S \<Longrightarrow> reads_only left hist S x x'"
  by (auto simp: reads_more_def reads_only_def)

lemma app_recv_more:
  assumes "env_ok cx left hist" and "app_recv cx s buf cap x = (r, buf', x')"
  shows "reads_more left hist s x x'"
  using app_recv_ok [OF assms] by (auto simp: reads_more_def)

lemma drain_returns:
  assumes "env_ok cx left hist"
  shows "returns (drain cx s x) (\<lambda>(ok, x'). reads_more left hist s x x')"
proof (induction "left x" arbitrary: x rule: less_induct)
  case less
  obtain r b y where r: "app_recv cx s [] CHUNK x = (r, b, y)" by (metis prod_cases3)
  note ok = app_recv_ok [OF assms r] and rd = app_recv_more [OF assms r]
  show ?case
  proof (cases "\<exists>n. r = RecvData n False \<and> 0 < n")
    case True
    then obtain n where n: "r = RecvData n False" "0 < n" by blast
    then have "left y < left x" using ok by (cases b) auto
    from less [OF this] have "returns (drain cx s y) (\<lambda>(ok, x'). reads_more left hist s x x')"
      by (rule returns_mono) (auto intro: reads_more_trans [OF rd])
    then show ?thesis using r n by (subst drain.simps) simp
  next
    case False
    then show ?thesis using r rd by (subst drain.simps) (auto split: recv.splits)
  qed
qed

end
