(* ===== verification/Server_App.thy ===== *)
theory Server_App
  imports App_Cx Udp_Defrag
begin

text \<open>
  The server application, \<^verbatim>\<open>crates/mq-proxy/src/server/mod.rs\<close>, with its UDP sessions, \<^verbatim>\<open>server/udp_session.rs\<close>: per
  connection a control stream that authenticates the client, then data streams that each carry one request and
  lead to a dialled TCP socket and a relay, or to a UDP session.

  A panic (\<open>expect\<close>, an index, \<open>unreachable\<close>, a subtraction below zero) is \<open>None\<close>. The HTTP gateway is a hook of the
  environment, \<open>srv_gw\<close>: what it does to the world is arbitrary, and the bool is whether it took the event. Log lines, the statistics
  they print and the scratch buffer of the datagram reads are left out.
\<close>

section \<open>Configuration, \<open>config.rs\<close>\<close>

record gateway_config =
  gcf_origin_ca :: "bytes option"
  gcf_masquerade :: bool
  gcf_request_metrics :: bool
  gcf_origin_connect_timeout :: duration

record server_config =
  scf_token :: bytes
  scf_dial_deadline :: duration
  scf_auth_deadline :: duration
  scf_request_deadline :: duration
  scf_metrics_interval :: "duration option"
  scf_udp_enabled :: bool
  scf_udp_idle_timeout :: duration
  scf_gateway :: "gateway_config option"

definition gateway_config_default :: gateway_config where
  "gateway_config_default = \<lparr>gcf_origin_ca = None, gcf_masquerade = False, gcf_request_metrics = False,
     gcf_origin_connect_timeout = duration_secs 10\<rparr>"

definition server_config_default :: server_config where
  "server_config_default = \<lparr>scf_token = [], scf_dial_deadline = duration_secs 15, scf_auth_deadline = duration_secs 10,
     scf_request_deadline = duration_secs 10, scf_metrics_interval = None, scf_udp_enabled = True,
     scf_udp_idle_timeout = DEFAULT_IDLE, scf_gateway = None\<rparr>"

section \<open>State\<close>

definition SERVER_ID :: bytes where "SERVER_ID = ascii ''mqproxy-server''"
definition MAX_TOKEN :: nat where "MAX_TOKEN = 255"
definition STREAM_BUDGET :: nat where "STREAM_BUDGET = 4096"
definition REQ_BUF :: nat where "REQ_BUF = 1024"
definition REFUSED_CLOSE :: duration where "REFUSED_CLOSE = duration_secs 1"

datatype srv_tm = TmConn conn_id | TmRequest stream_id | TmMetrics | TmUdpIdle conn_id u32

datatype ctrl_st = Authing | Settled | Refused

record srv_ctrl =
  ct_s :: stream_id
  ct_st :: ctrl_st
  ct_rx :: bytes
  ct_tx :: bytes
  ct_fin :: bool

datatype srv_udp_phase =
    Resolving dial_op_id
  | Opening socket_op_id socket_addr
  | Live udp_socket_id socket_addr timer_id time

record srv_session =
  us_stream :: stream_id
  us_phase :: srv_udp_phase
  us_idle_len :: duration
  us_defrag :: defrag
  us_packet_id :: u16

record srv_conn =
  k_proto :: conn_proto
  k_ctrl :: "srv_ctrl option"
  k_timer :: "timer_id option"
  k_held :: nat
  k_closing :: bool
  k_udp :: "(u32 \<times> srv_session) list"
  k_preopen :: pre_open
  k_mss :: mss_cache
  k_counters :: counters

definition conn_authed :: "srv_conn \<Rightarrow> bool" where
  "conn_authed k = (case k_ctrl k of Some c \<Rightarrow> ct_st c = Settled | None \<Rightarrow> False)"

datatype srv_phase =
    Request timer_id
  | Dialling dial_op_id
  | Responding tcp_id
  | Retiring
  | Udp u32

record srv_data =
  da_conn :: conn_id
  da_phase :: srv_phase
  da_rx :: bytes
  da_fin :: bool
  da_tx :: bytes

record server =
  sv_cfg :: server_config
  sv_token :: bytes
  sv_conns :: "(conn_id \<times> srv_conn) list"
  sv_data :: "(stream_id \<times> srv_data) list"
  sv_dials :: "(dial_op_id \<times> stream_id) list"
  sv_resolves :: "(dial_op_id \<times> conn_id \<times> u32) list"
  sv_socket_opens :: "(socket_op_id \<times> conn_id \<times> u32) list"
  sv_udp_socks :: "(udp_socket_id \<times> conn_id \<times> u32) list"
  sv_timers :: "(timer_id \<times> srv_tm) list"
  sv_active :: "conn_id option"
  sv_auth_attempts :: u64
  sv_shutting_down :: bool
  sv_gw :: bool

datatype gw_call =
    GwNewConn conn_id
  | GwConnClosed conn_id
  | GwH3Event event
  | GwTcpData tcp_id
  | GwTcpEnd tcp_id tcp_end
  | GwTcpWritable tcp_id
  | GwDialResult dial_op_id "(tcp_id, dial_error) result"
  | GwTimer timer_id
  | GwShutdown

record 'x srv_env = "'x cx" +
  srv_gw :: "gw_call \<Rightarrow> 'x \<Rightarrow> bool \<times> 'x"

definition gw_call :: "'x srv_env \<Rightarrow> gw_call \<Rightarrow> server \<Rightarrow> 'x \<Rightarrow> 'x" where
  "gw_call cx g sv x = (if sv_gw sv then snd (srv_gw cx g x) else x)"

abbreviation put_conn :: "conn_id \<Rightarrow> srv_conn \<Rightarrow> server \<Rightarrow> server" where
  "put_conn c k sv \<equiv> sv\<lparr>sv_conns := AList.update c k (sv_conns sv)\<rparr>"

abbreviation put_data :: "stream_id \<Rightarrow> srv_data \<Rightarrow> server \<Rightarrow> server" where
  "put_data s d sv \<equiv> sv\<lparr>sv_data := AList.update s d (sv_data sv)\<rparr>"

definition server_new :: "server_config \<Rightarrow> server" where
  "server_new cfg = \<lparr>sv_cfg = cfg, sv_token = take (min (length (scf_token cfg)) MAX_TOKEN) (scf_token cfg), sv_conns = [],
     sv_data = [], sv_dials = [], sv_resolves = [], sv_socket_opens = [], sv_udp_socks = [], sv_timers = [], sv_active = None,
     sv_auth_attempts = 0, sv_shutting_down = False, sv_gw = False\<rparr>"

definition server_with_gateway :: "server_config \<Rightarrow> server option" where
  "server_with_gateway cfg =
     (case scf_gateway cfg of None \<Rightarrow> None | Some _ \<Rightarrow> Some ((server_new cfg)\<lparr>sv_gw := True\<rparr>))"

section \<open>Responses and requests\<close>

text \<open>The discriminants of \<open>TcpErr\<close> and \<open>UdpErr\<close>.\<close>

fun tcp_err_raw :: "tcp_err \<Rightarrow> u64" where
  "tcp_err_raw TcpOk = 0"
| "tcp_err_raw TcpDnsFailed = 1"
| "tcp_err_raw TcpConnRefused = 2"
| "tcp_err_raw TcpTimeout = 3"
| "tcp_err_raw TcpPolicyDenied = 4"

fun udp_err_raw :: "udp_err \<Rightarrow> u64" where
  "udp_err_raw UdpDnsFailed = 1"
| "udp_err_raw UdpSocketFailed = 2"
| "udp_err_raw UdpPolicyDenied = 3"
| "udp_err_raw UdpSessionLimit = 4"

definition tcp_resp :: "u8 \<Rightarrow> tcp_err \<Rightarrow> bytes option" where
  "tcp_resp status e =
     encoded (connect_tcp_resp_encode \<lparr>ctr_status = status, ctr_error_code = tcp_err_raw e, ctr_message = []\<rparr> (replicate MAX_FRAME 0))"

fun map_dial_error :: "dial_error \<Rightarrow> tcp_err" where
  "map_dial_error DialDns = TcpDnsFailed"
| "map_dial_error DialRefused = TcpConnRefused"
| "map_dial_error DialOther = TcpConnRefused"
| "map_dial_error DialTimeout = TcpTimeout"
| "map_dial_error DialLimit = TcpPolicyDenied"

definition udp_resp :: "(u64, udp_err) result \<Rightarrow> bytes option" where
  "udp_resp r =
     (case (case r of Ok idle \<Rightarrow> (STATUS_OK, 0, idle) | Err e \<Rightarrow> (STATUS_ERROR, udp_err_raw e, 0)) of
        (status, error_code, idle) \<Rightarrow>
          encoded (udp_session_resp_encode
            \<lparr>usr_status = status, usr_error_code = error_code, usr_message = [], usr_idle_timeout_ms = idle\<rparr>
            (replicate MAX_FRAME 0)))"

definition negotiated_idle :: "u64 \<Rightarrow> duration \<Rightarrow> u64" where
  "negotiated_idle requested_ms server =
     (let server = of_nat (min (server div 1000000) (unat varint_MAX)) in
      if requested_ms = 0 then server else min requested_ms server)"

definition srv_canonical :: "socket_addr \<Rightarrow> socket_addr" where
  "srv_canonical a = socket_addr_set_ip a
     (case ip_to_canonical (socket_addr_ip a) of
        IpV4 v \<Rightarrow> if v = 0 then IpV4 0x7F000001 else IpV4 v
      | IpV6 v \<Rightarrow> if v = 0 then IpV6 1 else IpV6 v)"

datatype parsed =
    ParsedWait
  | ParsedBad
  | ParsedUndialable nat
  | ParsedDial nat target
  | ParsedUdpOpen u32 "target option" u64

definition parse_request :: "bytes \<Rightarrow> bool \<Rightarrow> parsed" where
  "parse_request buf fin =
     (let wait = (if fin \<or> MAX_FRAME \<le> length buf then ParsedBad else ParsedWait) in
      case varint_decode buf of
        Err _ \<Rightarrow> wait
      | Ok (ty, n) \<Rightarrow>
          if ty = STREAM_TYPE_CONNECT_TCP then
            (case connect_tcp_req_decode (drop n buf) of
               Ok (req, used) \<Rightarrow>
                 if n + used \<le> MAX_FRAME then
                   (case host_of (ctq_address_type req) (ctq_host req) of
                      Some host \<Rightarrow> ParsedDial (n + used) \<lparr>tgt_host = host, tgt_port = ctq_port req\<rparr>
                    | None \<Rightarrow> ParsedUndialable (n + used))
                 else ParsedBad
             | Err e \<Rightarrow> if e = DecShort then wait else ParsedBad)
          else if ty = STREAM_TYPE_UDP_SESSION then
            (case udp_session_open_decode (drop n buf) of
               Ok (r, used) \<Rightarrow>
                 if n + used \<le> MAX_FRAME then
                   ParsedUdpOpen (uso_session_id r)
                     (map_option (\<lambda>host. \<lparr>tgt_host = host, tgt_port = uso_port r\<rparr>) (host_of (uso_address_type r) (uso_host r)))
                     (uso_idle_timeout_ms r)
                 else ParsedBad
             | Err e \<Rightarrow> if e = DecShort then wait else ParsedBad)
          else ParsedBad)"

section \<open>Timers, connections and streams\<close>

definition srv_timer :: "'x srv_env \<Rightarrow> duration \<Rightarrow> srv_tm \<Rightarrow> server \<Rightarrow> 'x \<Rightarrow> timer_id \<times> server \<times> 'x" where
  "srv_timer cx after tm sv x =
     (case cx_set_timer cx (time_add (cx_now cx) after) x of
        (t, x) \<Rightarrow> (t, sv\<lparr>sv_timers := AList.update t tm (sv_timers sv)\<rparr>, x))"

definition srv_cancel :: "'x srv_env \<Rightarrow> timer_id \<Rightarrow> server \<Rightarrow> 'x \<Rightarrow> server \<times> 'x" where
  "srv_cancel cx t sv x = (sv\<lparr>sv_timers := AList.delete t (sv_timers sv)\<rparr>, cx_do cx (CxCancelTimer t) x)"

definition srv_close :: "'x srv_env \<Rightarrow> conn_id \<Rightarrow> server \<Rightarrow> 'x \<Rightarrow> server \<times> 'x" where
  "srv_close cx c sv x =
     (case map_of (sv_conns sv) c of
        None \<Rightarrow> (sv, x)
      | Some k \<Rightarrow>
          if k_closing k then (sv, x)
          else
            let sv = put_conn c (k\<lparr>k_closing := True, k_timer := None\<rparr>) sv;
                (sv, x) = (case k_timer k of Some t \<Rightarrow> srv_cancel cx t sv x | None \<Rightarrow> (sv, x))
            in (sv, cx_do cx (CxCloseConn c) x))"

definition ctrl_conn :: "stream_id \<Rightarrow> server \<Rightarrow> conn_id option" where
  "ctrl_conn s sv =
     map_option fst (find (\<lambda>(c, k). case k_ctrl k of Some t \<Rightarrow> ct_s t = s | None \<Rightarrow> False) (sv_conns sv))"

text \<open>\<open>release\<close>: the budget entry goes back; below zero is a panic.\<close>

definition srv_release :: "stream_id \<Rightarrow> server \<Rightarrow> (srv_data option \<times> server) option" where
  "srv_release s sv =
     (case map_of (sv_data sv) s of
        None \<Rightarrow> Some (None, sv)
      | Some d \<Rightarrow>
          let sv = sv\<lparr>sv_data := AList.delete s (sv_data sv)\<rparr> in
          (case map_of (sv_conns sv) (da_conn d) of
             None \<Rightarrow> Some (Some d, sv)
           | Some k \<Rightarrow>
               if k_held k = 0 then None
               else Some (Some d, put_conn (da_conn d) (k\<lparr>k_held := k_held k - 1\<rparr>) sv)))"

definition take_session :: "conn_id \<Rightarrow> u32 \<Rightarrow> server \<Rightarrow> srv_session option \<times> server" where
  "take_session c sid sv =
     (case map_of (sv_conns sv) c of
        None \<Rightarrow> (None, sv)
      | Some k \<Rightarrow>
          (case map_of (k_udp k) sid of
             None \<Rightarrow> (None, sv)
           | Some ss \<Rightarrow>
               (Some ss, put_conn c (k\<lparr>k_udp := AList.delete sid (k_udp k), k_preopen := pre_open_discard (k_preopen k) sid\<rparr>) sv)))"

definition srv_end_session :: "'x srv_env \<Rightarrow> conn_id \<Rightarrow> u32 \<Rightarrow> server \<Rightarrow> 'x \<Rightarrow> server \<times> 'x" where
  "srv_end_session cx c sid sv x =
     (case take_session c sid sv of
        (None, sv) \<Rightarrow> (sv, x)
      | (Some ss, sv) \<Rightarrow>
          (case us_phase ss of
             Resolving op \<Rightarrow> (sv\<lparr>sv_resolves := AList.delete op (sv_resolves sv)\<rparr>, cx_do cx (CxCancelResolve op) x)
           | Opening op _ \<Rightarrow> (sv\<lparr>sv_socket_opens := AList.delete op (sv_socket_opens sv)\<rparr>, cx_do cx (CxCancelUdpSocket op) x)
           | Live sock _ idle _ \<Rightarrow>
               srv_cancel cx idle (sv\<lparr>sv_udp_socks := AList.delete sock (sv_udp_socks sv)\<rparr>) (cx_do cx (CxCloseUdpSocket sock) x)))"

definition drop_data :: "'x srv_env \<Rightarrow> stream_id \<Rightarrow> bool \<Rightarrow> server \<Rightarrow> 'x \<Rightarrow> (server \<times> 'x) option" where
  "drop_data cx s reset sv x = do {
     (d, sv) \<leftarrow> srv_release s sv;
     case d of
       None \<Rightarrow> Some (sv, x)
     | Some d \<Rightarrow>
         let (sv, x) = (case da_phase d of
               Request t \<Rightarrow> srv_cancel cx t sv x
             | Dialling op \<Rightarrow> (sv\<lparr>sv_dials := AList.delete op (sv_dials sv)\<rparr>, cx_do cx (CxCancelDial op) x)
             | Responding tcp \<Rightarrow> (sv, cx_do cx (CxTcpAbort tcp) x)
             | Retiring \<Rightarrow> (sv, x)
             | Udp sid \<Rightarrow> srv_end_session cx (da_conn d) sid sv x)
         in Some (sv, if reset then cx_do cx (CxStreamReset s) x else x) }"

fun drop_all :: "'x srv_env \<Rightarrow> stream_id list \<Rightarrow> server \<Rightarrow> 'x \<Rightarrow> (server \<times> 'x) option" where
  "drop_all cx [] sv x = Some (sv, x)"
| "drop_all cx (s # ss) sv x = Option.bind (drop_data cx s False sv x) (\<lambda>(sv, x). drop_all cx ss sv x)"

definition leave_request :: "'x srv_env \<Rightarrow> srv_phase \<Rightarrow> server \<Rightarrow> 'x \<Rightarrow> server \<times> 'x" where
  "leave_request cx ph sv x = (case ph of Request t \<Rightarrow> srv_cancel cx t sv x | _ \<Rightarrow> (sv, x))"

definition respond_error :: "'x srv_env \<Rightarrow> stream_id \<Rightarrow> bytes \<Rightarrow> server \<Rightarrow> 'x \<Rightarrow> (server \<times> 'x) option" where
  "respond_error cx s resp sv x =
     (case map_of (sv_data sv) s of
        None \<Rightarrow> None
      | Some d \<Rightarrow>
          let (sv, x) = leave_request cx (da_phase d) (put_data s (d\<lparr>da_phase := Retiring\<rparr>) sv) x;
              (ok, tx, x) = flush cx s resp True x;
              sv = put_data s (d\<lparr>da_phase := Retiring, da_rx := [], da_tx := tx\<rparr>) sv
          in if ok then Some (sv, x) else drop_data cx s True sv x)"

definition srv_dial :: "'x srv_env \<Rightarrow> stream_id \<Rightarrow> target \<Rightarrow> server \<Rightarrow> 'x \<Rightarrow> (server \<times> 'x) option" where
  "srv_dial cx s t sv x =
     (case cx_dial cx t (scf_dial_deadline (sv_cfg sv)) x of
        (op, x) \<Rightarrow>
          let sv = sv\<lparr>sv_dials := AList.update op s (sv_dials sv)\<rparr> in
          (case map_of (sv_data sv) s of
             None \<Rightarrow> None
           | Some d \<Rightarrow> Some (leave_request cx (da_phase d) (put_data s (d\<lparr>da_phase := Dialling op\<rparr>) sv) x)))"

definition send_ok :: "'x srv_env \<Rightarrow> stream_id \<Rightarrow> server \<Rightarrow> 'x \<Rightarrow> (server \<times> 'x) option" where
  "send_ok cx s sv x =
     (case map_of (sv_data sv) s of
        None \<Rightarrow> None
      | Some d \<Rightarrow>
          (case da_phase d of
             Responding tcp \<Rightarrow>
               let (ok, tx, x) = flush cx s (da_tx d) False x;
                   sv = put_data s (d\<lparr>da_tx := tx\<rparr>) sv
               in if \<not> ok then drop_data cx s True sv x
                  else if tx \<noteq> [] then Some (sv, x)
                  else Option.bind (srv_release s sv) (\<lambda>(d, sv).
                    case d of
                      None \<Rightarrow> None
                    | Some d \<Rightarrow>
                        (case cx_start_relay cx tcp s \<lparr>sp_bytes = da_rx d, sp_fin = da_fin d\<rparr> x of
                           (Ok _, x) \<Rightarrow> Some (sv, x)
                         | (Err _, x) \<Rightarrow> Some (sv, cx_do cx (CxStreamReset s) (cx_do cx (CxTcpAbort tcp) x))))
           | _ \<Rightarrow> Some (sv, x)))"

section \<open>UDP sessions, \<open>udp_session.rs\<close>\<close>

definition get_session :: "conn_id \<Rightarrow> u32 \<Rightarrow> server \<Rightarrow> (srv_conn \<times> srv_session) option" where
  "get_session c sid sv = do { k \<leftarrow> map_of (sv_conns sv) c; ss \<leftarrow> map_of (k_udp k) sid; Some (k, ss) }"

abbreviation put_session :: "conn_id \<Rightarrow> srv_conn \<Rightarrow> u32 \<Rightarrow> srv_session \<Rightarrow> server \<Rightarrow> server" where
  "put_session c k sid ss sv \<equiv> put_conn c (k\<lparr>k_udp := AList.update sid ss (k_udp k)\<rparr>) sv"

definition udp_open ::
  "'x srv_env \<Rightarrow> stream_id \<Rightarrow> u32 \<Rightarrow> target option \<Rightarrow> u64 \<Rightarrow> server \<Rightarrow> 'x \<Rightarrow> (server \<times> 'x) option" where
  "udp_open cx s sid target requested_ms sv x =
     (if \<not> scf_udp_enabled (sv_cfg sv) then
        Option.bind (udp_resp (Err UdpPolicyDenied)) (\<lambda>r. respond_error cx s r sv x)
      else do {
        d \<leftarrow> map_of (sv_data sv) s;
        let c = da_conn d;
        k \<leftarrow> map_of (sv_conns sv) c;
        if map_of (k_udp k) sid \<noteq> None then drop_data cx s True sv x
        else if MAX_SESSIONS_PER_CONN \<le> length (k_udp k) then
          Option.bind (udp_resp (Err UdpSessionLimit)) (\<lambda>r. respond_error cx s r sv x)
        else
          (case target of
             None \<Rightarrow> Option.bind (udp_resp (Err UdpDnsFailed)) (\<lambda>r. respond_error cx s r sv x)
           | Some t \<Rightarrow>
               let (op, x) = cx_resolve cx t (scf_dial_deadline (sv_cfg sv)) x;
                   sv = put_data s (d\<lparr>da_phase := Udp sid\<rparr>) (sv\<lparr>sv_resolves := AList.update op (c, sid) (sv_resolves sv)\<rparr>);
                   (sv, x) = leave_request cx (da_phase d) sv x;
                   idle = negotiated_idle requested_ms (scf_udp_idle_timeout (sv_cfg sv));
                   ss = \<lparr>us_stream = s, us_phase = Resolving op, us_idle_len = duration_millis (unat idle),
                         us_defrag = defrag_new, us_packet_id = 0\<rparr>
               in Some (put_session c k sid ss sv, x)) })"

definition srv_refuse :: "'x srv_env \<Rightarrow> conn_id \<Rightarrow> u32 \<Rightarrow> udp_err \<Rightarrow> server \<Rightarrow> 'x \<Rightarrow> (server \<times> 'x) option" where
  "srv_refuse cx c sid e sv x =
     (case take_session c sid sv of
        (None, _) \<Rightarrow> None
      | (Some ss, sv) \<Rightarrow> Option.bind (udp_resp (Err e)) (\<lambda>r. respond_error cx (us_stream ss) r sv x))"

definition udp_resolved ::
  "'x srv_env \<Rightarrow> dial_op_id \<Rightarrow> (socket_addr, dial_error) result \<Rightarrow> server \<Rightarrow> 'x \<Rightarrow> (server \<times> 'x) option" where
  "udp_resolved cx op r sv x =
     (case map_of (sv_resolves sv) op of
        None \<Rightarrow> Some (sv, x)
      | Some (c, sid) \<Rightarrow>
          let sv = sv\<lparr>sv_resolves := AList.delete op (sv_resolves sv)\<rparr> in
          (case r of
             Err _ \<Rightarrow> srv_refuse cx c sid UdpDnsFailed sv x
           | Ok addr \<Rightarrow>
               let local = (case addr of SockV4 _ _ \<Rightarrow> IpV4 0 | SockV6 _ _ _ _ \<Rightarrow> IpV6 0);
                   (op, x) = cx_open_app_udp_socket cx local x;
                   sv = sv\<lparr>sv_socket_opens := AList.update op (c, sid) (sv_socket_opens sv)\<rparr>
               in do {
                 (k, ss) \<leftarrow> get_session c sid sv;
                 Some (put_session c k sid (ss\<lparr>us_phase := Opening op (srv_canonical addr)\<rparr>) sv, x) }))"

definition deliver_live ::
  "'x srv_env \<Rightarrow> conn_id \<Rightarrow> srv_conn \<Rightarrow> udp_msg_hdr \<Rightarrow> bytes \<Rightarrow> srv_session \<Rightarrow> udp_socket_id \<times> socket_addr \<times> timer_id
     \<Rightarrow> server \<Rightarrow> 'x \<Rightarrow> server \<times> 'x" where
  "deliver_live cx c k h body ss l sv x =
     (case l of (sock, target, idle) \<Rightarrow>
      case defrag_feed (us_defrag ss) h body of
        (r, df) \<Rightarrow>
          let ss = ss\<lparr>us_defrag := df\<rparr>;
              sid = umh_session_id h;
              put = (\<lambda>ss n. put_session c (k\<lparr>k_counters := n\<rparr>) sid ss sv);
              n = k_counters k
          in (case r of
                Pending \<Rightarrow> (put ss n, x)
              | Rejected \<Rightarrow> (put ss (n\<lparr>c_defrag_drops := c_defrag_drops n + 1\<rparr>), x)
              | Complete p \<Rightarrow>
                  let n = (if 1 < umh_frag_count h then n\<lparr>c_frags_reassembled := c_frags_reassembled n + 1\<rparr> else n) in
                  if p = [] then (put ss (n\<lparr>c_drops_empty := c_drops_empty n + 1\<rparr>), x)
                  else
                    (case cx_udp_send cx sock target p x of
                       (Err _, x) \<Rightarrow> (put ss (n\<lparr>c_drops_send_fail := c_drops_send_fail n + 1\<rparr>), x)
                     | (Ok _, x) \<Rightarrow> (put (ss\<lparr>us_phase := Live sock target idle (cx_now cx)\<rparr>) n, x))))"

definition preopen_park :: "'x srv_env \<Rightarrow> srv_conn \<Rightarrow> u32 \<Rightarrow> bytes \<Rightarrow> srv_conn" where
  "preopen_park cx k sid d =
     (case pre_open_push (k_preopen k) (cx_now cx) sid d of
        (n, po) \<Rightarrow> k\<lparr>k_preopen := po, k_counters := (k_counters k)\<lparr>c_preopen_evictions := c_preopen_evictions (k_counters k) + n\<rparr>\<rparr>)"

definition udp_deliver :: "'x srv_env \<Rightarrow> conn_id \<Rightarrow> bytes \<Rightarrow> server \<Rightarrow> 'x \<Rightarrow> server \<times> 'x" where
  "udp_deliver cx c d sv x =
     (case map_of (sv_conns sv) c of
        None \<Rightarrow> (sv, x)
      | Some k \<Rightarrow>
          if \<not> scf_udp_enabled (sv_cfg sv) \<or> \<not> conn_authed k then
            (put_conn c (k\<lparr>k_counters := (k_counters k)\<lparr>c_drops_preauth := c_drops_preauth (k_counters k) + 1\<rparr>\<rparr>) sv, x)
          else
            (case udp_msg_hdr_decode d of
               None \<Rightarrow> (sv, x)
             | Some h \<Rightarrow>
                 (case map_of (k_udp k) (umh_session_id h) of
                    Some ss \<Rightarrow>
                      (case us_phase ss of
                         Live sock target idle _ \<Rightarrow> deliver_live cx c k h (drop UDP_MSG_HDR d) ss (sock, target, idle) sv x
                       | _ \<Rightarrow> (put_conn c (preopen_park cx k (umh_session_id h) d) sv, x))
                  | None \<Rightarrow> (put_conn c (preopen_park cx k (umh_session_id h) d) sv, x))))"

definition udp_socket ::
  "'x srv_env \<Rightarrow> socket_op_id \<Rightarrow> (udp_socket_id \<times> socket_addr, nat) result \<Rightarrow> server \<Rightarrow> 'x \<Rightarrow> (server \<times> 'x) option" where
  "udp_socket cx op r sv x =
     (case map_of (sv_socket_opens sv) op of
        None \<Rightarrow> Some (sv, x)
      | Some (c, sid) \<Rightarrow>
          let sv = sv\<lparr>sv_socket_opens := AList.delete op (sv_socket_opens sv)\<rparr> in
          (case r of
             Err _ \<Rightarrow> srv_refuse cx c sid UdpSocketFailed sv x
           | Ok (sock, _) \<Rightarrow> do {
               (k, ss) \<leftarrow> get_session c sid sv;
               let (idle, sv, x) = srv_timer cx (us_idle_len ss) (TmUdpIdle c sid) sv x;
               let sv = sv\<lparr>sv_udp_socks := AList.update sock (c, sid) (sv_udp_socks sv)\<rparr>;
               target \<leftarrow> (case us_phase ss of Opening _ t \<Rightarrow> Some t | _ \<Rightarrow> None);
               let sv = put_session c k sid (ss\<lparr>us_phase := Live sock target idle (cx_now cx)\<rparr>) sv;
               d \<leftarrow> map_of (sv_data sv) (us_stream ss);
               resp \<leftarrow> udp_resp (Ok (of_nat (us_idle_len ss div 1000000)));
               let (ok, tx, x) = flush cx (us_stream ss) resp False x;
               let sv = put_data (us_stream ss) (d\<lparr>da_tx := tx\<rparr>) sv;
               if \<not> ok then drop_data cx (us_stream ss) True sv x
               else do {
                 k \<leftarrow> map_of (sv_conns sv) c;
                 let (ds, po) = pre_open_take (k_preopen k) (cx_now cx) sid;
                 Some (fold (\<lambda>d (sv, x). udp_deliver cx c d sv x) ds (put_conn c (k\<lparr>k_preopen := po\<rparr>) sv, x)) } }))"

partial_function (option) srv_udp_inbound :: "'x srv_env \<Rightarrow> conn_id \<Rightarrow> server \<Rightarrow> 'x \<Rightarrow> (server \<times> 'x) option" where
  "srv_udp_inbound cx c sv x =
     (case cx_datagram_recv cx c MAX_DGRAM x of
        (None, x) \<Rightarrow> Some (sv, x)
      | (Some bs, x) \<Rightarrow> (case udp_deliver cx c (take MAX_DGRAM bs) sv x of (sv, x) \<Rightarrow> srv_udp_inbound cx c sv x))"

definition udp_reply ::
  "'x srv_env \<Rightarrow> udp_socket_id \<Rightarrow> socket_addr \<Rightarrow> bytes \<Rightarrow> server \<Rightarrow> 'x \<Rightarrow> (server \<times> 'x) option" where
  "udp_reply cx sock peer data sv x =
     (case map_of (sv_udp_socks sv) sock of
        None \<Rightarrow> Some (sv, x)
      | Some (c, sid) \<Rightarrow> do {
          (k, ss) \<leftarrow> get_session c sid sv;
          (case us_phase ss of
             Live sk target idle active \<Rightarrow>
               if peer \<noteq> target then Some (sv, x)
               else
                 (case send_packet (cx_datagram_mss cx c) (cx_datagram_send cx c) x (k_mss k) sid (us_packet_id ss) data (k_counters k) of
                    (out, x, mss, n) \<Rightarrow>
                      let ss = (if 0 < so_frags_ok out + so_failed out then ss\<lparr>us_packet_id := us_packet_id ss + 1\<rparr> else ss);
                          ss = (if 0 < so_frags_ok out then ss\<lparr>us_phase := Live sk target idle (cx_now cx)\<rparr> else ss)
                      in Some (put_session c (k\<lparr>k_mss := mss, k_counters := n\<rparr>) sid ss sv, x))
           | _ \<Rightarrow> None) })"

definition udp_idle :: "'x srv_env \<Rightarrow> conn_id \<Rightarrow> u32 \<Rightarrow> server \<Rightarrow> 'x \<Rightarrow> (server \<times> 'x) option" where
  "udp_idle cx c sid sv x = do {
     (k, ss) \<leftarrow> get_session c sid sv;
     (case us_phase ss of
        Live sock target idle active \<Rightarrow>
          let due = time_add active (us_idle_len ss) in
          if cx_now cx < due then
            (case srv_timer cx (time_sub due (cx_now cx)) (TmUdpIdle c sid) sv x of
               (t, sv, x) \<Rightarrow> Some (put_session c k sid (ss\<lparr>us_phase := Live sock target t active\<rparr>) sv, x))
          else drop_data cx (us_stream ss) True sv x
      | _ \<Rightarrow> None) }"

section \<open>Connections and their streams\<close>

definition on_new_conn :: "'x srv_env \<Rightarrow> conn_id \<Rightarrow> conn_proto \<Rightarrow> server \<Rightarrow> 'x \<Rightarrow> server \<times> 'x" where
  "on_new_conn cx c proto sv x =
     (let raw = (proto = ProtoRaw);
          (timer, sv, x) = (if raw then (case srv_timer cx (scf_auth_deadline (sv_cfg sv)) (TmConn c) sv x of
                                           (t, sv, x) \<Rightarrow> (Some t, sv, x))
                            else (None, sv, x));
          sv = put_conn c \<lparr>k_proto = proto, k_ctrl = None, k_timer = timer, k_held = 0, k_closing = False, k_udp = [],
                 k_preopen = pre_open_new, k_mss = mss_cache_new, k_counters = counters_default\<rparr> sv;
          (sv, x) = (if raw then (sv\<lparr>sv_active := Some c\<rparr>, x) else (sv, gw_call cx (GwNewConn c) sv x))
      in if sv_shutting_down sv then srv_close cx c sv x else (sv, x))"

definition on_conn_closed :: "'x srv_env \<Rightarrow> conn_id \<Rightarrow> server \<Rightarrow> 'x \<Rightarrow> (server \<times> 'x) option" where
  "on_conn_closed cx c sv x =
     (if map_of (sv_conns sv) c = None then Some (sv, x)
      else do {
        (sv, x) \<leftarrow> drop_all cx (map fst (filter (\<lambda>(s, d). da_conn d = c) (sv_data sv))) sv x;
        k \<leftarrow> map_of (sv_conns sv) c;
        let sv = sv\<lparr>sv_conns := AList.delete c (sv_conns sv)\<rparr>;
        let x = (if k_proto k = ProtoRaw then x else gw_call cx (GwConnClosed c) sv x);
        let (sv, x) = (case k_timer k of Some t \<Rightarrow> srv_cancel cx t sv x | None \<Rightarrow> (sv, x));
        let sv = (if sv_active sv = Some c then sv\<lparr>sv_active := None\<rparr> else sv);
        Some (sv, if sv_shutting_down sv \<and> sv_conns sv = [] then cx_do cx (CxRequestExit 0) x else x) })"

definition on_new_stream :: "'x srv_env \<Rightarrow> conn_id \<Rightarrow> stream_id \<Rightarrow> stream_info \<Rightarrow> server \<Rightarrow> 'x \<Rightarrow> server \<times> 'x" where
  "on_new_stream cx c s info sv x =
     (let reset = (sv, cx_do cx (CxStreamReset s) x) in
      case map_of (sv_conns sv) c of
        None \<Rightarrow> reset
      | Some k \<Rightarrow>
          if k_closing k \<or> k_proto k \<noteq> ProtoRaw then reset
          else if si_kind info = Uni then reset
          else if si_quic_id info = 0 \<and> k_ctrl k = None then
            (put_conn c (k\<lparr>k_held := k_held k + 1,
               k_ctrl := Some \<lparr>ct_s = s, ct_st = Authing, ct_rx = [], ct_tx = [], ct_fin = False\<rparr>\<rparr>) sv, x)
          else if \<not> conn_authed k \<or> STREAM_BUDGET \<le> k_held k then reset
          else
            (case srv_timer cx (scf_request_deadline (sv_cfg sv)) (TmRequest s) (put_conn c (k\<lparr>k_held := k_held k + 1\<rparr>) sv) x of
               (t, sv, x) \<Rightarrow> (put_data s \<lparr>da_conn = c, da_phase = Request t, da_rx = [], da_fin = False, da_tx = []\<rparr> sv, x)))"

text \<open>The loop of \<open>ctrl_readable\<close>: the bytes of the request so far, and whether the client is who it says.\<close>

datatype auth_read = AuthWait | AuthReset | AuthDone bool

partial_function (option) auth_loop ::
  "'x srv_env \<Rightarrow> bytes \<Rightarrow> stream_id \<Rightarrow> bytes \<Rightarrow> 'x \<Rightarrow> (auth_read \<times> bytes \<times> 'x) option" where
  "auth_loop cx token s rx x =
     (if REQ_BUF < length rx then None
      else
        (case app_recv cx s rx (REQ_BUF - length rx) x of
           (RecvBlocked, rx, x) \<Rightarrow> Some (AuthWait, rx, x)
         | (RecvFailed, rx, x) \<Rightarrow> Some (AuthReset, rx, x)
         | (RecvData n fin, rx, x) \<Rightarrow>
             (case auth_req_decode rx of
                Ok (r, used) \<Rightarrow>
                  Some (AuthDone (used \<le> MAX_FRAME \<and> arq_auth_token r = token), rx, x)
              | Err e \<Rightarrow>
                  if e = DecShort \<and> \<not> fin \<and> length rx < MAX_FRAME then
                    (if n = 0 then Some (AuthWait, rx, x) else auth_loop cx token s rx x)
                  else Some (AuthDone False, rx, x))))"

definition auth_response :: "bool \<Rightarrow> bool \<Rightarrow> bytes option" where
  "auth_response ok udp_enabled =
     encoded (auth_resp_encode
       \<lparr>ars_status = (if ok then STATUS_OK else STATUS_ERROR), ars_error_code = (if ok then 0 else 1), ars_server_id = SERVER_ID,
        ars_features = (if ok \<and> udp_enabled then FEAT_UDP_RELAY else 0)\<rparr> (replicate MAX_FRAME 0))"

text \<open>Lines 472 to 511: the answer, and what follows from it.\<close>

definition auth_decided ::
  "'x srv_env \<Rightarrow> conn_id \<Rightarrow> srv_conn \<Rightarrow> srv_ctrl \<Rightarrow> bool \<Rightarrow> server \<Rightarrow> 'x \<Rightarrow> (bool \<times> server \<times> 'x) option" where
  "auth_decided cx c k t ok sv x = do {
     let sv = sv\<lparr>sv_auth_attempts := sv_auth_attempts sv + 1\<rparr>;
     tx \<leftarrow> auth_response ok (scf_udp_enabled (sv_cfg sv));
     let (flushed, tx, x) = flush cx (ct_s t) tx (\<not> ok) x;
     let t = t\<lparr>ct_rx := [], ct_tx := tx, ct_fin := \<not> ok, ct_st := (if ok then Settled else Refused)\<rparr>;
     let sv = put_conn c (k\<lparr>k_ctrl := Some t, k_timer := None\<rparr>) sv;
     let (sv, x) = (case k_timer k of Some tm \<Rightarrow> srv_cancel cx tm sv x | None \<Rightarrow> (sv, x));
     let (sv, x) = (if ok then (sv, cx_do cx (CxMarkConnAuthed c) x)
                    else (case srv_timer cx REFUSED_CLOSE (TmConn c) sv x of
                            (tm, sv, x) \<Rightarrow> (put_conn c (k\<lparr>k_ctrl := Some t, k_timer := Some tm\<rparr>) sv, x)));
     Some (flushed, sv, x) }"

partial_function (option) srv_ctrl_readable :: "'x srv_env \<Rightarrow> conn_id \<Rightarrow> server \<Rightarrow> 'x \<Rightarrow> (server \<times> 'x) option" where
  "srv_ctrl_readable cx c sv x =
     Option.bind (map_of (sv_conns sv) c) (\<lambda>k.
     Option.bind (k_ctrl k) (\<lambda>t.
     if ct_st t \<noteq> Authing then
       Option.bind (drain cx (ct_s t) x) (\<lambda>(ok, x). Some (if ok then (sv, x) else srv_close cx c sv x))
     else
       Option.bind (auth_loop cx (sv_token sv) (ct_s t) (ct_rx t) x) (\<lambda>(r, rx, x).
       let k = k\<lparr>k_ctrl := Some (t\<lparr>ct_rx := rx\<rparr>)\<rparr>; sv = put_conn c k sv in
       (case r of
          AuthWait \<Rightarrow> Some (sv, x)
        | AuthReset \<Rightarrow> Some (srv_close cx c sv x)
        | AuthDone ok \<Rightarrow>
            Option.bind (auth_decided cx c k t ok sv x) (\<lambda>(flushed, sv, x).
            if \<not> flushed then Some (srv_close cx c sv x) else srv_ctrl_readable cx c sv x)))))"

text \<open>One read of \<open>data_readable\<close> into the buffer of a stream in its phase; \<open>None\<close> where the capacity would be negative.\<close>

definition data_recv :: "'x srv_env \<Rightarrow> stream_id \<Rightarrow> srv_data \<Rightarrow> 'x \<Rightarrow> (recv \<times> bytes \<times> 'x) option" where
  "data_recv cx s d x =
     (case da_phase d of
        Request _ \<Rightarrow> if REQ_BUF < length (da_rx d) then None else Some (app_recv cx s (da_rx d) (REQ_BUF - length (da_rx d)) x)
      | Udp _ \<Rightarrow> Some (app_recv cx s [] CHUNK x)
      | _ \<Rightarrow>
          if da_fin d then Some (app_recv cx s (da_rx d) 0 x)
          else if RELAY_BUF < length (da_rx d) then None
          else Some (app_recv cx s (da_rx d) (min CHUNK (RELAY_BUF - length (da_rx d))) x))"

partial_function (option) data_readable :: "'x srv_env \<Rightarrow> stream_id \<Rightarrow> server \<Rightarrow> 'x \<Rightarrow> (server \<times> 'x) option" where
  "data_readable cx s sv x =
     (case map_of (sv_data sv) s of
        None \<Rightarrow> Some (sv, x)
      | Some d \<Rightarrow>
          if da_phase d = Retiring then
            Option.bind (drain cx s x) (\<lambda>(ok, x). if ok then Some (sv, x) else drop_data cx s False sv x)
          else
            Option.bind (data_recv cx s d x) (\<lambda>(r, rx, x).
            (case r of
               RecvBlocked \<Rightarrow> Some (put_data s (d\<lparr>da_rx := rx\<rparr>) sv, x)
             | RecvFailed \<Rightarrow> drop_data cx s False (put_data s (d\<lparr>da_rx := rx\<rparr>) sv) x
             | RecvData n fin \<Rightarrow>
                 let d = d\<lparr>da_rx := rx, da_fin := (da_fin d \<or> fin)\<rparr>; sv = put_data s d sv in
                 (case da_phase d of
                    Request _ \<Rightarrow>
                      (case parse_request (da_rx d) (da_fin d) of
                         ParsedWait \<Rightarrow> if n = 0 \<or> fin then Some (sv, x) else data_readable cx s sv x
                       | ParsedBad \<Rightarrow> drop_data cx s True sv x
                       | ParsedUndialable used \<Rightarrow>
                           Option.bind (tcp_resp STATUS_ERROR TcpDnsFailed) (\<lambda>resp.
                           Option.bind (respond_error cx s resp (put_data s (d\<lparr>da_rx := drop used (da_rx d)\<rparr>) sv) x)
                             (\<lambda>(sv, x). data_readable cx s sv x))
                       | ParsedDial used t \<Rightarrow>
                           Option.bind (srv_dial cx s t (put_data s (d\<lparr>da_rx := drop used (da_rx d)\<rparr>) sv) x)
                             (\<lambda>(sv, x). data_readable cx s sv x)
                       | ParsedUdpOpen sid t idle \<Rightarrow>
                           if da_fin d then drop_data cx s True sv x
                           else Option.bind (udp_open cx s sid t idle sv x) (\<lambda>(sv, x). data_readable cx s sv x))
                  | Udp _ \<Rightarrow>
                      if fin then drop_data cx s True sv x
                      else if n = 0 then Some (sv, x) else data_readable cx s sv x
                  | _ \<Rightarrow> if n = 0 \<or> fin then Some (sv, x) else data_readable cx s sv x))))"

definition on_writable :: "'x srv_env \<Rightarrow> stream_id \<Rightarrow> server \<Rightarrow> 'x \<Rightarrow> (server \<times> 'x) option" where
  "on_writable cx s sv x =
     (case map_of (sv_data sv) s of
        Some d \<Rightarrow>
          (case da_phase d of
             Responding _ \<Rightarrow> send_ok cx s sv x
           | Retiring \<Rightarrow>
               (case flush cx s (da_tx d) True x of
                  (ok, tx, x) \<Rightarrow> let sv = put_data s (d\<lparr>da_tx := tx\<rparr>) sv in if ok then Some (sv, x) else drop_data cx s True sv x)
           | Udp _ \<Rightarrow>
               (case flush cx s (da_tx d) False x of
                  (ok, tx, x) \<Rightarrow> let sv = put_data s (d\<lparr>da_tx := tx\<rparr>) sv in if ok then Some (sv, x) else drop_data cx s True sv x)
           | _ \<Rightarrow> Some (sv, x))
      | None \<Rightarrow>
          (case ctrl_conn s sv of
             None \<Rightarrow> Some (sv, x)
           | Some c \<Rightarrow> do {
               k \<leftarrow> map_of (sv_conns sv) c;
               t \<leftarrow> k_ctrl k;
               let (ok, tx, x) = flush cx s (ct_tx t) (ct_fin t) x;
               let sv = put_conn c (k\<lparr>k_ctrl := Some (t\<lparr>ct_tx := tx\<rparr>)\<rparr>) sv;
               Some (if ok then (sv, x) else srv_close cx c sv x) }))"

section \<open>The callbacks, \<open>impl App for Server\<close>\<close>

definition srv_on_start :: "'x srv_env \<Rightarrow> server \<Rightarrow> 'x \<Rightarrow> server \<times> 'x" where
  "srv_on_start cx sv x =
     (case scf_metrics_interval (sv_cfg sv) of
        Some every \<Rightarrow> (case srv_timer cx every TmMetrics sv x of (_, sv, x) \<Rightarrow> (sv, x))
      | None \<Rightarrow> (sv, x))"

definition srv_transport_event :: "'x srv_env \<Rightarrow> event \<Rightarrow> server \<Rightarrow> 'x \<Rightarrow> (server \<times> 'x) option" where
  "srv_transport_event cx ev sv x =
     (case ev of
        NewConn c proto \<Rightarrow> Some (on_new_conn cx c proto sv x)
      | ConnClosed c _ \<Rightarrow> on_conn_closed cx c sv x
      | NewStream c s info \<Rightarrow> Some (on_new_stream cx c s info sv x)
      | StreamReadable s \<Rightarrow>
          if map_of (sv_data sv) s \<noteq> None then data_readable cx s sv x
          else (case ctrl_conn s sv of Some c \<Rightarrow> srv_ctrl_readable cx c sv x | None \<Rightarrow> Some (sv, x))
      | StreamWritable s \<Rightarrow> on_writable cx s sv x
      | StreamClosed s \<Rightarrow>
          if map_of (sv_data sv) s \<noteq> None then drop_data cx s True sv x
          else (case ctrl_conn s sv of Some c \<Rightarrow> Some (srv_close cx c sv x) | None \<Rightarrow> Some (sv, x))
      | ConnEstablished _ \<Rightarrow> Some (sv, x)
      | MpReady _ \<Rightarrow> Some (sv, x)
      | PathRemoved _ _ \<Rightarrow> Some (sv, x)
      | StreamPeerReset _ _ \<Rightarrow> Some (sv, x)
      | StreamStopSending _ _ \<Rightarrow> Some (sv, x)
      | StreamCloseStats _ _ \<Rightarrow> Some (sv, x)
      | DatagramReadable c \<Rightarrow> srv_udp_inbound cx c sv x
      | _ \<Rightarrow> Some (sv, gw_call cx (GwH3Event ev) sv x))"

definition srv_dial_result ::
  "'x srv_env \<Rightarrow> dial_op_id \<Rightarrow> (tcp_id, dial_error) result \<Rightarrow> server \<Rightarrow> 'x \<Rightarrow> (server \<times> 'x) option" where
  "srv_dial_result cx op r sv x =
     (case (if sv_gw sv then srv_gw cx (GwDialResult op r) x else (False, x)) of
        (True, x) \<Rightarrow> Some (sv, x)
      | (False, x) \<Rightarrow>
          (case map_of (sv_dials sv) op of
             None \<Rightarrow> Some (sv, case r of Ok tcp \<Rightarrow> cx_do cx (CxTcpAbort tcp) x | Err _ \<Rightarrow> x)
           | Some s \<Rightarrow>
               let sv = sv\<lparr>sv_dials := AList.delete op (sv_dials sv)\<rparr> in
               (case r of
                  Ok tcp \<Rightarrow> do {
                    d \<leftarrow> map_of (sv_data sv) s;
                    resp \<leftarrow> tcp_resp STATUS_OK TcpOk;
                    send_ok cx s (put_data s (d\<lparr>da_phase := Responding tcp, da_tx := resp\<rparr>) sv) x }
                | Err e \<Rightarrow> Option.bind (tcp_resp STATUS_ERROR (map_dial_error e)) (\<lambda>resp. respond_error cx s resp sv x))))"

definition srv_on_timer :: "'x srv_env \<Rightarrow> timer_id \<Rightarrow> server \<Rightarrow> 'x \<Rightarrow> (server \<times> 'x) option" where
  "srv_on_timer cx t sv x =
     (case map_of (sv_timers sv) t of
        None \<Rightarrow> Some (sv, gw_call cx (GwTimer t) sv x)
      | Some tm \<Rightarrow>
          let sv = sv\<lparr>sv_timers := AList.delete t (sv_timers sv)\<rparr> in
          (case tm of
             TmConn c \<Rightarrow>
               (case map_of (sv_conns sv) c of
                  None \<Rightarrow> Some (sv, x)
                | Some k \<Rightarrow> Some (srv_close cx c (put_conn c (k\<lparr>k_timer := None\<rparr>) sv) x))
           | TmRequest s \<Rightarrow> drop_data cx s True sv x
           | TmMetrics \<Rightarrow> Some (srv_on_start cx sv x)
           | TmUdpIdle c sid \<Rightarrow> udp_idle cx c sid sv x))"

fun close_all :: "'x srv_env \<Rightarrow> conn_id list \<Rightarrow> server \<Rightarrow> 'x \<Rightarrow> server \<times> 'x" where
  "close_all cx [] sv x = (sv, x)"
| "close_all cx (c # cs) sv x = (case srv_close cx c sv x of (sv, x) \<Rightarrow> close_all cx cs sv x)"

definition srv_on_shutdown :: "'x srv_env \<Rightarrow> server \<Rightarrow> 'x \<Rightarrow> server \<times> 'x" where
  "srv_on_shutdown cx sv x =
     (let sv = sv\<lparr>sv_shutting_down := True\<rparr>; x = gw_call cx GwShutdown sv x in
      if sv_conns sv = [] then (sv, cx_do cx (CxRequestExit 0) x)
      else close_all cx (map fst (sv_conns sv)) sv x)"

definition server_event :: "'x srv_env \<Rightarrow> app_event \<Rightarrow> server \<Rightarrow> 'x \<Rightarrow> (server \<times> 'x) option" where
  "server_event cx ev sv x =
     (case ev of
        AppStart \<Rightarrow> Some (srv_on_start cx sv x)
      | AppTransport e \<Rightarrow> srv_transport_event cx e sv x
      | AppAccepted _ tcp _ \<Rightarrow> Some (sv, cx_do cx (CxTcpClose tcp) x)
      | AppTcpData tcp \<Rightarrow> Some (sv, gw_call cx (GwTcpData tcp) sv x)
      | AppTcpEnd tcp e \<Rightarrow> Some (sv, gw_call cx (GwTcpEnd tcp e) sv x)
      | AppTcpWritable tcp \<Rightarrow> Some (sv, gw_call cx (GwTcpWritable tcp) sv x)
      | AppDialResult op r \<Rightarrow> srv_dial_result cx op r sv x
      | AppResolveResult op r \<Rightarrow> udp_resolved cx op r sv x
      | AppUdpSocket op r \<Rightarrow> udp_socket cx op r sv x
      | AppUdpRx sock peer data \<Rightarrow> udp_reply cx sock peer data sv x
      | AppTimer t \<Rightarrow> srv_on_timer cx t sv x
      | AppShutdown \<Rightarrow> Some (srv_on_shutdown cx sv x))"

end
