(* ===== verification/Server_Inv.thy ===== *)
theory Server_Inv
  imports Server_App
begin

text \<open>
  The invariant of the server, and that ending and answering a stream keep it.

  The tables of a server are read through finite maps: connections \<open>C\<close>, data streams \<open>D\<close>, and the sessions of a connection
  \<open>sess C c sid\<close>. The invariant says how they mirror each other and what every pending dial, resolve, socket open, socket
  and timer points to.
\<close>

section \<open>The invariant\<close>

type_synonym conn_map = "conn_id \<Rightarrow> srv_conn option"
type_synonym data_map = "stream_id \<Rightarrow> srv_data option"

definition sess :: "conn_map \<Rightarrow> conn_id \<Rightarrow> u32 \<Rightarrow> srv_session option" where
  "sess C c sid = (case C c of None \<Rightarrow> None | Some k \<Rightarrow> map_of (k_udp k) sid)"

definition streams_of :: "data_map \<Rightarrow> conn_id \<Rightarrow> stream_id set" where
  "streams_of D c = {s. \<exists>d. D s = Some d \<and> da_conn d = c}"

definition buffer_ok :: "srv_data \<Rightarrow> bool" where
  "buffer_ok d \<longleftrightarrow> length (da_rx d) \<le> RELAY_BUF \<and> (\<forall>t. da_phase d = Request t \<longrightarrow> length (da_rx d) \<le> REQ_BUF)"

definition data_ok :: "conn_map \<Rightarrow> stream_id \<Rightarrow> srv_data \<Rightarrow> bool" where
  "data_ok C s d \<longleftrightarrow> buffer_ok d \<and> (\<exists>k. C (da_conn d) = Some k \<and> conn_authed k)
     \<and> (\<forall>sid. da_phase d = Udp sid \<longrightarrow> (\<exists>ss. sess C (da_conn d) sid = Some ss \<and> us_stream ss = s))"

definition session_ok :: "data_map \<Rightarrow> conn_id \<Rightarrow> u32 \<Rightarrow> srv_session \<Rightarrow> bool" where
  "session_ok D c sid ss \<longleftrightarrow> us_idle_len ss div 1000000 \<le> unat varint_MAX \<and> defrag_inv (us_defrag ss)
     \<and> (\<exists>d. D (us_stream ss) = Some d \<and> da_conn d = c \<and> da_phase d = Udp sid)"

definition ctrl_rx_ok :: "srv_conn \<Rightarrow> bool" where
  "ctrl_rx_ok k \<longleftrightarrow> (\<forall>t. k_ctrl k = Some t \<longrightarrow> length (ct_rx t) \<le> REQ_BUF)"

definition conn_ok :: "data_map \<Rightarrow> conn_id \<Rightarrow> srv_conn \<Rightarrow> bool" where
  "conn_ok D c k \<longleftrightarrow> k_held k = card (streams_of D c) + (if k_ctrl k = None then 0 else 1)
     \<and> k_held k \<le> STREAM_BUDGET \<and> length (k_udp k) \<le> MAX_SESSIONS_PER_CONN \<and> distinct (map fst (k_udp k))
     \<and> pre_open_inv (k_preopen k) \<and> ctrl_rx_ok k"

definition tables_ok :: "conn_map \<Rightarrow> data_map \<Rightarrow> bool" where
  "tables_ok C D \<longleftrightarrow> finite (dom D)
     \<and> (\<forall>s d. D s = Some d \<longrightarrow> data_ok C s d)
     \<and> (\<forall>c k. C c = Some k \<longrightarrow> conn_ok D c k)
     \<and> (\<forall>c sid ss. sess C c sid = Some ss \<longrightarrow> session_ok D c sid ss)"

fun timer_ok :: "conn_map \<Rightarrow> data_map \<Rightarrow> timer_id \<Rightarrow> srv_tm \<Rightarrow> bool" where
  "timer_ok C D t (TmRequest s) = (\<exists>d. D s = Some d \<and> da_phase d = Request t)"
| "timer_ok C D t (TmUdpIdle c sid) = (\<exists>ss sock a tm. sess C c sid = Some ss \<and> us_phase ss = Live sock a t tm)"
| "timer_ok C D t _ = True"

definition dials_ok :: "data_map \<Rightarrow> (dial_op_id \<Rightarrow> stream_id option) \<Rightarrow> bool" where
  "dials_ok D di \<longleftrightarrow> (\<forall>op s. di op = Some s \<longrightarrow> (\<exists>d. D s = Some d \<and> da_phase d = Dialling op))"

definition timers_ok :: "conn_map \<Rightarrow> data_map \<Rightarrow> (timer_id \<Rightarrow> srv_tm option) \<Rightarrow> bool" where
  "timers_ok C D tm \<longleftrightarrow> (\<forall>t m. tm t = Some m \<longrightarrow> timer_ok C D t m)"

definition resolves_ok :: "conn_map \<Rightarrow> (dial_op_id \<Rightarrow> (conn_id \<times> u32) option) \<Rightarrow> bool" where
  "resolves_ok C re \<longleftrightarrow> (\<forall>op c sid. re op = Some (c, sid) \<longrightarrow> (\<exists>ss. sess C c sid = Some ss \<and> us_phase ss = Resolving op))"

definition opens_ok :: "conn_map \<Rightarrow> (socket_op_id \<Rightarrow> (conn_id \<times> u32) option) \<Rightarrow> bool" where
  "opens_ok C so \<longleftrightarrow> (\<forall>op c sid. so op = Some (c, sid) \<longrightarrow> (\<exists>ss a. sess C c sid = Some ss \<and> us_phase ss = Opening op a))"

definition socks_ok :: "conn_map \<Rightarrow> (udp_socket_id \<Rightarrow> (conn_id \<times> u32) option) \<Rightarrow> bool" where
  "socks_ok C sks \<longleftrightarrow>
     (\<forall>sk c sid. sks sk = Some (c, sid) \<longrightarrow> (\<exists>ss a t tm. sess C c sid = Some ss \<and> us_phase ss = Live sk a t tm))"

definition srv_inv :: "server \<Rightarrow> bool" where
  "srv_inv sv \<longleftrightarrow> distinct (map fst (sv_conns sv))
     \<and> tables_ok (map_of (sv_conns sv)) (map_of (sv_data sv))
     \<and> dials_ok (map_of (sv_data sv)) (map_of (sv_dials sv))
     \<and> resolves_ok (map_of (sv_conns sv)) (map_of (sv_resolves sv))
     \<and> opens_ok (map_of (sv_conns sv)) (map_of (sv_socket_opens sv))
     \<and> socks_ok (map_of (sv_conns sv)) (map_of (sv_udp_socks sv))
     \<and> timers_ok (map_of (sv_conns sv)) (map_of (sv_data sv)) (map_of (sv_timers sv))"

lemmas refs_defs = dials_ok_def resolves_ok_def opens_ok_def socks_ok_def timers_ok_def

lemma srv_inv_new [simp]: "srv_inv (server_new cfg)"
  by (simp add: srv_inv_def server_new_def tables_ok_def refs_defs sess_def)

section \<open>Maps\<close>

lemma sess_upd [simp]: "sess (C(c \<mapsto> k)) c' sid = (if c' = c then map_of (k_udp k) sid else sess C c' sid)"
  by (simp add: sess_def)

lemma sess_same: "C c = Some k \<Longrightarrow> k_udp k' = k_udp k \<Longrightarrow> sess (C(c \<mapsto> k')) = sess C"
  by (intro ext) (simp add: sess_def)

lemma streams_of_same: "D s = Some d \<Longrightarrow> da_conn d' = da_conn d \<Longrightarrow> streams_of (D(s \<mapsto> d')) c = streams_of D c"
  by (auto simp: streams_of_def)

lemma streams_of_del: "D s = Some d \<Longrightarrow> streams_of (D(s := None)) c = (if da_conn d = c then streams_of D c - {s} else streams_of D c)"
  by (auto simp: streams_of_def)

lemma streams_of_new: "D s = None \<Longrightarrow> streams_of (D(s \<mapsto> d)) c = (if da_conn d = c then insert s (streams_of D c) else streams_of D c)"
  by (auto simp: streams_of_def)

lemma finite_streams: "finite (dom D) \<Longrightarrow> finite (streams_of D c)"
  by (rule finite_subset [of _ "dom D"]) (auto simp: streams_of_def)

lemma tables_dataD: "tables_ok C D \<Longrightarrow> D s = Some d \<Longrightarrow> data_ok C s d"
  by (simp add: tables_ok_def)

lemma tables_connD: "tables_ok C D \<Longrightarrow> C c = Some k \<Longrightarrow> conn_ok D c k"
  by (simp add: tables_ok_def)

lemma tables_sessD: "tables_ok C D \<Longrightarrow> C c = Some k \<Longrightarrow> map_of (k_udp k) sid = Some ss \<Longrightarrow> session_ok D c sid ss"
  by (simp add: tables_ok_def sess_def)

lemma conn_ok_cong: "streams_of D' c = streams_of D c \<Longrightarrow> conn_ok D' c k = conn_ok D c k"
  by (simp add: conn_ok_def)

section \<open>How a change of one connection or stream moves the invariant\<close>

lemma tables_conn:
  assumes "tables_ok C D" and "C c = Some k" and "k_held k' = k_held k" and "(k_ctrl k' = None) = (k_ctrl k = None)"
    and "conn_authed k \<Longrightarrow> conn_authed k'" and "pre_open_inv (k_preopen k')" and "ctrl_rx_ok k'"
    and "length (k_udp k') \<le> MAX_SESSIONS_PER_CONN" and "distinct (map fst (k_udp k'))"
    and "\<And>sid ss'. map_of (k_udp k') sid = Some ss' \<Longrightarrow> session_ok D c sid ss'"
    and "\<And>sid ss. map_of (k_udp k) sid = Some ss \<Longrightarrow> \<exists>ss'. map_of (k_udp k') sid = Some ss' \<and> us_stream ss' = us_stream ss"
  shows "tables_ok (C(c \<mapsto> k')) D"
proof -
  have "data_ok (C(c \<mapsto> k')) s d" if "D s = Some d" for s d
  proof -
    have o: "data_ok C s d" using assms(1) that by (simp add: tables_ok_def)
    have "\<exists>ss. sess (C(c \<mapsto> k')) (da_conn d) sid = Some ss \<and> us_stream ss = s" if p: "da_phase d = Udp sid" for sid
    proof -
      obtain ss where ss: "sess C (da_conn d) sid = Some ss" "us_stream ss = s" using o p by (auto simp: data_ok_def)
      show ?thesis
      proof (cases "da_conn d = c")
        case True
        then have "map_of (k_udp k) sid = Some ss" using ss(1) assms(2) by (simp add: sess_def)
        from assms(11) [OF this] show ?thesis using True ss(2) by simp
      qed (use ss in simp)
    qed
    then show ?thesis using o assms(2,5) by (auto simp: data_ok_def)
  qed
  moreover have "conn_ok D c' k''" if "(C(c \<mapsto> k')) c' = Some k''" for c' k''
  proof (cases "c' = c")
    case True
    have "conn_ok D c k" using assms(1,2) by (simp add: tables_ok_def)
    then show ?thesis using True that assms(3,4,6-9) by (simp add: conn_ok_def)
  next
    case False
    then show ?thesis using assms(1) that by (simp add: tables_ok_def)
  qed
  moreover have "session_ok D c' sid ss" if "sess (C(c \<mapsto> k')) c' sid = Some ss" for c' sid ss
    using assms(1,10) that by (cases "c' = c") (simp_all add: tables_ok_def)
  moreover have "finite (dom D)" using assms(1) by (simp add: tables_ok_def)
  ultimately show ?thesis by (simp add: tables_ok_def)
qed

text \<open>A connection with the same sessions, budget and authentication.\<close>

definition conn_like :: "srv_conn \<Rightarrow> srv_conn \<Rightarrow> bool" where
  "conn_like k k' \<longleftrightarrow> k_held k' = k_held k \<and> k_udp k' = k_udp k \<and> (k_ctrl k' = None) = (k_ctrl k = None)
     \<and> (conn_authed k \<longrightarrow> conn_authed k') \<and> (pre_open_inv (k_preopen k) \<longrightarrow> pre_open_inv (k_preopen k')) \<and> (ctrl_rx_ok k \<longrightarrow> ctrl_rx_ok k')"

lemma conn_likeD:
  assumes "conn_like k k'"
  shows "k_held k' = k_held k" "k_udp k' = k_udp k" "(k_ctrl k' = None) = (k_ctrl k = None)" "conn_authed k \<Longrightarrow> conn_authed k'"
    "pre_open_inv (k_preopen k) \<Longrightarrow> pre_open_inv (k_preopen k')" "ctrl_rx_ok k \<Longrightarrow> ctrl_rx_ok k'"
  using assms unfolding conn_like_def by blast+

lemma conn_like_refl [simp]: "conn_like k k"
  by (simp add: conn_like_def)

lemma conn_authed_simps [simp]:
  "conn_authed (k\<lparr>k_udp := u\<rparr>) = conn_authed k" "conn_authed (k\<lparr>k_held := n\<rparr>) = conn_authed k"
  "conn_authed (k\<lparr>k_preopen := po\<rparr>) = conn_authed k" "conn_authed (k\<lparr>k_counters := cs\<rparr>) = conn_authed k"
  "conn_authed (k\<lparr>k_mss := m\<rparr>) = conn_authed k" "conn_authed (k\<lparr>k_timer := t\<rparr>) = conn_authed k"
  "conn_authed (k\<lparr>k_closing := b\<rparr>) = conn_authed k"
  by (simp_all add: conn_authed_def)

lemma ctrl_rx_ok_simps [simp]:
  "ctrl_rx_ok (k\<lparr>k_udp := u\<rparr>) = ctrl_rx_ok k" "ctrl_rx_ok (k\<lparr>k_held := n\<rparr>) = ctrl_rx_ok k"
  "ctrl_rx_ok (k\<lparr>k_preopen := po\<rparr>) = ctrl_rx_ok k" "ctrl_rx_ok (k\<lparr>k_counters := cs\<rparr>) = ctrl_rx_ok k"
  "ctrl_rx_ok (k\<lparr>k_mss := m\<rparr>) = ctrl_rx_ok k" "ctrl_rx_ok (k\<lparr>k_timer := t\<rparr>) = ctrl_rx_ok k"
  "ctrl_rx_ok (k\<lparr>k_closing := b\<rparr>) = ctrl_rx_ok k"
  by (simp_all add: ctrl_rx_ok_def)

lemma tables_conn_like:
  assumes "tables_ok C D" and "C c = Some k" and "conn_like k k'"
  shows "tables_ok (C(c \<mapsto> k')) D"
proof -
  have o: "conn_ok D c k" using assms(1,2) by (simp add: tables_ok_def)
  have s: "session_ok D c sid ss" if "map_of (k_udp k) sid = Some ss" for sid ss
    using assms(1,2) that by (simp add: tables_ok_def sess_def)
  note l = conn_likeD [OF assms(3)]
  have b: "pre_open_inv (k_preopen k')" "ctrl_rx_ok k'" "length (k_udp k') \<le> MAX_SESSIONS_PER_CONN" "distinct (map fst (k_udp k'))"
    using o l(2,5,6) by (simp_all add: conn_ok_def)
  show ?thesis by (rule tables_conn [OF assms(1,2) l(1,3,4) b]) (use s l(2) in simp_all)
qed

lemma srv_inv_conn_like:
  assumes "srv_inv sv" and "map_of (sv_conns sv) c = Some k" and "conn_like k k'"
  shows "srv_inv (put_conn c k' sv)"
proof -
  have e: "sess ((map_of (sv_conns sv))(c \<mapsto> k')) = sess (map_of (sv_conns sv))"
    using assms(2,3) by (intro sess_same) (auto simp: conn_like_def)
  have "timer_ok ((map_of (sv_conns sv))(c \<mapsto> k')) D t m = timer_ok (map_of (sv_conns sv)) D t m" for D t m
    using e by (cases m) simp_all
  then show ?thesis using assms(1) tables_conn_like [where C = "map_of (sv_conns sv)", OF _ assms(2,3)] distinct_update [of "sv_conns sv" c k']
    by (simp add: srv_inv_def refs_defs e del: sess_upd)
qed

lemma tables_session:
  assumes "tables_ok C D" and "C c = Some k" and "map_of (k_udp k) sid = Some ss" and "us_stream ss' = us_stream ss"
    and "us_idle_len ss' = us_idle_len ss" and "defrag_inv (us_defrag ss')" and "conn_like k k'"
  shows "tables_ok (C(c \<mapsto> k'\<lparr>k_udp := AList.update sid ss' (k_udp k)\<rparr>)) D"
proof -
  have o: "conn_ok D c k" using assms(1,2) by (simp add: tables_ok_def)
  have so: "session_ok D c sid ss" if "map_of (k_udp k) sid = Some ss" for sid ss
    using assms(1,2) that by (simp add: tables_ok_def sess_def)
  have n: "session_ok D c sid ss'" using so [OF assms(3)] assms(4-6) by (simp add: session_ok_def)
  have u: "map_of (AList.update sid ss' (k_udp k)) sid' = Some ss'' \<Longrightarrow> session_ok D c sid' ss''" for sid' ss''
    using so n by (simp split: if_splits)
  have v: "map_of (k_udp k) sid' = Some t \<Longrightarrow> \<exists>t'. map_of (AList.update sid ss' (k_udp k)) sid' = Some t' \<and> us_stream t' = us_stream t" for sid' t
    using assms(3,4) by (cases "sid' = sid") simp_all
  show ?thesis
  proof (rule tables_conn [OF assms(1,2)])
    show "length (k_udp (k'\<lparr>k_udp := AList.update sid ss' (k_udp k)\<rparr>)) \<le> MAX_SESSIONS_PER_CONN"
      using o assms(3) by (simp add: conn_ok_def length_update)
    show "distinct (map fst (k_udp (k'\<lparr>k_udp := AList.update sid ss' (k_udp k)\<rparr>)))"
      using o by (simp add: conn_ok_def distinct_update)
    show "session_ok D c sid' t" if "map_of (k_udp (k'\<lparr>k_udp := AList.update sid ss' (k_udp k)\<rparr>)) sid' = Some t" for sid' t
      by (rule u) (use that in simp)
    show "\<exists>t'. map_of (k_udp (k'\<lparr>k_udp := AList.update sid ss' (k_udp k)\<rparr>)) sid' = Some t' \<and> us_stream t' = us_stream t"
      if "map_of (k_udp k) sid' = Some t" for sid' t using v [OF that] by simp
    note l = conn_likeD [OF assms(7)]
    show "k_held (k'\<lparr>k_udp := AList.update sid ss' (k_udp k)\<rparr>) = k_held k" using l(1) by simp
    show "(k_ctrl (k'\<lparr>k_udp := AList.update sid ss' (k_udp k)\<rparr>) = None) = (k_ctrl k = None)" using l(3) by simp
    show "conn_authed (k'\<lparr>k_udp := AList.update sid ss' (k_udp k)\<rparr>)" if "conn_authed k" using l(4) [OF that] by simp
    show "pre_open_inv (k_preopen (k'\<lparr>k_udp := AList.update sid ss' (k_udp k)\<rparr>))" using l(5) o by (simp add: conn_ok_def)
    show "ctrl_rx_ok (k'\<lparr>k_udp := AList.update sid ss' (k_udp k)\<rparr>)" using l(6) o by (simp add: conn_ok_def)
  qed
qed

lemma tables_data:
  assumes "tables_ok C D" and "D s = Some d" and "da_conn d' = da_conn d" and "buffer_ok d'"
    and "\<And>sid. da_phase d' = Udp sid \<longleftrightarrow> da_phase d = Udp sid"
  shows "tables_ok C (D(s \<mapsto> d'))"
proof -
  have n: "data_ok C s d'"
  proof -
    have "data_ok C s d" by (rule tables_dataD [OF assms(1,2)])
    then show ?thesis unfolding data_ok_def assms(3,5) using assms(4) by blast
  qed
  have "data_ok C s' d''" if "(D(s \<mapsto> d')) s' = Some d''" for s' d''
    using that n tables_dataD [OF assms(1), of s' d''] by (cases "s' = s") simp_all
  moreover have "conn_ok (D(s \<mapsto> d')) c k" if "C c = Some k" for c k
    using tables_connD [OF assms(1) that] by (simp only: conn_ok_cong [OF streams_of_same [where D = D, OF assms(2,3)]])
  moreover have "session_ok (D(s \<mapsto> d')) c sid ss" if "sess C c sid = Some ss" for c sid ss
  proof -
    have o: "session_ok D c sid ss" using assms(1) that by (simp add: tables_ok_def)
    then obtain e where e: "D (us_stream ss) = Some e" "da_conn e = c" "da_phase e = Udp sid" by (auto simp: session_ok_def)
    have "\<exists>e. (D(s \<mapsto> d')) (us_stream ss) = Some e \<and> da_conn e = c \<and> da_phase e = Udp sid"
      using e assms(2,3,5) by (cases "us_stream ss = s") simp_all
    then show ?thesis using o by (simp add: session_ok_def)
  qed
  moreover have "finite (dom (D(s \<mapsto> d')))" using assms(1) by (simp add: tables_ok_def)
  ultimately show ?thesis by (simp add: tables_ok_def)
qed

text \<open>A stream and its connection change together: the stream goes, is answered, or becomes a session.\<close>

definition stream_change :: "stream_id \<Rightarrow> srv_conn \<Rightarrow> srv_conn \<Rightarrow> srv_data option \<Rightarrow> bool" where
  "stream_change s k k' dopt \<longleftrightarrow>
     k_held k' + (if dopt = None then 1 else 0) = k_held k \<and> k_ctrl k' = k_ctrl k \<and> pre_open_inv (k_preopen k')
     \<and> length (k_udp k') \<le> MAX_SESSIONS_PER_CONN \<and> distinct (map fst (k_udp k'))
     \<and> (\<forall>sid ss. map_of (k_udp k') sid = Some ss \<longrightarrow>
          (if us_stream ss = s then us_idle_len ss div 1000000 \<le> unat varint_MAX \<and> defrag_inv (us_defrag ss)
             \<and> (\<exists>d'. dopt = Some d' \<and> da_phase d' = Udp sid)
           else map_of (k_udp k) sid = Some ss))
     \<and> (\<forall>sid ss. map_of (k_udp k) sid = Some ss \<longrightarrow> us_stream ss \<noteq> s \<longrightarrow> map_of (k_udp k') sid = Some ss)"

lemma stream_changeD:
  assumes "stream_change s k k' dopt"
  shows "k_held k' + (if dopt = None then 1 else 0) = k_held k" "k_ctrl k' = k_ctrl k" "pre_open_inv (k_preopen k')"
    "length (k_udp k') \<le> MAX_SESSIONS_PER_CONN" "distinct (map fst (k_udp k'))"
    "\<And>sid ss. map_of (k_udp k') sid = Some ss \<Longrightarrow> us_stream ss = s \<Longrightarrow>
       us_idle_len ss div 1000000 \<le> unat varint_MAX \<and> defrag_inv (us_defrag ss) \<and> (\<exists>d'. dopt = Some d' \<and> da_phase d' = Udp sid)"
    "\<And>sid ss. map_of (k_udp k') sid = Some ss \<Longrightarrow> us_stream ss \<noteq> s \<Longrightarrow> map_of (k_udp k) sid = Some ss"
    "\<And>sid ss. map_of (k_udp k) sid = Some ss \<Longrightarrow> us_stream ss \<noteq> s \<Longrightarrow> map_of (k_udp k') sid = Some ss"
  using assms unfolding stream_change_def by (metis | simp)+

lemma tables_change:
  assumes t: "tables_ok C D" and C: "C c = Some k" and D: "D s = Some d" and c: "da_conn d = c"
    and sc: "stream_change s k k' dopt"
    and d': "\<And>d'. dopt = Some d' \<Longrightarrow> da_conn d' = c \<and> buffer_ok d'
      \<and> (\<forall>sid. da_phase d' = Udp sid \<longrightarrow> (\<exists>ss. map_of (k_udp k') sid = Some ss \<and> us_stream ss = s))"
  shows "tables_ok (C(c \<mapsto> k')) (D(s := dopt))"
proof -
  note ch = stream_changeD [OF sc]
  have auth: "conn_authed k' = conn_authed k" using ch(2) by (simp add: conn_authed_def)
  have "conn_authed k" using tables_dataD [OF t D] C c by (auto simp: data_ok_def)
  with d' have "data_ok (C(c \<mapsto> k')) s d'" if "dopt = Some d'" for d' using that auth by (simp add: data_ok_def)
  moreover have "data_ok (C(c \<mapsto> k')) s' e" if "D s' = Some e" "s' \<noteq> s" for s' e
  proof -
    have o: "data_ok C s' e" by (rule tables_dataD [OF t that(1)])
    have "\<exists>ss. sess (C(c \<mapsto> k')) (da_conn e) sid = Some ss \<and> us_stream ss = s'" if "da_phase e = Udp sid" for sid
    proof -
      from o that obtain ss where ss: "sess C (da_conn e) sid = Some ss" "us_stream ss = s'" by (auto simp: data_ok_def)
      show ?thesis
      proof (cases "da_conn e = c")
        case True
        then have "map_of (k_udp k) sid = Some ss" using ss(1) C by (simp add: sess_def)
        from ch(8) [OF this] show ?thesis using True ss(2) \<open>s' \<noteq> s\<close> by simp
      qed (use ss in simp)
    qed
    moreover have "\<exists>k. (C(c \<mapsto> k')) (da_conn e) = Some k \<and> conn_authed k" using o C auth by (cases "da_conn e = c") (simp_all add: data_ok_def)
    ultimately show ?thesis using o by (simp add: data_ok_def)
  qed
  ultimately have da: "data_ok (C(c \<mapsto> k')) s' e" if "(D(s := dopt)) s' = Some e" for s' e
    using that by (cases "s' = s") simp_all
  have fin: "finite (streams_of D c)" using t finite_streams by (auto simp: tables_ok_def)
  have s_in: "s \<in> streams_of D c" using D c by (auto simp: streams_of_def)
  have co: "conn_ok (D(s := dopt)) c' k''" if "(C(c \<mapsto> k')) c' = Some k''" for c' k''
  proof (cases "c' = c")
    case True
    have o: "conn_ok D c k" by (rule tables_connD [OF t C])
    have "card (streams_of (D(s := dopt)) c) + (if dopt = None then 1 else 0) = card (streams_of D c)"
    proof (cases dopt)
      case None
      then show ?thesis using streams_of_del [of D, OF D] c fin s_in card_Suc_Diff1 [OF fin s_in] by simp
    next
      case (Some d')
      then show ?thesis using streams_of_same [of D, OF D] d' c by simp
    qed
    then have "k_held k' = card (streams_of (D(s := dopt)) c) + (if k_ctrl k' = None then 0 else 1)"
      using o ch(1,2) by (simp add: conn_ok_def split: if_splits)
    moreover have "k_held k' \<le> k_held k" using ch(1) by (simp split: if_splits)
    ultimately show ?thesis using True that o ch(2-5) by (simp add: conn_ok_def ctrl_rx_ok_def)
  next
    case False
    have e: "streams_of (D(s := dopt)) c' = streams_of D c'" using D c d' False by (cases dopt) (auto simp: streams_of_def)
    have "C c' = Some k''" using that False by simp
    from tables_connD [OF t this] show ?thesis by (simp only: conn_ok_cong [OF e])
  qed
  have so: "session_ok (D(s := dopt)) c' sid ss" if "sess (C(c \<mapsto> k')) c' sid = Some ss" for c' sid ss
  proof -
    consider "c' = c" "us_stream ss = s" | "c' = c" "us_stream ss \<noteq> s" | "c' \<noteq> c" by blast
    then show ?thesis
    proof cases
      case 1
      then have m: "map_of (k_udp k') sid = Some ss" using that by simp
      from ch(6) [OF m 1(2)] obtain d' where "dopt = Some d'" "da_phase d' = Udp sid"
        "us_idle_len ss div 1000000 \<le> unat varint_MAX" "defrag_inv (us_defrag ss)" by blast
      then show ?thesis using 1 assms(6) by (simp add: session_ok_def)
    next
      case 2
      then have "map_of (k_udp k) sid = Some ss" using that ch(7) by simp
      from tables_sessD [OF t C this] show ?thesis using 2 by (simp add: session_ok_def)
    next
      case 3
      then have o: "session_ok D c' sid ss" using that t by (simp add: tables_ok_def)
      then have "us_stream ss \<noteq> s" using D c 3 by (auto simp: session_ok_def)
      then show ?thesis using o by (simp add: session_ok_def)
    qed
  qed
  have "finite (dom (D(s := dopt)))" using t by (cases dopt) (simp_all add: tables_ok_def)
  with da co so show ?thesis by (simp add: tables_ok_def)
qed

text \<open>A session points to its own stream only.\<close>

lemma session_stream:
  assumes "tables_ok C D" and "C c = Some k" and "D s = Some d" and "map_of (k_udp k) sid = Some ss" and "us_stream ss = s"
  shows "da_phase d = Udp sid"
  using tables_sessD [OF assms(1,2,4)] assms(3,5) by (auto simp: session_ok_def)

lemma held_pos:
  assumes "tables_ok C D" and "D s = Some d" and "C (da_conn d) = Some k"
  shows "0 < k_held k"
proof -
  have "finite (streams_of D (da_conn d))" "s \<in> streams_of D (da_conn d)"
    using assms finite_streams by (auto simp: tables_ok_def streams_of_def)
  then have "0 < card (streams_of D (da_conn d))" by (auto simp: card_gt_0_iff)
  then show ?thesis using tables_connD [OF assms(1,3)] by (simp add: conn_ok_def)
qed

lemma drop_tables:
  assumes "tables_ok C D" and "D s = Some d" and "C (da_conn d) = Some k" and "\<And>sid. da_phase d \<noteq> Udp sid"
  shows "tables_ok (C(da_conn d \<mapsto> k\<lparr>k_held := k_held k - 1\<rparr>)) (D(s := None))"
proof (rule tables_change [OF assms(1,3,2) refl])
  have "us_stream ss \<noteq> s" if "map_of (k_udp k) sid = Some ss" for sid ss
    using session_stream [OF assms(1,3,2) that] assms(4) by blast
  then show "stream_change s k (k\<lparr>k_held := k_held k - 1\<rparr>) None"
    using tables_connD [OF assms(1,3)] held_pos [OF assms(1-3)] by (simp add: stream_change_def conn_ok_def)
qed simp

definition without_session :: "u32 \<Rightarrow> srv_conn \<Rightarrow> srv_conn" where
  "without_session sid k = k\<lparr>k_udp := AList.delete sid (k_udp k), k_preopen := pre_open_discard (k_preopen k) sid\<rparr>"

lemma session_gone:
  assumes "tables_ok C D" and "D s = Some d" and "C (da_conn d) = Some k" and "da_phase d = Udp sid"
    and "dopt \<noteq> None \<Longrightarrow> k_held k' = k_held k" and "dopt = None \<Longrightarrow> k_held k' = k_held k - 1"
    and "k_ctrl k' = k_ctrl k" and "k_udp k' = AList.delete sid (k_udp k)" and "k_preopen k' = pre_open_discard (k_preopen k) sid"
  shows "stream_change s k k' dopt"
proof -
  have o: "conn_ok D (da_conn d) k" by (rule tables_connD [OF assms(1,3)])
  have n: "us_stream ss \<noteq> s" if "map_of (k_udp k) sid' = Some ss" "sid' \<noteq> sid" for sid' ss
    using session_stream [OF assms(1,3,2) that(1)] assms(4) that(2) by auto
  have m: "us_stream ss = s" if "map_of (k_udp k) sid = Some ss" for ss
    using tables_dataD [OF assms(1,2)] assms(3,4) that by (auto simp: data_ok_def sess_def)
  have "map_of (k_udp k') sid' = Some ss \<Longrightarrow> us_stream ss \<noteq> s \<and> map_of (k_udp k) sid' = Some ss" for sid' ss
    using n assms(8) by (simp split: if_splits)
  moreover have "map_of (k_udp k) sid' = Some ss \<Longrightarrow> us_stream ss \<noteq> s \<Longrightarrow> map_of (k_udp k') sid' = Some ss" for sid' ss
    using m assms(8) by (cases "sid' = sid") simp_all
  moreover have "length (k_udp k') \<le> MAX_SESSIONS_PER_CONN" "distinct (map fst (k_udp k'))" "pre_open_inv (k_preopen k')"
    using o length_delete_le' [of sid "k_udp k"] pre_open_discard_inv [of "k_preopen k" sid] assms(8,9)
    by (simp_all add: conn_ok_def distinct_delete)
  moreover have "k_held k' + (if dopt = None then 1 else 0) = k_held k"
    using assms(5,6) held_pos [OF assms(1-3)] by (cases dopt) simp_all
  ultimately show ?thesis using assms(7) unfolding stream_change_def by (metis (full_types))
qed

lemma drop_tables_udp:
  assumes "tables_ok C D" and "D s = Some d" and "C (da_conn d) = Some k" and "da_phase d = Udp sid"
  shows "tables_ok (C(da_conn d \<mapsto> without_session sid (k\<lparr>k_held := k_held k - 1\<rparr>))) (D(s := None))"
  by (rule tables_change [OF assms(1,3,2) refl session_gone [OF assms]]) (simp_all add: without_session_def)

section \<open>What pending operations and timers point to\<close>

lemma dialsD: "dials_ok D di \<Longrightarrow> di op = Some s \<Longrightarrow> \<exists>d. D s = Some d \<and> da_phase d = Dialling op"
  by (simp add: dials_ok_def)

lemma resolvesD: "resolves_ok C re \<Longrightarrow> re op = Some (c, sid) \<Longrightarrow> \<exists>ss. sess C c sid = Some ss \<and> us_phase ss = Resolving op"
  by (simp add: resolves_ok_def)

lemma opensD: "opens_ok C so \<Longrightarrow> so op = Some (c, sid) \<Longrightarrow> \<exists>ss a. sess C c sid = Some ss \<and> us_phase ss = Opening op a"
  by (simp add: opens_ok_def)

lemma socksD: "socks_ok C sks \<Longrightarrow> sks sk = Some (c, sid) \<Longrightarrow> \<exists>ss a t tm. sess C c sid = Some ss \<and> us_phase ss = Live sk a t tm"
  by (simp add: socks_ok_def)

lemma timersD: "timers_ok C D tm \<Longrightarrow> tm t = Some m \<Longrightarrow> timer_ok C D t m"
  by (simp add: timers_ok_def)

lemma dials_step:
  assumes "dials_ok D di"
    and "\<And>op s'. di' op = Some s' \<Longrightarrow> di op = Some s' \<and> s' \<noteq> s \<or> s' = s \<and> (\<exists>d'. dopt = Some d' \<and> da_phase d' = Dialling op)"
  shows "dials_ok (D(s := dopt)) di'"
  unfolding dials_ok_def
proof (intro allI impI)
  fix op s' assume "di' op = Some s'"
  from assms(2) [OF this] show "\<exists>d. (D(s := dopt)) s' = Some d \<and> da_phase d = Dialling op"
    using assms(1) unfolding dials_ok_def by auto
qed

lemma resolves_step:
  assumes "resolves_ok C re"
    and "\<And>op c sid. re' op = Some (c, sid) \<Longrightarrow>
      re op = Some (c, sid) \<and> sess C' c sid = sess C c sid \<or> (\<exists>ss. sess C' c sid = Some ss \<and> us_phase ss = Resolving op)"
  shows "resolves_ok C' re'"
  using assms unfolding resolves_ok_def by metis

lemma opens_step:
  assumes "opens_ok C so"
    and "\<And>op c sid. so' op = Some (c, sid) \<Longrightarrow>
      so op = Some (c, sid) \<and> sess C' c sid = sess C c sid \<or> (\<exists>ss a. sess C' c sid = Some ss \<and> us_phase ss = Opening op a)"
  shows "opens_ok C' so'"
  using assms unfolding opens_ok_def by metis

lemma socks_step:
  assumes "socks_ok C sks"
    and "\<And>sk c sid. sks' sk = Some (c, sid) \<Longrightarrow>
      sks sk = Some (c, sid) \<and> sess C' c sid = sess C c sid \<or> (\<exists>ss a t tm. sess C' c sid = Some ss \<and> us_phase ss = Live sk a t tm)"
  shows "socks_ok C' sks'"
  using assms unfolding socks_ok_def by metis

lemma timers_step:
  assumes "timers_ok C D tm" and "\<And>t m. tm' t = Some m \<Longrightarrow> (tm t = Some m \<and> (timer_ok C D t m \<longrightarrow> timer_ok C' D' t m)) \<or> timer_ok C' D' t m"
  shows "timers_ok C' D' tm'"
  using assms unfolding timers_ok_def by metis

lemma srv_invD:
  assumes "srv_inv sv"
  shows "distinct (map fst (sv_conns sv))" "tables_ok (map_of (sv_conns sv)) (map_of (sv_data sv))"
    "dials_ok (map_of (sv_data sv)) (map_of (sv_dials sv))" "resolves_ok (map_of (sv_conns sv)) (map_of (sv_resolves sv))"
    "opens_ok (map_of (sv_conns sv)) (map_of (sv_socket_opens sv))" "socks_ok (map_of (sv_conns sv)) (map_of (sv_udp_socks sv))"
    "timers_ok (map_of (sv_conns sv)) (map_of (sv_data sv)) (map_of (sv_timers sv))"
  using assms by (simp_all add: srv_inv_def)

lemma timer_ok_drop:
  assumes "sess C' = sess C" and "m \<noteq> TmRequest s" and "timer_ok C D t m"
  shows "timer_ok C' (D(s := dopt)) t m"
  using assms by (cases m) auto

section \<open>Ending a stream\<close>

lemma inv_drop_plain:
  assumes inv: "srv_inv sv" and D: "map_of (sv_data sv) s = Some d" and C: "map_of (sv_conns sv) (da_conn d) = Some k"
    and p: "\<And>sid. da_phase d \<noteq> Udp sid"
    and di: "\<And>op s'. map_of di op = Some s' \<Longrightarrow> map_of (sv_dials sv) op = Some s' \<and> s' \<noteq> s"
    and tm: "\<And>t m. map_of tm t = Some m \<Longrightarrow> map_of (sv_timers sv) t = Some m \<and> m \<noteq> TmRequest s"
  shows "srv_inv (sv\<lparr>sv_data := AList.delete s (sv_data sv),
    sv_conns := AList.update (da_conn d) (k\<lparr>k_held := k_held k - 1\<rparr>) (sv_conns sv), sv_dials := di, sv_timers := tm\<rparr>)"
proof -
  note i = srv_invD [OF inv]
  let ?C = "map_of (sv_conns sv)" and ?C' = "(map_of (sv_conns sv))(da_conn d \<mapsto> k\<lparr>k_held := k_held k - 1\<rparr>)"
  have e: "sess ?C' = sess ?C" by (rule sess_same [where C = ?C, OF C]) simp
  have "timers_ok ?C' ((map_of (sv_data sv))(s := None)) (map_of tm)"
    by (rule timers_step [OF i(7)]) (use tm timer_ok_drop [OF e] in blast)
  moreover have "dials_ok ((map_of (sv_data sv))(s := None)) (map_of di)"
    by (rule dials_step [OF i(3)]) (use di in blast)
  moreover have "resolves_ok ?C' (map_of (sv_resolves sv))" "opens_ok ?C' (map_of (sv_socket_opens sv))" "socks_ok ?C' (map_of (sv_udp_socks sv))"
    using i(4-6) unfolding resolves_ok_def opens_ok_def socks_ok_def e by blast+
  ultimately show ?thesis
    using i(1) drop_tables [where C = ?C, OF i(2) D C p] by (simp add: srv_inv_def distinct_update)
qed

lemma inv_drop_udp:
  assumes inv: "srv_inv sv" and D: "map_of (sv_data sv) s = Some d" and C: "map_of (sv_conns sv) (da_conn d) = Some k"
    and p: "da_phase d = Udp sid"
    and re: "\<And>op cs. map_of re op = Some cs \<Longrightarrow> map_of (sv_resolves sv) op = Some cs \<and> cs \<noteq> (da_conn d, sid)"
    and so: "\<And>op cs. map_of so op = Some cs \<Longrightarrow> map_of (sv_socket_opens sv) op = Some cs \<and> cs \<noteq> (da_conn d, sid)"
    and sk: "\<And>op cs. map_of sk op = Some cs \<Longrightarrow> map_of (sv_udp_socks sv) op = Some cs \<and> cs \<noteq> (da_conn d, sid)"
    and tm: "\<And>t m. map_of tm t = Some m \<Longrightarrow> map_of (sv_timers sv) t = Some m \<and> m \<noteq> TmUdpIdle (da_conn d) sid"
  shows "srv_inv (sv\<lparr>sv_data := AList.delete s (sv_data sv),
    sv_conns := AList.update (da_conn d) (without_session sid (k\<lparr>k_held := k_held k - 1\<rparr>)) (sv_conns sv),
    sv_resolves := re, sv_socket_opens := so, sv_udp_socks := sk, sv_timers := tm\<rparr>)"
proof -
  note i = srv_invD [OF inv]
  let ?C = "map_of (sv_conns sv)" and ?D = "map_of (sv_data sv)"
  let ?C' = "?C(da_conn d \<mapsto> without_session sid (k\<lparr>k_held := k_held k - 1\<rparr>))"
  have e: "sess ?C' c sid' = sess ?C c sid'" if "(c, sid') \<noteq> (da_conn d, sid)" for c sid'
    using that C by (auto simp: without_session_def sess_def)
  have "timers_ok ?C' (?D(s := None)) (map_of tm)"
  proof (rule timers_step [OF i(7)], intro disjI1 conjI impI)
    fix t m assume "map_of tm t = Some m"
    note t = tm [OF this]
    show "map_of (sv_timers sv) t = Some m" using t by blast
    show "timer_ok ?C' (?D(s := None)) t m" if "timer_ok ?C ?D t m"
      using that t e D p by (cases m) (auto simp del: sess_upd)
  qed
  moreover have "dials_ok (?D(s := None)) (map_of (sv_dials sv))"
    by (rule dials_step [OF i(3)]) (use dialsD [OF i(3)] D p in fastforce)
  moreover have "resolves_ok ?C' (map_of re)" by (rule resolves_step [OF i(4)]) (use re e in blast)
  moreover have "opens_ok ?C' (map_of so)" by (rule opens_step [OF i(5)]) (use so e in blast)
  moreover have "socks_ok ?C' (map_of sk)" by (rule socks_step [OF i(6)]) (use sk e in blast)
  ultimately show ?thesis
    using i(1) drop_tables_udp [where C = ?C, OF i(2) D C p] by (simp add: srv_inv_def distinct_update)
qed

text \<open>What a handler leaves behind: the invariant, the control streams as they were, no stream more, and only streams
  of the server have been read.\<close>

definition frame :: "server \<Rightarrow> server \<Rightarrow> bool" where
  "frame sv sv' \<longleftrightarrow> sv_token sv' = sv_token sv \<and> dom (map_of (sv_data sv')) \<subseteq> dom (map_of (sv_data sv))
     \<and> (\<forall>c k'. map_of (sv_conns sv') c = Some k' \<longrightarrow> (\<exists>k. map_of (sv_conns sv) c = Some k \<and> k_ctrl k' = k_ctrl k))"

definition step_ok :: "('x \<Rightarrow> nat) \<Rightarrow> ('x \<Rightarrow> stream_id \<Rightarrow> bytes) \<Rightarrow> server \<Rightarrow> 'x \<Rightarrow> server \<times> 'x \<Rightarrow> bool" where
  "step_ok left hist sv x r \<longleftrightarrow>
     srv_inv (fst r) \<and> frame sv (fst r) \<and> reads_only left hist (dom (map_of (sv_data sv))) x (snd r)"

lemma frame_refl [simp]: "frame sv sv"
  by (simp add: frame_def)

lemma frame_trans: "frame a b \<Longrightarrow> frame b c \<Longrightarrow> frame a c"
  unfolding frame_def by (metis order_trans)

lemma frame_same:
  assumes "frame sv a" and "sv_token b = sv_token a" and "sv_data b = sv_data a" and "sv_conns b = sv_conns a"
  shows "frame sv b"
  using assms by (simp add: frame_def)

lemma frame_put_conn: "map_of (sv_conns sv) c = Some k \<Longrightarrow> k_ctrl k' = k_ctrl k \<Longrightarrow> frame sv (put_conn c k' sv)"
  by (simp add: frame_def)

lemma frame_put_data: "map_of (sv_data sv) s = Some d \<Longrightarrow> frame sv (put_data s d' sv)"
  by (auto simp: frame_def)

lemma step_okI: "srv_inv sv' \<Longrightarrow> frame sv sv' \<Longrightarrow> quiet left hist x x' \<Longrightarrow> step_ok left hist sv x (sv', x')"
  by (simp add: step_ok_def quiet_reads)

lemma step_ok_trans:
  assumes "step_ok left hist sv x (sv1, x1)" and "step_ok left hist sv1 x1 r"
  shows "step_ok left hist sv x r"
proof -
  have "dom (map_of (sv_data sv1)) \<subseteq> dom (map_of (sv_data sv))" using assms(1) by (simp add: step_ok_def frame_def)
  then have "reads_only left hist (dom (map_of (sv_data sv))) x (snd r)"
    by (rule reads_only_trans [where y = x1 and T = "dom (map_of (sv_data sv1))", rotated 2]) (use assms in \<open>simp_all add: step_ok_def\<close>)
  moreover have "frame sv (fst r)" by (rule frame_trans [of sv sv1 "fst r"]) (use assms in \<open>simp_all add: step_ok_def\<close>)
  ultimately show ?thesis using assms(2) by (simp add: step_ok_def)
qed

lemma step_ok_then:
  assumes "step_ok left hist sv x (sv1, x1)" and "returns m (step_ok left hist sv1 x1)"
  shows "returns m (step_ok left hist sv x)"
  by (rule returns_mono [OF assms(2)]) (rule step_ok_trans [OF assms(1)])

lemma live_conn:
  assumes "srv_inv sv" and "map_of (sv_data sv) s = Some d"
  obtains k where "map_of (sv_conns sv) (da_conn d) = Some k" and "conn_authed k" and "0 < k_held k"
    and "\<And>sid. da_phase d = Udp sid \<Longrightarrow> \<exists>ss. map_of (k_udp k) sid = Some ss \<and> us_stream ss = s"
proof -
  note t = srv_invD(2) [OF assms(1)]
  from tables_dataD [OF t assms(2)] obtain k where k: "map_of (sv_conns sv) (da_conn d) = Some k" "conn_authed k"
    and u: "\<And>sid. da_phase d = Udp sid \<Longrightarrow> \<exists>ss. map_of (k_udp k) sid = Some ss \<and> us_stream ss = s"
    by (auto simp: data_ok_def sess_def)
  show ?thesis by (rule that [OF k(1,2) held_pos [OF t assms(2) k(1)] u])
qed

text \<open>\<open>drop_data\<close> when the stream is held.\<close>

definition dropped :: "'x srv_env \<Rightarrow> stream_id \<Rightarrow> srv_data \<Rightarrow> srv_conn \<Rightarrow> server \<Rightarrow> 'x \<Rightarrow> server \<times> 'x" where
  "dropped cx s d k sv x =
     (let sv = sv\<lparr>sv_data := AList.delete s (sv_data sv), sv_conns := AList.update (da_conn d) (k\<lparr>k_held := k_held k - 1\<rparr>) (sv_conns sv)\<rparr> in
      case da_phase d of
        Request t \<Rightarrow> srv_cancel cx t sv x
      | Dialling op \<Rightarrow> (sv\<lparr>sv_dials := AList.delete op (sv_dials sv)\<rparr>, cx_do cx (CxCancelDial op) x)
      | Responding tcp \<Rightarrow> (sv, cx_do cx (CxTcpAbort tcp) x)
      | Retiring \<Rightarrow> (sv, x)
      | Udp sid \<Rightarrow> srv_end_session cx (da_conn d) sid sv x)"

lemma drop_data_eq:
  assumes "map_of (sv_data sv) s = Some d" and "map_of (sv_conns sv) (da_conn d) = Some k" and "0 < k_held k"
  shows "drop_data cx s reset sv x =
    (case dropped cx s d k sv x of (sv', x') \<Rightarrow> Some (sv', if reset then cx_do cx (CxStreamReset s) x' else x'))"
  using assms by (simp add: drop_data_def srv_release_def dropped_def Let_def)

lemma drop_data_none: "map_of (sv_data sv) s = None \<Longrightarrow> drop_data cx s reset sv x = Some (sv, x)"
  by (simp add: drop_data_def srv_release_def)

lemma dropped_udp_inv:
  assumes inv: "srv_inv sv" and D: "map_of (sv_data sv) s = Some d" and C: "map_of (sv_conns sv) (da_conn d) = Some k"
    and p: "da_phase d = Udp sid"
  shows "srv_inv (fst (dropped cx s d k sv x))"
proof -
  note i = srv_invD [OF inv] and udp = inv_drop_udp [OF inv D C p]
  from live_conn [OF inv D] C p obtain ss where ss: "map_of (k_udp k) sid = Some ss" by fastforce
  then have se: "sess (map_of (sv_conns sv)) (da_conn d) sid = Some ss" using C by (simp add: sess_def)
  have re: "us_phase ss = Resolving op" if "map_of (sv_resolves sv) op = Some (da_conn d, sid)" for op
    using resolvesD [OF i(4) that] se by simp
  have so: "\<exists>a. us_phase ss = Opening op a" if "map_of (sv_socket_opens sv) op = Some (da_conn d, sid)" for op
    using opensD [OF i(5) that] se by simp
  have sk: "\<exists>a t tm. us_phase ss = Live op a t tm" if "map_of (sv_udp_socks sv) op = Some (da_conn d, sid)" for op
    using socksD [OF i(6) that] se by simp
  have tm: "\<exists>sock a m. us_phase ss = Live sock a t m" if "map_of (sv_timers sv) t = Some (TmUdpIdle (da_conn d) sid)" for t
    using timersD [OF i(7) that] se by simp
  note defs = dropped_def p srv_end_session_def take_session_def ss srv_cancel_def without_session_def
  let ?sv = "\<lambda>re so sk tm. sv\<lparr>sv_data := AList.delete s (sv_data sv),
    sv_conns := AList.update (da_conn d) (without_session sid (k\<lparr>k_held := k_held k - 1\<rparr>)) (sv_conns sv),
    sv_resolves := re, sv_socket_opens := so, sv_udp_socks := sk, sv_timers := tm\<rparr>"
  show ?thesis
  proof (cases "us_phase ss")
    case (Resolving op)
    have "srv_inv (?sv (AList.delete op (sv_resolves sv)) (sv_socket_opens sv) (sv_udp_socks sv) (sv_timers sv))"
      by (rule udp) (use Resolving re so sk tm in \<open>auto split: if_splits\<close>)
    then show ?thesis by (simp add: defs Resolving)
  next
    case (Opening op a)
    have "srv_inv (?sv (sv_resolves sv) (AList.delete op (sv_socket_opens sv)) (sv_udp_socks sv) (sv_timers sv))"
      by (rule udp) (use Opening re so sk tm in \<open>auto split: if_splits\<close>)
    then show ?thesis by (simp add: defs Opening)
  next
    case (Live sock a t m)
    have "srv_inv (?sv (sv_resolves sv) (sv_socket_opens sv) (AList.delete sock (sv_udp_socks sv)) (AList.delete t (sv_timers sv)))"
      by (rule udp) (use Live re so sk tm in \<open>auto split: if_splits\<close>)
    then show ?thesis by (simp add: defs Live)
  qed
qed

lemma dropped_inv:
  assumes inv: "srv_inv sv" and D: "map_of (sv_data sv) s = Some d" and C: "map_of (sv_conns sv) (da_conn d) = Some k"
  shows "srv_inv (fst (dropped cx s d k sv x))"
proof -
  note i = srv_invD [OF inv] and plain = inv_drop_plain [OF inv D C]
  have tr: "da_phase d = Request t" if "map_of (sv_timers sv) t = Some (TmRequest s)" for t
    using timersD [OF i(7) that] D by simp
  have dr: "da_phase d = Dialling op" if "map_of (sv_dials sv) op = Some s" for op
    using dialsD [OF i(3) that] D by simp
  show ?thesis
  proof (cases "da_phase d")
    case (Request t)
    have "srv_inv (sv\<lparr>sv_data := AList.delete s (sv_data sv), sv_conns := AList.update (da_conn d) (k\<lparr>k_held := k_held k - 1\<rparr>) (sv_conns sv),
        sv_dials := sv_dials sv, sv_timers := AList.delete t (sv_timers sv)\<rparr>)"
      by (rule plain) (use Request tr dr in \<open>auto split: if_splits\<close>)
    then show ?thesis by (simp add: dropped_def Request srv_cancel_def)
  next
    case (Dialling op)
    have "srv_inv (sv\<lparr>sv_data := AList.delete s (sv_data sv), sv_conns := AList.update (da_conn d) (k\<lparr>k_held := k_held k - 1\<rparr>) (sv_conns sv),
        sv_dials := AList.delete op (sv_dials sv), sv_timers := sv_timers sv\<rparr>)"
      by (rule plain) (use Dialling tr dr in \<open>auto split: if_splits\<close>)
    then show ?thesis by (simp add: dropped_def Dialling)
  next
    case (Responding tcp)
    have "srv_inv (sv\<lparr>sv_data := AList.delete s (sv_data sv), sv_conns := AList.update (da_conn d) (k\<lparr>k_held := k_held k - 1\<rparr>) (sv_conns sv),
        sv_dials := sv_dials sv, sv_timers := sv_timers sv\<rparr>)"
      by (rule plain) (use Responding tr dr in auto)
    then show ?thesis by (simp add: dropped_def Responding)
  next
    case Retiring
    have "srv_inv (sv\<lparr>sv_data := AList.delete s (sv_data sv), sv_conns := AList.update (da_conn d) (k\<lparr>k_held := k_held k - 1\<rparr>) (sv_conns sv),
        sv_dials := sv_dials sv, sv_timers := sv_timers sv\<rparr>)"
      by (rule plain) (use Retiring tr dr in auto)
    then show ?thesis by (simp add: dropped_def Retiring)
  next
    case (Udp sid)
    then show ?thesis by (rule dropped_udp_inv [OF inv D C])
  qed
qed

lemma dropped_maps:
  assumes "map_of (sv_conns sv) (da_conn d) = Some k"
  shows "map_of (sv_data (fst (dropped cx s d k sv x))) = (map_of (sv_data sv))(s := None)"
    and "dom (map_of (sv_conns (fst (dropped cx s d k sv x)))) = dom (map_of (sv_conns sv))"
    and "sv_token (fst (dropped cx s d k sv x)) = sv_token sv"
    and "\<And>c k'. map_of (sv_conns (fst (dropped cx s d k sv x))) c = Some k' \<Longrightarrow>
      \<exists>k. map_of (sv_conns sv) c = Some k \<and> k_ctrl k' = k_ctrl k"
  using assms
  by (auto simp: dropped_def Let_def srv_cancel_def srv_end_session_def take_session_def
      split: srv_phase.splits srv_udp_phase.splits option.splits prod.splits if_splits)

lemma dropped_quiet: "env_ok cx left hist \<Longrightarrow> quiet left hist x (snd (dropped cx s d k sv x))"
  by (auto simp: dropped_def Let_def srv_cancel_def srv_end_session_def intro!: quiet_do
      split: srv_phase.splits srv_udp_phase.splits option.splits prod.splits)

lemma drop_data_ok:
  assumes env: "env_ok cx left hist" and inv: "srv_inv sv"
  shows "returns (drop_data cx s reset sv x) (\<lambda>r. step_ok left hist sv x r \<and> map_of (sv_data (fst r)) = (map_of (sv_data sv))(s := None)
    \<and> dom (map_of (sv_conns (fst r))) = dom (map_of (sv_conns sv)))"
proof (cases "map_of (sv_data sv) s")
  case None
  then show ?thesis using inv by (simp add: drop_data_none step_ok_def fun_upd_idem)
next
  case (Some d)
  from live_conn [OF inv Some] obtain k where k: "map_of (sv_conns sv) (da_conn d) = Some k" "0 < k_held k" by metis
  obtain sv' x' where e: "dropped cx s d k sv x = (sv', x')" by (cases "dropped cx s d k sv x")
  note m = dropped_maps [OF k(1), of cx s x, unfolded e fst_conv]
  have "frame sv sv'" using m unfolding frame_def by auto
  moreover have "quiet left hist x (if reset then cx_do cx (CxStreamReset s) x' else x')"
    using dropped_quiet [OF env, of x s d k sv] quiet_trans [OF _ env_do [OF env]] e by simp
  ultimately show ?thesis
    using drop_data_eq [OF Some k, of cx reset x] e m dropped_inv [OF inv Some k(1), of cx x] by (simp add: step_okI)
qed

lemma drop_data_step:
  "env_ok cx left hist \<Longrightarrow> srv_inv sv \<Longrightarrow> returns (drop_data cx s reset sv x) (step_ok left hist sv x)"
  by (rule returns_mono [OF drop_data_ok]) blast+

section \<open>Answering a stream\<close>

lemma inv_put_data:
  assumes inv: "srv_inv sv" and D: "map_of (sv_data sv) s = Some d" and c: "da_conn d' = da_conn d" and b: "buffer_ok d'"
    and u: "\<And>sid. da_phase d' = Udp sid \<longleftrightarrow> da_phase d = Udp sid"
    and di: "\<And>op s'. map_of di op = Some s' \<Longrightarrow> map_of (sv_dials sv) op = Some s' \<and> s' \<noteq> s \<or> s' = s \<and> da_phase d' = Dialling op"
    and tm: "\<And>t m. map_of tm t = Some m \<Longrightarrow> map_of (sv_timers sv) t = Some m \<and> m \<noteq> TmRequest s \<or> m = TmRequest s \<and> da_phase d' = Request t"
  shows "srv_inv (sv\<lparr>sv_data := AList.update s d' (sv_data sv), sv_dials := di, sv_timers := tm\<rparr>)"
proof -
  note i = srv_invD [OF inv]
  let ?C = "map_of (sv_conns sv)" and ?D = "map_of (sv_data sv)"
  have "timers_ok ?C (?D(s \<mapsto> d')) (map_of tm)"
  proof (rule timers_step [OF i(7)])
    fix t m assume "map_of tm t = Some m"
    from tm [OF this] show "(map_of (sv_timers sv) t = Some m \<and> (timer_ok ?C ?D t m \<longrightarrow> timer_ok ?C (?D(s \<mapsto> d')) t m))
        \<or> timer_ok ?C (?D(s \<mapsto> d')) t m"
      using timer_ok_drop [OF refl, of m s ?C ?D t "Some d'"] by auto
  qed
  moreover have "dials_ok (?D(s \<mapsto> d')) (map_of di)" by (rule dials_step [OF i(3)]) (use di in blast)
  ultimately show ?thesis using i tables_data [where D = ?D, OF i(2) D c b u] by (simp add: srv_inv_def)
qed

lemma inv_put_same:
  assumes "srv_inv sv" and "map_of (sv_data sv) s = Some d" and "da_conn d' = da_conn d" and "buffer_ok d'" and "da_phase d' = da_phase d"
  shows "srv_inv (put_data s d' sv)"
proof -
  note i = srv_invD [OF assms(1)]
  have "srv_inv (sv\<lparr>sv_data := AList.update s d' (sv_data sv), sv_dials := sv_dials sv, sv_timers := sv_timers sv\<rparr>)"
  proof (rule inv_put_data [OF assms(1-4)])
    show "map_of (sv_dials sv) op = Some s' \<and> s' \<noteq> s \<or> s' = s \<and> da_phase d' = Dialling op"
      if "map_of (sv_dials sv) op = Some s'" for op s' using dialsD [OF i(3) that] that assms(2,5) by auto
    show "map_of (sv_timers sv) t = Some m \<and> m \<noteq> TmRequest s \<or> m = TmRequest s \<and> da_phase d' = Request t"
      if "map_of (sv_timers sv) t = Some m" for t m using timersD [OF i(7) that] that assms(2,5) by auto
  qed (simp add: assms(5))
  then show ?thesis by simp
qed

text \<open>A stream leaves its request phase: the request timer goes.\<close>

definition left_request :: "srv_phase \<Rightarrow> server \<Rightarrow> server" where
  "left_request ph sv = (case ph of Request t \<Rightarrow> sv\<lparr>sv_timers := AList.delete t (sv_timers sv)\<rparr> | _ \<Rightarrow> sv)"

lemma leave_request_eq:
  "leave_request cx ph sv x = (left_request ph sv, case ph of Request t \<Rightarrow> cx_do cx (CxCancelTimer t) x | _ \<Rightarrow> x)"
  by (simp add: leave_request_def left_request_def srv_cancel_def split: srv_phase.splits)

lemma left_request_fields [simp]:
  "sv_data (left_request ph sv) = sv_data sv" "sv_conns (left_request ph sv) = sv_conns sv" "sv_token (left_request ph sv) = sv_token sv"
  "sv_dials (left_request ph sv) = sv_dials sv" "sv_cfg (left_request ph sv) = sv_cfg sv" "sv_resolves (left_request ph sv) = sv_resolves sv"
  "sv_socket_opens (left_request ph sv) = sv_socket_opens sv" "sv_udp_socks (left_request ph sv) = sv_udp_socks sv"
  "left_request ph (sv\<lparr>sv_data := da\<rparr>) = (left_request ph sv)\<lparr>sv_data := da\<rparr>"
  by (simp_all add: left_request_def split: srv_phase.splits)

lemma left_request_timers:
  assumes "srv_inv sv" and "map_of (sv_data sv) s = Some d" and "map_of (sv_timers (left_request (da_phase d) sv)) t = Some m"
  shows "map_of (sv_timers sv) t = Some m" and "m \<noteq> TmRequest s"
proof -
  show t: "map_of (sv_timers sv) t = Some m" using assms(3) by (auto simp: left_request_def split: srv_phase.splits if_splits)
  show "m \<noteq> TmRequest s"
  proof
    assume m: "m = TmRequest s"
    then have "da_phase d = Request t" using timersD [OF srv_invD(7) [OF assms(1)] t] assms(2) by simp
    then show False using assms(3) by (simp add: left_request_def)
  qed
qed

lemma no_dial:
  assumes "srv_inv sv" and "map_of (sv_data sv) s = Some d" and "\<And>op. da_phase d \<noteq> Dialling op"
  shows "map_of (sv_dials sv) op \<noteq> Some s"
  using dialsD [OF srv_invD(3) [OF assms(1)], of op s] assms(2,3) by auto

definition retired :: "stream_id \<Rightarrow> srv_data \<Rightarrow> bytes \<Rightarrow> server \<Rightarrow> server" where
  "retired s d tx sv = put_data s (d\<lparr>da_phase := Retiring, da_rx := [], da_tx := tx\<rparr>) (left_request (da_phase d) sv)"

lemma retired_inv:
  assumes "srv_inv sv" and "map_of (sv_data sv) s = Some d" and "\<And>sid. da_phase d \<noteq> Udp sid" and "\<And>op. map_of (sv_dials sv) op \<noteq> Some s"
  shows "srv_inv (retired s d tx sv)"
proof -
  note i = srv_invD [OF assms(1)]
  have "srv_inv (sv\<lparr>sv_data := AList.update s (d\<lparr>da_phase := Retiring, da_rx := [], da_tx := tx\<rparr>) (sv_data sv),
      sv_dials := sv_dials sv, sv_timers := sv_timers (left_request (da_phase d) sv)\<rparr>)"
  proof (rule inv_put_data [OF assms(1,2)])
    show "map_of (sv_dials sv) op = Some s' \<and> s' \<noteq> s \<or> s' = s \<and> da_phase (d\<lparr>da_phase := Retiring, da_rx := [], da_tx := tx\<rparr>) = Dialling op"
      if "map_of (sv_dials sv) op = Some s'" for op s' using that assms(4) by auto
    show "map_of (sv_timers sv) t = Some m \<and> m \<noteq> TmRequest s \<or> m = TmRequest s \<and> da_phase (d\<lparr>da_phase := Retiring, da_rx := [], da_tx := tx\<rparr>) = Request t"
      if "map_of (sv_timers (left_request (da_phase d) sv)) t = Some m" for t m using left_request_timers [OF assms(1,2) that] by blast
  qed (use assms(3) in \<open>simp_all add: buffer_ok_def\<close>)
  moreover have "retired s d tx sv = sv\<lparr>sv_data := AList.update s (d\<lparr>da_phase := Retiring, da_rx := [], da_tx := tx\<rparr>) (sv_data sv),
      sv_dials := sv_dials sv, sv_timers := sv_timers (left_request (da_phase d) sv)\<rparr>"
    by (cases "da_phase d") (simp_all add: retired_def left_request_def)
  ultimately show ?thesis by simp
qed

lemma respond_error_ok:
  assumes env: "env_ok cx left hist" and D: "map_of (sv_data sv) s = Some d" and inv: "\<And>tx. srv_inv (retired s d tx sv)"
  shows "returns (respond_error cx s resp sv x)
    (\<lambda>r. step_ok left hist sv x r \<and> (\<forall>d. map_of (sv_data (fst r)) s = Some d \<longrightarrow> da_phase d = Retiring))"
proof -
  let ?x1 = "case da_phase d of Request t \<Rightarrow> cx_do cx (CxCancelTimer t) x | _ \<Rightarrow> x"
  obtain ok tx x2 where f: "flush cx s resp True ?x1 = (ok, tx, x2)" by (metis prod_cases3)
  have q: "quiet left hist x x2"
  proof -
    have "quiet left hist x ?x1" using env_do [OF env] by (auto split: srv_phase.splits)
    from quiet_trans [OF this flush_quiet [OF env]] f show ?thesis by (metis snd_conv)
  qed
  have e: "respond_error cx s resp sv x = (if ok then Some (retired s d tx sv, x2) else drop_data cx s True (retired s d tx sv) x2)"
    using D f by (simp add: respond_error_def leave_request_eq retired_def Let_def)
  have st: "step_ok left hist sv x (retired s d tx sv, x2)"
    by (rule step_okI [OF inv _ q]) (use D in \<open>auto simp: frame_def retired_def\<close>)
  show ?thesis
  proof (cases ok)
    case True
    then show ?thesis using e st by (simp add: retired_def)
  next
    case False
    have "returns (drop_data cx s True (retired s d tx sv) x2)
      (\<lambda>r. step_ok left hist sv x r \<and> (\<forall>d. map_of (sv_data (fst r)) s = Some d \<longrightarrow> da_phase d = Retiring))"
      by (rule returns_mono [OF drop_data_ok [OF env inv]]) (use step_ok_trans [OF st] in auto)
    then show ?thesis using e False by simp
  qed
qed

lemma buffer_ok_tx [simp]: "buffer_ok (d\<lparr>da_tx := tx\<rparr>) = buffer_ok d"
  by (simp add: buffer_ok_def)

lemma data_buffer: "srv_inv sv \<Longrightarrow> map_of (sv_data sv) s = Some d \<Longrightarrow> buffer_ok d"
  using tables_dataD [OF srv_invD(2)] by (auto simp: data_ok_def)

lemma srv_dial_ok:
  assumes env: "env_ok cx left hist" and inv: "srv_inv sv" and D: "map_of (sv_data sv) s = Some d" and p: "da_phase d = Request t"
  shows "returns (srv_dial cx s tg sv x)
    (\<lambda>r. step_ok left hist sv x r \<and> (\<forall>d. map_of (sv_data (fst r)) s = Some d \<longrightarrow> (\<exists>op. da_phase d = Dialling op)))"
proof -
  obtain op x1 where o: "cx_dial cx tg (scf_dial_deadline (sv_cfg sv)) x = (op, x1)" by (metis prod.exhaust)
  let ?d = "d\<lparr>da_phase := Dialling op\<rparr>"
  let ?sv = "sv\<lparr>sv_data := AList.update s ?d (sv_data sv), sv_dials := AList.update op s (sv_dials sv), sv_timers := AList.delete t (sv_timers sv)\<rparr>"
  have q: "quiet left hist x (cx_do cx (CxCancelTimer t) x1)"
    using env_dial [OF env, of x tg "scf_dial_deadline (sv_cfg sv)"] o by (simp add: quiet_do [OF env])
  have "srv_inv ?sv"
  proof (rule inv_put_data [OF inv D])
    show "buffer_ok ?d" using data_buffer [OF inv D] by (simp add: buffer_ok_def)
    show "map_of (sv_dials sv) op' = Some s' \<and> s' \<noteq> s \<or> s' = s \<and> da_phase ?d = Dialling op'"
      if "map_of (AList.update op s (sv_dials sv)) op' = Some s'" for op' s'
      using that no_dial [OF inv D, of op'] p by (cases "op' = op") auto
    show "map_of (sv_timers sv) t' = Some m \<and> m \<noteq> TmRequest s \<or> m = TmRequest s \<and> da_phase ?d = Request t'"
      if "map_of (AList.delete t (sv_timers sv)) t' = Some m" for t' m
      using that left_request_timers [OF inv D, of t' m] p by (simp add: left_request_def split: if_splits)
  qed (simp_all add: p)
  moreover have "srv_dial cx s tg sv x = Some (?sv, cx_do cx (CxCancelTimer t) x1)"
    using D p o by (simp add: srv_dial_def leave_request_def srv_cancel_def)
  moreover have "frame sv ?sv" using D by (auto simp: frame_def)
  ultimately show ?thesis using q by (simp add: step_okI)
qed

lemma release_ok:
  assumes inv: "srv_inv sv" and D: "map_of (sv_data sv) s = Some d" and p: "da_phase d = Responding tcp"
  shows "\<exists>sv'. srv_release s sv = Some (Some d, sv') \<and> srv_inv sv' \<and> frame sv sv'"
proof -
  from live_conn [OF inv D] obtain k where k: "map_of (sv_conns sv) (da_conn d) = Some k" "0 < k_held k" by metis
  let ?sv = "sv\<lparr>sv_data := AList.delete s (sv_data sv), sv_conns := AList.update (da_conn d) (k\<lparr>k_held := k_held k - 1\<rparr>) (sv_conns sv),
      sv_dials := sv_dials sv, sv_timers := sv_timers sv\<rparr>"
  have "srv_inv ?sv"
  proof (rule inv_drop_plain [OF inv D k(1)])
    show "map_of (sv_dials sv) op = Some s' \<and> s' \<noteq> s" if "map_of (sv_dials sv) op = Some s'" for op s'
      using that no_dial [OF inv D, of op] p by auto
    show "map_of (sv_timers sv) t = Some m \<and> m \<noteq> TmRequest s" if "map_of (sv_timers sv) t = Some m" for t m
      using that left_request_timers [OF inv D, of t m] p by (simp add: left_request_def)
  qed (simp add: p)
  moreover have "frame sv ?sv" using k by (auto simp: frame_def)
  ultimately show ?thesis using D k by (simp add: srv_release_def Let_def)
qed

lemma send_ok_ok:
  assumes env: "env_ok cx left hist" and inv: "srv_inv sv" and D: "map_of (sv_data sv) s = Some d"
  shows "returns (send_ok cx s sv x) (step_ok left hist sv x)"
proof (cases "\<exists>tcp. da_phase d = Responding tcp")
  case False
  then show ?thesis using D inv by (auto simp: send_ok_def step_ok_def split: srv_phase.splits)
next
  case True
  then obtain tcp where p: "da_phase d = Responding tcp" by blast
  obtain ok tx x1 where f: "flush cx s (da_tx d) False x = (ok, tx, x1)" by (metis prod_cases3)
  let ?d = "d\<lparr>da_tx := tx\<rparr>" and ?sv = "put_data s (d\<lparr>da_tx := tx\<rparr>) sv"
  have q: "quiet left hist x x1" using flush_quiet [OF env, of x s "da_tx d" False] f by simp
  have i: "srv_inv ?sv" by (rule inv_put_same [OF inv D]) (use data_buffer [OF inv D] in simp_all)
  have st: "step_ok left hist sv x (?sv, x1)" by (rule step_okI [OF i frame_put_data [OF D] q])
  have D': "map_of (sv_data ?sv) s = Some ?d" by simp
  from release_ok [OF i D'] p obtain sv' where r: "srv_release s ?sv = Some (Some ?d, sv')" "srv_inv sv'" "frame ?sv sv'" by auto
  obtain res x2 where b: "cx_start_relay cx tcp s \<lparr>sp_bytes = da_rx d, sp_fin = da_fin d\<rparr> x1 = (res, x2)" by (metis prod.exhaust)
  have q2: "quiet left hist x1 x2" using env_start_relay [OF env, of x1 tcp s] b by (metis snd_conv)
  have "returns (case res of Ok _ \<Rightarrow> Some (sv', x2) | Err _ \<Rightarrow> Some (sv', cx_do cx (CxStreamReset s) (cx_do cx (CxTcpAbort tcp) x2)))
      (step_ok left hist ?sv x1)"
    using quiet_do [OF env quiet_do [OF env q2]] q2 by (cases res) (simp_all add: step_okI [OF r(2,3)])
  from step_ok_then [OF st this] have rel: "returns (case res of Ok _ \<Rightarrow> Some (sv', x2)
      | Err _ \<Rightarrow> Some (sv', cx_do cx (CxStreamReset s) (cx_do cx (CxTcpAbort tcp) x2))) (step_ok left hist sv x)" .
  have dr: "returns (drop_data cx s True ?sv x1) (step_ok left hist sv x)" by (rule step_ok_then [OF st drop_data_step [OF env i]])
  show ?thesis
    by (cases "tx = []") (use D p f r b rel st dr in \<open>simp_all add: send_ok_def Let_def split: result.splits\<close>)
qed

end
