(* ===== verification/Server_Safe.thy ===== *)
theory Server_Safe
  imports Server_Inv
begin

text \<open>
  The server never panics and never hangs, keeps its budgets, and serves only clients that presented the token: every handler of
  \<open>Server_App\<close> keeps the invariant of \<open>Server_Inv\<close>.
\<close>

section \<open>Responses fit\<close>

lemma tcp_resp_ok: "\<exists>b. tcp_resp status e = Some b"
proof -
  have "connect_tcp_resp_wf \<lparr>ctr_status = status, ctr_error_code = tcp_err_raw e, ctr_message = []\<rparr>"
    by (cases e) (simp_all add: connect_tcp_resp_wf_def varint_MAX_def)
  then show ?thesis unfolding tcp_resp_def
    by (intro encoded_ok) (simp add: ctr.encode_succeeds)
qed

lemma udp_resp_ok:
  assumes "\<And>idle. r = Ok idle \<Longrightarrow> idle \<le> varint_MAX"
  shows "\<exists>b. udp_resp r = Some b"
proof (cases r)
  case (Ok idle)
  then show ?thesis using assms [OF Ok] unfolding udp_resp_def
    by (simp add: encoded_ok usr.encode_succeeds udp_session_resp_wf_def udp_status_code_valid_def STATUS_OK_def)
next
  case (Err e)
  then show ?thesis unfolding udp_resp_def
    by (cases e) (simp_all add: encoded_ok usr.encode_succeeds udp_session_resp_wf_def udp_status_code_valid_def
        STATUS_OK_def STATUS_ERROR_def varint_MAX_def)
qed

lemma auth_response_ok: "\<exists>b. auth_response ok udp = Some b"
  unfolding auth_response_def
  by (cases ok; cases udp)
    (simp_all add: encoded_ok ars.encode_succeeds auth_resp_wf_def varint_MAX_def FEAT_UDP_RELAY_def SERVER_ID_def ascii_def MAX_SERVER_ID_def)

section \<open>Changing a session\<close>

text \<open>The references to session \<open>sid\<close> of connection \<open>c\<close> that its phase \<open>ph\<close> allows.\<close>

fun phase_timer :: "srv_udp_phase \<Rightarrow> timer_id \<Rightarrow> bool" where
  "phase_timer (Live _ _ t _) t' = (t' = t)"
| "phase_timer _ t' = False"

fun phase_sock :: "srv_udp_phase \<Rightarrow> udp_socket_id \<Rightarrow> bool" where
  "phase_sock (Live sk _ _ _) sk' = (sk' = sk)"
| "phase_sock _ sk' = False"

fun phase_open :: "srv_udp_phase \<Rightarrow> socket_op_id \<Rightarrow> bool" where
  "phase_open (Opening op _) op' = (op' = op)"
| "phase_open _ op' = False"

lemma phase_iffs:
  "phase_timer ph t \<longleftrightarrow> (\<exists>sock a tm. ph = Live sock a t tm)" "phase_sock ph sk \<longleftrightarrow> (\<exists>a t tm. ph = Live sk a t tm)"
  "phase_open ph op \<longleftrightarrow> (\<exists>a. ph = Opening op a)"
  by (cases ph; auto)+

lemma inv_put_session:
  assumes inv: "srv_inv sv" and C: "map_of (sv_conns sv) c = Some k" and S: "map_of (k_udp k) sid = Some ss"
    and ss: "us_stream ss' = us_stream ss" "us_idle_len ss' = us_idle_len ss" "defrag_inv (us_defrag ss')" and l: "conn_like k k'"
    and re: "\<And>op cs. map_of re op = Some cs \<Longrightarrow>
      map_of (sv_resolves sv) op = Some cs \<and> cs \<noteq> (c, sid) \<or> cs = (c, sid) \<and> us_phase ss' = Resolving op"
    and so: "\<And>op cs. map_of so op = Some cs \<Longrightarrow>
      map_of (sv_socket_opens sv) op = Some cs \<and> cs \<noteq> (c, sid) \<or> cs = (c, sid) \<and> phase_open (us_phase ss') op"
    and sk: "\<And>op cs. map_of sk op = Some cs \<Longrightarrow>
      map_of (sv_udp_socks sv) op = Some cs \<and> cs \<noteq> (c, sid) \<or> cs = (c, sid) \<and> phase_sock (us_phase ss') op"
    and tm: "\<And>t m. map_of tm t = Some m \<Longrightarrow>
      map_of (sv_timers sv) t = Some m \<and> m \<noteq> TmUdpIdle c sid \<or> m = TmUdpIdle c sid \<and> phase_timer (us_phase ss') t"
  shows "srv_inv (sv\<lparr>sv_conns := AList.update c (k'\<lparr>k_udp := AList.update sid ss' (k_udp k)\<rparr>) (sv_conns sv),
    sv_resolves := re, sv_socket_opens := so, sv_udp_socks := sk, sv_timers := tm\<rparr>)"
proof -
  note i = srv_invD [OF inv]
  let ?C = "map_of (sv_conns sv)" and ?D = "map_of (sv_data sv)"
  let ?C' = "?C(c \<mapsto> k'\<lparr>k_udp := AList.update sid ss' (k_udp k)\<rparr>)"
  have e: "sess ?C' c' sid' = sess ?C c' sid'" if "(c', sid') \<noteq> (c, sid)" for c' sid' using that C by (auto simp: sess_def)
  have n: "sess ?C' c sid = Some ss'" by simp
  have "timers_ok ?C' ?D (map_of tm)"
  proof (rule timers_step [OF i(7)])
    fix t m assume "map_of tm t = Some m"
    from tm [OF this] show "(map_of (sv_timers sv) t = Some m \<and> (timer_ok ?C ?D t m \<longrightarrow> timer_ok ?C' ?D t m)) \<or> timer_ok ?C' ?D t m"
    proof
      assume a: "map_of (sv_timers sv) t = Some m \<and> m \<noteq> TmUdpIdle c sid"
      then have "timer_ok ?C ?D t m \<longrightarrow> timer_ok ?C' ?D t m" using e by (cases m) (auto simp del: sess_upd)
      with a show ?thesis by blast
    next
      assume "m = TmUdpIdle c sid \<and> phase_timer (us_phase ss') t"
      then show ?thesis using n by (simp add: phase_iffs)
    qed
  qed
  moreover have "resolves_ok ?C' (map_of re)" by (rule resolves_step [OF i(4)]) (use re e n in blast)
  moreover have "opens_ok ?C' (map_of so)" by (rule opens_step [OF i(5)]) (use so [unfolded phase_iffs] e n in blast)
  moreover have "socks_ok ?C' (map_of sk)" by (rule socks_step [OF i(6)]) (use sk [unfolded phase_iffs] e n in blast)
  ultimately show ?thesis
    using i(1,3) tables_session [where C = ?C, OF i(2) C S ss l] by (simp add: srv_inv_def distinct_update)
qed

lemma session_refs:
  assumes "srv_inv sv" and "map_of (sv_conns sv) c = Some k" and "map_of (k_udp k) sid = Some ss"
  shows "map_of (sv_resolves sv) op = Some (c, sid) \<Longrightarrow> us_phase ss = Resolving op"
    and "map_of (sv_socket_opens sv) op = Some (c, sid) \<Longrightarrow> phase_open (us_phase ss) op"
    and "map_of (sv_udp_socks sv) op = Some (c, sid) \<Longrightarrow> phase_sock (us_phase ss) op"
    and "map_of (sv_timers sv) op = Some (TmUdpIdle c sid) \<Longrightarrow> phase_timer (us_phase ss) op"
proof -
  note i = srv_invD [OF assms(1)]
  have s: "sess (map_of (sv_conns sv)) c sid = Some ss" using assms(2,3) by (simp add: sess_def)
  show "map_of (sv_resolves sv) op = Some (c, sid) \<Longrightarrow> us_phase ss = Resolving op" using resolvesD [OF i(4)] s by fastforce
  show "map_of (sv_socket_opens sv) op = Some (c, sid) \<Longrightarrow> phase_open (us_phase ss) op" using opensD [OF i(5)] s by (fastforce simp: phase_iffs)
  show "map_of (sv_udp_socks sv) op = Some (c, sid) \<Longrightarrow> phase_sock (us_phase ss) op" using socksD [OF i(6)] s by (fastforce simp: phase_iffs)
  show "map_of (sv_timers sv) op = Some (TmUdpIdle c sid) \<Longrightarrow> phase_timer (us_phase ss) op" using timersD [OF i(7)] s by (fastforce simp: phase_iffs)
qed

definition same_phase :: "srv_udp_phase \<Rightarrow> srv_udp_phase \<Rightarrow> bool" where
  "same_phase p q \<longleftrightarrow> p = q \<or> (\<exists>sock a t m m'. p = Live sock a t m \<and> q = Live sock a t m')"

lemma inv_same_session:
  assumes inv: "srv_inv sv" and C: "map_of (sv_conns sv) c = Some k" and S: "map_of (k_udp k) sid = Some ss"
    and ss: "us_stream ss' = us_stream ss" "us_idle_len ss' = us_idle_len ss" "defrag_inv (us_defrag ss')" and l: "conn_like k k'"
    and p: "same_phase (us_phase ss) (us_phase ss')"
  shows "srv_inv (put_conn c (k'\<lparr>k_udp := AList.update sid ss' (k_udp k)\<rparr>) sv)"
proof -
  note r = session_refs [OF inv C S]
  have "srv_inv (sv\<lparr>sv_conns := AList.update c (k'\<lparr>k_udp := AList.update sid ss' (k_udp k)\<rparr>) (sv_conns sv),
    sv_resolves := sv_resolves sv, sv_socket_opens := sv_socket_opens sv, sv_udp_socks := sv_udp_socks sv, sv_timers := sv_timers sv\<rparr>)"
  proof (rule inv_put_session [OF inv C S ss l])
    show "map_of (sv_resolves sv) op = Some cs \<and> cs \<noteq> (c, sid) \<or> cs = (c, sid) \<and> us_phase ss' = Resolving op"
      if "map_of (sv_resolves sv) op = Some cs" for op cs using that r(1) p by (auto simp: same_phase_def)
    show "map_of (sv_socket_opens sv) op = Some cs \<and> cs \<noteq> (c, sid) \<or> cs = (c, sid) \<and> phase_open (us_phase ss') op"
      if "map_of (sv_socket_opens sv) op = Some cs" for op cs using that r(2) p by (auto simp: same_phase_def)
    show "map_of (sv_udp_socks sv) op = Some cs \<and> cs \<noteq> (c, sid) \<or> cs = (c, sid) \<and> phase_sock (us_phase ss') op"
      if "map_of (sv_udp_socks sv) op = Some cs" for op cs using that r(3) p by (auto simp: same_phase_def)
    show "map_of (sv_timers sv) t = Some m \<and> m \<noteq> TmUdpIdle c sid \<or> m = TmUdpIdle c sid \<and> phase_timer (us_phase ss') t"
      if "map_of (sv_timers sv) t = Some m" for t m using that r(4) p by (auto simp: same_phase_def)
  qed
  then show ?thesis by simp
qed

section \<open>Admission and refusal\<close>

lemma inv_forget [simp]:
  assumes "srv_inv sv"
  shows "srv_inv (sv\<lparr>sv_resolves := AList.delete op (sv_resolves sv)\<rparr>)" "srv_inv (sv\<lparr>sv_socket_opens := AList.delete op (sv_socket_opens sv)\<rparr>)"
    "srv_inv (sv\<lparr>sv_timers := AList.delete op (sv_timers sv)\<rparr>)" "srv_inv (sv\<lparr>sv_dials := AList.delete op (sv_dials sv)\<rparr>)"
  using assms by (simp_all add: srv_inv_def refs_defs)

lemma negotiated_idle_le: "negotiated_idle r server \<le> varint_MAX"
proof -
  have m: "unat varint_MAX < 2 ^ 64" by (simp add: varint_MAX_def)
  have "(of_nat (min (server div 1000000) (unat varint_MAX)) :: u64) \<le> varint_MAX"
    using m by (simp add: word_le_nat_alt unat_of_nat min_def)
  then show ?thesis by (auto simp: negotiated_idle_def Let_def min_def)
qed

lemma timer_ok_change:
  assumes "timer_ok C D t m" and "m \<noteq> TmRequest s" and "\<And>c sid. m = TmUdpIdle c sid \<Longrightarrow> sess C' c sid = sess C c sid"
  shows "timer_ok C' (D(s := dopt)) t m"
  using assms by (cases m) auto

lemma inv_admit:
  assumes inv: "srv_inv sv" and D: "map_of (sv_data sv) s = Some d" and p: "da_phase d = Request t"
    and C: "map_of (sv_conns sv) (da_conn d) = Some k" and new: "map_of (k_udp k) sid = None"
    and room: "length (k_udp k) < MAX_SESSIONS_PER_CONN"
    and ss: "us_stream ss = s" "us_phase ss = Resolving op" "us_idle_len ss div 1000000 \<le> unat varint_MAX" "defrag_inv (us_defrag ss)"
  shows "srv_inv (sv\<lparr>sv_resolves := AList.update op (da_conn d, sid) (sv_resolves sv), sv_timers := AList.delete t (sv_timers sv),
    sv_data := AList.update s (d\<lparr>da_phase := Udp sid\<rparr>) (sv_data sv),
    sv_conns := AList.update (da_conn d) (k\<lparr>k_udp := AList.update sid ss (k_udp k)\<rparr>) (sv_conns sv)\<rparr>)"
proof -
  note i = srv_invD [OF inv]
  let ?C = "map_of (sv_conns sv)" and ?D = "map_of (sv_data sv)" and ?k = "k\<lparr>k_udp := AList.update sid ss (k_udp k)\<rparr>"
  let ?C' = "?C(da_conn d \<mapsto> ?k)" and ?d = "d\<lparr>da_phase := Udp sid\<rparr>"
  have o: "conn_ok ?D (da_conn d) k" by (rule tables_connD [OF i(2) C])
  have old: "us_stream ss' \<noteq> s" if "map_of (k_udp k) sid' = Some ss'" for sid' ss'
    using session_stream [OF i(2) C D that] p by auto
  have "tables_ok ?C' (?D(s \<mapsto> ?d))"
  proof (rule tables_change [OF i(2) C D refl])
    show "stream_change s k ?k (Some ?d)"
      using o room old new ss by (auto simp: stream_change_def conn_ok_def length_update distinct_update)
  qed (use data_buffer [OF inv D] ss in \<open>auto simp: buffer_ok_def\<close>)
  moreover have none: "sess ?C (da_conn d) sid = None" using C new by (simp add: sess_def)
  have e: "sess ?C' c' sid' = sess ?C c' sid'" if "(c', sid') \<noteq> (da_conn d, sid)" for c' sid' using that C by (auto simp: sess_def)
  have n: "sess ?C' (da_conn d) sid = Some ss" by simp
  have "resolves_ok ?C' (map_of (AList.update op (da_conn d, sid) (sv_resolves sv)))"
  proof (rule resolves_step [OF i(4)])
    fix op' c' sid' assume a: "map_of (AList.update op (da_conn d, sid) (sv_resolves sv)) op' = Some (c', sid')"
    show "map_of (sv_resolves sv) op' = Some (c', sid') \<and> sess ?C' c' sid' = sess ?C c' sid' \<or> (\<exists>t. sess ?C' c' sid' = Some t \<and> us_phase t = Resolving op')"
    proof (cases "op' = op")
      case True
      then show ?thesis using a n ss(2) by simp
    next
      case False
      then have r: "map_of (sv_resolves sv) op' = Some (c', sid')" using a by simp
      then have "(c', sid') \<noteq> (da_conn d, sid)" using resolvesD [OF i(4) r] none by auto
      then show ?thesis using r e by blast
    qed
  qed
  moreover have "opens_ok ?C' (map_of (sv_socket_opens sv))"
    by (rule opens_step [OF i(5)]) (use opensD [OF i(5)] none e in \<open>metis option.distinct(1) prod.inject\<close>)
  moreover have "socks_ok ?C' (map_of (sv_udp_socks sv))"
    by (rule socks_step [OF i(6)]) (use socksD [OF i(6)] none e in \<open>metis option.distinct(1) prod.inject\<close>)
  moreover have "dials_ok (?D(s \<mapsto> ?d)) (map_of (sv_dials sv))"
    by (rule dials_step [OF i(3)]) (use no_dial [OF inv D] p in auto)
  moreover have "timers_ok ?C' (?D(s \<mapsto> ?d)) (map_of (AList.delete t (sv_timers sv)))"
  proof (rule timers_step [OF i(7)], intro disjI1 conjI impI)
    fix t' m assume a: "map_of (AList.delete t (sv_timers sv)) t' = Some m"
    then have "map_of (sv_timers (left_request (da_phase d) sv)) t' = Some m" using p by (simp add: left_request_def)
    note l = left_request_timers [OF inv D this]
    show "map_of (sv_timers sv) t' = Some m" by (rule l(1))
    show "timer_ok ?C' (?D(s \<mapsto> ?d)) t' m" if "timer_ok ?C ?D t' m"
      by (rule timer_ok_change [OF that l(2)]) (use that none in \<open>intro e, auto\<close>)
  qed
  ultimately show ?thesis using i(1) by (simp add: srv_inv_def distinct_update)
qed

lemma inv_refused:
  assumes inv: "srv_inv sv" and C: "map_of (sv_conns sv) c = Some k" and S: "map_of (k_udp k) sid = Some ss"
    and D: "map_of (sv_data sv) (us_stream ss) = Some d" and c: "da_conn d = c" and p: "da_phase d = Udp sid"
    and re: "\<And>op. map_of (sv_resolves sv) op \<noteq> Some (c, sid)" and so: "\<And>op. map_of (sv_socket_opens sv) op \<noteq> Some (c, sid)"
    and sk: "\<And>op. map_of (sv_udp_socks sv) op \<noteq> Some (c, sid)" and tm: "\<And>op. map_of (sv_timers sv) op \<noteq> Some (TmUdpIdle c sid)"
  shows "srv_inv (retired (us_stream ss) d tx (put_conn c (without_session sid k) sv))"
proof -
  note i = srv_invD [OF inv]
  let ?C = "map_of (sv_conns sv)" and ?D = "map_of (sv_data sv)" and ?s = "us_stream ss"
  let ?C' = "?C(c \<mapsto> without_session sid k)" and ?d = "d\<lparr>da_phase := Retiring, da_rx := [], da_tx := tx\<rparr>"
  have "tables_ok ?C' (?D(?s \<mapsto> ?d))"
  proof (rule tables_change [OF i(2) C D c])
    show "stream_change ?s k (without_session sid k) (Some ?d)"
      using C c by (intro session_gone [OF i(2) D _ p]) (simp_all add: without_session_def)
  qed (use c in \<open>simp_all add: buffer_ok_def\<close>)
  moreover have e: "sess ?C' c' sid' = sess ?C c' sid'" if "(c', sid') \<noteq> (c, sid)" for c' sid'
    using that C by (auto simp: sess_def without_session_def)
  moreover have "resolves_ok ?C' (map_of (sv_resolves sv))" by (rule resolves_step [OF i(4)]) (use re e in metis)
  moreover have "opens_ok ?C' (map_of (sv_socket_opens sv))" by (rule opens_step [OF i(5)]) (use so e in metis)
  moreover have "socks_ok ?C' (map_of (sv_udp_socks sv))" by (rule socks_step [OF i(6)]) (use sk e in metis)
  moreover have "dials_ok (?D(?s \<mapsto> ?d)) (map_of (sv_dials sv))"
    by (rule dials_step [OF i(3)]) (use no_dial [OF inv D] p in auto)
  moreover have "timers_ok ?C' (?D(?s \<mapsto> ?d)) (map_of (sv_timers sv))"
  proof (rule timers_step [OF i(7)], intro disjI1 conjI impI)
    fix t m assume a: "map_of (sv_timers sv) t = Some m"
    show "map_of (sv_timers sv) t = Some m" by (rule a)
    have "m \<noteq> TmUdpIdle c sid" using a tm by blast
    then show "timer_ok ?C' (?D(?s \<mapsto> ?d)) t m" if "timer_ok ?C ?D t m"
      by (intro timer_ok_change [OF that]) (use that D p in \<open>auto intro!: e simp del: sess_upd\<close>)
  qed
  ultimately show ?thesis using i(1) p by (simp add: srv_inv_def retired_def left_request_def distinct_update)
qed

section \<open>The handlers of a UDP session\<close>

lemma step_ok_weaken:
  assumes "step_ok left hist sv1 x r" and "frame sv sv1" and "sv_data sv1 = sv_data sv"
  shows "step_ok left hist sv x r"
  using assms frame_trans [of sv sv1 "fst r"] by (simp add: step_ok_def)

lemma retire_request:
  assumes "srv_inv sv" and "map_of (sv_data sv) s = Some d" and "da_phase d = Request t"
  shows "srv_inv (retired s d tx sv)"
  by (rule retired_inv [OF assms(1,2)]) (use no_dial [OF assms(1,2)] assms(3) in auto)

lemma udp_open_ok:
  assumes env: "env_ok cx left hist" and inv: "srv_inv sv" and D: "map_of (sv_data sv) s = Some d" and p: "da_phase d = Request t"
  shows "returns (udp_open cx s sid target ms sv x)
    (\<lambda>r. step_ok left hist sv x r \<and> (\<forall>d t. map_of (sv_data (fst r)) s = Some d \<longrightarrow> da_phase d \<noteq> Request t))"
    (is "returns _ ?Q")
proof -
  have refuse: "returns (Option.bind (udp_resp (Err e)) (\<lambda>r. respond_error cx s r sv x)) ?Q" for e
  proof -
    obtain b where b: "udp_resp (Err e) = Some b" using udp_resp_ok [of "Err e"] by auto
    have "returns (respond_error cx s b sv x) ?Q"
      by (rule returns_mono [OF respond_error_ok [OF env D retire_request [OF inv D p]]]) auto
    then show ?thesis using b by simp
  qed
  have dup: "returns (drop_data cx s True sv x) ?Q"
    by (rule returns_mono [OF drop_data_ok [OF env inv]]) auto
  from live_conn [OF inv D] obtain k where C: "map_of (sv_conns sv) (da_conn d) = Some k" by metis
  show ?thesis
  proof (cases "scf_udp_enabled (sv_cfg sv) \<and> map_of (k_udp k) sid = None \<and> length (k_udp k) < MAX_SESSIONS_PER_CONN \<and> target \<noteq> None")
    case False
    then show ?thesis using D C refuse dup by (auto simp: udp_open_def Let_def)
  next
    case True
    then obtain tg where tg: "target = Some tg" by blast
    obtain op x1 where o: "cx_resolve cx tg (scf_dial_deadline (sv_cfg sv)) x = (op, x1)" by (metis prod.exhaust)
    let ?ss = "\<lparr>us_stream = s, us_phase = Resolving op,
      us_idle_len = duration_millis (unat (negotiated_idle ms (scf_udp_idle_timeout (sv_cfg sv)))), us_defrag = defrag_new, us_packet_id = 0\<rparr>"
    let ?sv = "sv\<lparr>sv_resolves := AList.update op (da_conn d, sid) (sv_resolves sv), sv_timers := AList.delete t (sv_timers sv),
      sv_data := AList.update s (d\<lparr>da_phase := Udp sid\<rparr>) (sv_data sv),
      sv_conns := AList.update (da_conn d) (k\<lparr>k_udp := AList.update sid ?ss (k_udp k)\<rparr>) (sv_conns sv)\<rparr>"
    have "srv_inv ?sv"
      by (rule inv_admit [OF inv D p C])
        (use True negotiated_idle_le in \<open>simp_all add: duration_millis_def defrag_inv_new word_le_nat_alt\<close>)
    moreover have "udp_open cx s sid target ms sv x = Some (?sv, cx_do cx (CxCancelTimer t) x1)"
      using True tg D C p o by (simp add: udp_open_def Let_def leave_request_def srv_cancel_def)
    moreover have "quiet left hist x (cx_do cx (CxCancelTimer t) x1)"
      using env_resolve [OF env, of x tg] o by (metis quiet_do [OF env] snd_conv)
    moreover have "frame sv ?sv" using D C by (auto simp: frame_def)
    ultimately show ?thesis by (simp add: step_okI)
  qed
qed

lemma srv_refuse_ok:
  assumes env: "env_ok cx left hist" and inv: "srv_inv sv" and C: "map_of (sv_conns sv) c = Some k" and S: "map_of (k_udp k) sid = Some ss"
    and re: "\<And>op. map_of (sv_resolves sv) op \<noteq> Some (c, sid)" and so: "\<And>op. map_of (sv_socket_opens sv) op \<noteq> Some (c, sid)"
    and sk: "\<And>op. map_of (sv_udp_socks sv) op \<noteq> Some (c, sid)" and tm: "\<And>op. map_of (sv_timers sv) op \<noteq> Some (TmUdpIdle c sid)"
  shows "returns (srv_refuse cx c sid e sv x) (step_ok left hist sv x)"
proof -
  from tables_sessD [OF srv_invD(2) [OF inv] C S] obtain d where
    d: "map_of (sv_data sv) (us_stream ss) = Some d" "da_conn d = c" "da_phase d = Udp sid" by (auto simp: session_ok_def)
  let ?sv = "put_conn c (without_session sid k) sv"
  obtain b where b: "udp_resp (Err e) = Some b" using udp_resp_ok [of "Err e"] by auto
  have d': "map_of (sv_data ?sv) (us_stream ss) = Some d" using d by simp
  have "frame sv ?sv" using C by (simp add: frame_def without_session_def)
  then have "returns (respond_error cx (us_stream ss) b ?sv x) (step_ok left hist sv x)"
    by (intro returns_mono [OF respond_error_ok [OF env d' inv_refused [OF inv C S d re so sk tm]]])
      (auto intro: step_ok_weaken)
  then show ?thesis using C S b by (simp add: srv_refuse_def take_session_def without_session_def)
qed

lemma udp_resolved_ok:
  assumes env: "env_ok cx left hist" and inv: "srv_inv sv"
  shows "returns (udp_resolved cx op r sv x) (step_ok left hist sv x)"
proof (cases "map_of (sv_resolves sv) op")
  case None
  then show ?thesis using inv by (simp add: udp_resolved_def step_ok_def)
next
  case (Some cs)
  obtain c sid where cs: "cs = (c, sid)" by (cases cs)
  note i = srv_invD [OF inv]
  from resolvesD [OF i(4), of op c sid] Some cs obtain k ss where C: "map_of (sv_conns sv) c = Some k"
    and S: "map_of (k_udp k) sid = Some ss" and p: "us_phase ss = Resolving op" by (auto simp: sess_def split: option.splits)
  let ?sv = "sv\<lparr>sv_resolves := AList.delete op (sv_resolves sv)\<rparr>"
  have inv': "srv_inv ?sv" using inv by simp
  note refs = session_refs [OF inv C S, unfolded p phase_open.simps phase_sock.simps phase_timer.simps]
  show ?thesis
  proof (cases r)
    case (Err e)
    have "returns (srv_refuse cx c sid UdpDnsFailed ?sv x) (step_ok left hist ?sv x)"
      by (rule srv_refuse_ok [OF env inv']) (use C S refs in \<open>auto split: if_splits\<close>)
    then have "returns (srv_refuse cx c sid UdpDnsFailed ?sv x) (step_ok left hist sv x)"
      by (rule returns_mono) (erule step_ok_weaken, simp_all add: frame_def)
    then show ?thesis using Some cs Err by (simp add: udp_resolved_def)
  next
    case (Ok addr)
    let ?local = "case addr of SockV4 _ _ \<Rightarrow> IpV4 0 | SockV6 _ _ _ _ \<Rightarrow> IpV6 0"
    obtain op' x1 where o: "cx_open_app_udp_socket cx ?local x = (op', x1)" by (metis prod.exhaust)
    let ?ss = "ss\<lparr>us_phase := Opening op' (srv_canonical addr)\<rparr>"
    let ?sv' = "sv\<lparr>sv_conns := AList.update c (k\<lparr>k_udp := AList.update sid ?ss (k_udp k)\<rparr>) (sv_conns sv),
      sv_resolves := AList.delete op (sv_resolves sv), sv_socket_opens := AList.update op' (c, sid) (sv_socket_opens sv),
      sv_udp_socks := sv_udp_socks sv, sv_timers := sv_timers sv\<rparr>"
    have "srv_inv ?sv'"
      by (rule inv_put_session [OF inv C S])
        (use refs tables_sessD [OF i(2) C S] in \<open>auto simp: session_ok_def split: if_splits\<close>)
    moreover have "udp_resolved cx op r sv x = Some (?sv', x1)"
      using Some cs Ok C S o by (simp add: udp_resolved_def Let_def get_session_def)
    moreover have "quiet left hist x x1" using env_open_udp [OF env, of x ?local] o by simp
    moreover have "frame sv ?sv'" using C by (simp add: frame_def)
    ultimately show ?thesis by (simp add: step_okI)
  qed
qed

lemma conn_like_simps [simp]:
  "conn_like k (k\<lparr>k_counters := n\<rparr>)" "conn_like k (k\<lparr>k_mss := m, k_counters := n\<rparr>)" "conn_like k (k\<lparr>k_timer := t\<rparr>)"
  "conn_like k (k\<lparr>k_closing := b, k_timer := t\<rparr>)" "pre_open_inv po \<Longrightarrow> conn_like k (k\<lparr>k_preopen := po\<rparr>)"
  "pre_open_inv po \<Longrightarrow> conn_like k (k\<lparr>k_preopen := po, k_counters := n\<rparr>)"
  by (simp_all add: conn_like_def)

lemma conn_preopen: "srv_inv sv \<Longrightarrow> map_of (sv_conns sv) c = Some k \<Longrightarrow> pre_open_inv (k_preopen k)"
  using tables_connD [OF srv_invD(2)] by (auto simp: conn_ok_def)

lemma session_defrag: "srv_inv sv \<Longrightarrow> map_of (sv_conns sv) c = Some k \<Longrightarrow> map_of (k_udp k) sid = Some ss \<Longrightarrow> defrag_inv (us_defrag ss)"
  using tables_sessD [OF srv_invD(2)] by (auto simp: session_ok_def)

lemma put_like_step:
  assumes "srv_inv sv" and "map_of (sv_conns sv) c = Some k" and "conn_like k k'" and "k_ctrl k' = k_ctrl k" and "quiet left hist x x'"
  shows "step_ok left hist sv x (put_conn c k' sv, x')"
  by (rule step_okI [OF srv_inv_conn_like [OF assms(1-3)] frame_put_conn [OF assms(2,4)] assms(5)])

lemma put_session_step:
  assumes "srv_inv sv" and "map_of (sv_conns sv) c = Some k" and "map_of (k_udp k) sid = Some ss"
    and "us_stream ss' = us_stream ss" and "us_idle_len ss' = us_idle_len ss" and "defrag_inv (us_defrag ss')"
    and "conn_like k k'" and "k_ctrl k' = k_ctrl k" and "same_phase (us_phase ss) (us_phase ss')" and "quiet left hist x x'"
  shows "step_ok left hist sv x (put_conn c (k'\<lparr>k_udp := AList.update sid ss' (k_udp k)\<rparr>) sv, x')"
  by (rule step_okI [OF inv_same_session [OF assms(1-7,9)] frame_put_conn [OF assms(2)] assms(10)]) (simp add: assms(8))

lemma deliver_live_ok:
  assumes env: "env_ok cx left hist" and inv: "srv_inv sv" and C: "map_of (sv_conns sv) c = Some k"
    and S: "map_of (k_udp k) (umh_session_id h) = Some ss" and p: "us_phase ss = Live sock a t m"
  shows "step_ok left hist sv x (deliver_live cx c k h body ss (sock, a, t) sv x)"
proof -
  obtain r df where f: "defrag_feed (us_defrag ss) h body = (r, df)" by (metis prod.exhaust)
  have df: "defrag_inv df" by (rule defrag_feed_inv(1) [OF session_defrag [OF inv C S] f])
  have put: "step_ok left hist sv x (put_conn c (k\<lparr>k_counters := n, k_udp := AList.update (umh_session_id h) ss' (k_udp k)\<rparr>) sv, x')"
    if "us_stream ss' = us_stream ss" "us_idle_len ss' = us_idle_len ss" "us_defrag ss' = df"
      "same_phase (us_phase ss) (us_phase ss')" "quiet left hist x x'" for ss' n x'
    using put_session_step [OF inv C S that(1,2) _ _ _ that(4,5), of "k\<lparr>k_counters := n\<rparr>"] that(3) df by simp
  have put0: "step_ok left hist sv x (put_session c k (umh_session_id h) ss' sv, x')"
    if "us_stream ss' = us_stream ss" "us_idle_len ss' = us_idle_len ss" "us_defrag ss' = df"
      "same_phase (us_phase ss) (us_phase ss')" "quiet left hist x x'" for ss' x'
    using put [OF that, of "k_counters k"] by simp
  have same: "same_phase (Live sock a t m) (Live sock a t m')" for m' by (simp add: same_phase_def)
  have q: "quiet left hist x (snd (cx_udp_send cx sock a p' x))" for p' by (rule env_udp_send [OF env])
  have q': "quiet left hist x x'" if "cx_udp_send cx sock a p' x = (res, x')" for p' res x' using q [of p'] that by simp
  show ?thesis
    by (auto simp: deliver_live_def f Let_def p same same_phase_def intro!: put put0 dest!: q' split: feed_result.splits result.splits prod.splits)
qed

lemma udp_deliver_ok:
  assumes env: "env_ok cx left hist" and inv: "srv_inv sv"
  shows "step_ok left hist sv x (udp_deliver cx c d sv x)"
proof (cases "map_of (sv_conns sv) c")
  case None
  then show ?thesis using inv by (simp add: udp_deliver_def step_ok_def)
next
  case (Some k)
  have park: "step_ok left hist sv x (put_conn c (preopen_park cx k sid d) sv, x)" for sid
    using pre_open_push_inv [OF conn_preopen [OF inv Some], of "cx_now cx" sid d]
    by (cases "pre_open_push (k_preopen k) (cx_now cx) sid d") (intro put_like_step [OF inv Some], simp_all add: preopen_park_def)
  have drop: "step_ok left hist sv x (put_conn c (k\<lparr>k_counters := n\<rparr>) sv, x)" for n
    by (rule put_like_step [OF inv Some]) simp_all
  have stay: "step_ok left hist sv x (sv, x)" using inv by (simp add: step_ok_def)
  have live: "step_ok left hist sv x (deliver_live cx c k h body ss (sock, a, t) sv x)"
    if "map_of (k_udp k) (umh_session_id h) = Some ss" "us_phase ss = Live sock a t m" for h body ss sock a t m
    by (rule deliver_live_ok [OF env inv Some that])
  show ?thesis
    by (simp add: udp_deliver_def Some park drop stay live split: option.splits srv_udp_phase.splits)
qed

lemma udp_deliver_all_ok:
  assumes env: "env_ok cx left hist" and inv: "srv_inv sv"
  shows "step_ok left hist sv x (fold (\<lambda>d (sv, x). udp_deliver cx c d sv x) ds (sv, x))"
  using inv
proof (induction ds arbitrary: sv x)
  case Nil
  then show ?case by (simp add: step_ok_def)
next
  case (Cons d ds)
  obtain sv1 x1 where e: "udp_deliver cx c d sv x = (sv1, x1)" by (metis prod.exhaust)
  have st: "step_ok left hist sv x (sv1, x1)" using udp_deliver_ok [OF env Cons.prems, of x c d] e by simp
  then have "srv_inv sv1" by (simp add: step_ok_def)
  from step_ok_trans [OF st Cons.IH [OF this]] e show ?case by simp
qed

lemma srv_udp_inbound_ok:
  assumes env: "env_ok cx left hist" and inv: "srv_inv sv"
  shows "returns (srv_udp_inbound cx c sv x) (step_ok left hist sv x)"
  using inv
proof (induction "left x" arbitrary: sv x rule: less_induct)
  case less
  obtain r x1 where r: "cx_datagram_recv cx c MAX_DGRAM x = (r, x1)" by (metis prod.exhaust)
  have b: "case r of Some _ \<Rightarrow> left x1 < left x \<and> hist x1 = hist x | None \<Rightarrow> quiet left hist x x1"
    using env r unfolding env_ok_def by (metis (no_types, lifting) case_prod_conv option.case_eq_if)
  show ?case
  proof (cases r)
    case None
    then show ?thesis using r b less.prems by (subst srv_udp_inbound.simps) (simp add: step_okI)
  next
    case (Some bs)
    obtain sv1 x2 where e: "udp_deliver cx c (take MAX_DGRAM bs) sv x1 = (sv1, x2)" by (metis prod.exhaust)
    have st1: "step_ok left hist sv x1 (sv1, x2)" using udp_deliver_ok [OF env less.prems, of x1] e by metis
    have st0: "step_ok left hist sv x (sv, x1)" by (rule step_okI [OF less.prems frame_refl]) (use b Some in \<open>simp add: quiet_def\<close>)
    note st = step_ok_trans [OF st0 st1]
    have "left x2 < left x" using st1 b Some by (simp add: step_ok_def reads_only_def)
    moreover have "srv_inv sv1" using st1 by (simp add: step_ok_def)
    ultimately have "returns (srv_udp_inbound cx c sv1 x2) (step_ok left hist sv1 x2)" by (rule less.hyps)
    from step_ok_then [OF st this] show ?thesis using r Some e by (subst srv_udp_inbound.simps) simp
  qed
qed

lemma udp_live_ok:
  assumes inv: "srv_inv sv" and C: "map_of (sv_conns sv) c = Some k" and S: "map_of (k_udp k) sid = Some ss" and p: "us_phase ss = Opening op a"
  shows "srv_inv (sv\<lparr>sv_socket_opens := AList.delete op (sv_socket_opens sv), sv_timers := AList.update t (TmUdpIdle c sid) (sv_timers sv),
    sv_udp_socks := AList.update sock (c, sid) (sv_udp_socks sv),
    sv_conns := AList.update c (k\<lparr>k_udp := AList.update sid (ss\<lparr>us_phase := Live sock a t now\<rparr>) (k_udp k)\<rparr>) (sv_conns sv)\<rparr>)"
proof -
  have "srv_inv (sv\<lparr>sv_conns := AList.update c (k\<lparr>k_udp := AList.update sid (ss\<lparr>us_phase := Live sock a t now\<rparr>) (k_udp k)\<rparr>) (sv_conns sv),
    sv_resolves := sv_resolves sv, sv_socket_opens := AList.delete op (sv_socket_opens sv),
    sv_udp_socks := AList.update sock (c, sid) (sv_udp_socks sv), sv_timers := AList.update t (TmUdpIdle c sid) (sv_timers sv)\<rparr>)" (is "srv_inv ?a")
    by (rule inv_put_session [OF inv C S])
      (use session_refs [OF inv C S, unfolded p phase_open.simps phase_sock.simps phase_timer.simps] session_defrag [OF inv C S]
       in \<open>auto split: if_splits\<close>)
  moreover have "?a = sv\<lparr>sv_socket_opens := AList.delete op (sv_socket_opens sv), sv_timers := AList.update t (TmUdpIdle c sid) (sv_timers sv),
    sv_udp_socks := AList.update sock (c, sid) (sv_udp_socks sv),
    sv_conns := AList.update c (k\<lparr>k_udp := AList.update sid (ss\<lparr>us_phase := Live sock a t now\<rparr>) (k_udp k)\<rparr>) (sv_conns sv)\<rparr>" by simp
  ultimately show ?thesis by (simp only:)
qed

lemma udp_socket_ok:
  assumes env: "env_ok cx left hist" and inv: "srv_inv sv"
  shows "returns (udp_socket cx op r sv x) (step_ok left hist sv x)"
proof (cases "map_of (sv_socket_opens sv) op")
  case None
  then show ?thesis using inv by (simp add: udp_socket_def step_ok_def)
next
  case (Some cs)
  obtain c sid where cs: "cs = (c, sid)" by (cases cs)
  note i = srv_invD [OF inv]
  from opensD [OF i(5), of op c sid] Some cs obtain k ss a where C: "map_of (sv_conns sv) c = Some k"
    and S: "map_of (k_udp k) sid = Some ss" and p: "us_phase ss = Opening op a" by (auto simp: sess_def split: option.splits)
  note refs = session_refs [OF inv C S, unfolded p phase_open.simps phase_sock.simps phase_timer.simps]
  show ?thesis
  proof (cases r)
    case (Err e)
    let ?sv = "sv\<lparr>sv_socket_opens := AList.delete op (sv_socket_opens sv)\<rparr>"
    have inv': "srv_inv ?sv" using inv by simp
    have "returns (srv_refuse cx c sid UdpSocketFailed ?sv x) (step_ok left hist ?sv x)"
      by (rule srv_refuse_ok [OF env inv']) (use C S refs in \<open>auto split: if_splits\<close>)
    then have "returns (srv_refuse cx c sid UdpSocketFailed ?sv x) (step_ok left hist sv x)"
      by (rule returns_mono) (erule step_ok_weaken, simp_all add: frame_def)
    then show ?thesis using Some cs Err by (simp add: udp_socket_def)
  next
    case (Ok sl)
    obtain sock l where sl: "sl = (sock, l)" by (cases sl)
    obtain t x1 where t: "cx_set_timer cx (time_add (cx_now cx) (us_idle_len ss)) x = (t, x1)" by (metis prod.exhaust)
    from tables_sessD [OF i(2) C S] obtain d where d: "map_of (sv_data sv) (us_stream ss) = Some d" "da_conn d = c" "da_phase d = Udp sid"
      and idle: "us_idle_len ss div 1000000 \<le> unat varint_MAX" by (auto simp: session_ok_def)
    have "(of_nat (us_idle_len ss div 1000000) :: u64) \<le> varint_MAX"
      using idle unsigned_less [of varint_MAX, where ?'a = nat] by (simp add: word_le_nat_alt unat_of_nat)
    then obtain resp where resp: "udp_resp (Ok (of_nat (us_idle_len ss div 1000000))) = Some resp" using udp_resp_ok by fastforce
    obtain ok tx x2 where f: "flush cx (us_stream ss) resp False x1 = (ok, tx, x2)" by (metis prod_cases3)
    let ?s1 = "sv\<lparr>sv_socket_opens := AList.delete op (sv_socket_opens sv), sv_timers := AList.update t (TmUdpIdle c sid) (sv_timers sv),
      sv_udp_socks := AList.update sock (c, sid) (sv_udp_socks sv),
      sv_conns := AList.update c (k\<lparr>k_udp := AList.update sid (ss\<lparr>us_phase := Live sock a t (cx_now cx)\<rparr>) (k_udp k)\<rparr>) (sv_conns sv)\<rparr>"
    let ?s2 = "put_data (us_stream ss) (d\<lparr>da_tx := tx\<rparr>) ?s1"
    have i1: "srv_inv ?s1" by (rule udp_live_ok [OF inv C S p])
    have i2: "srv_inv ?s2" by (rule inv_put_same [OF i1, where d = d]) (use d(1) data_buffer [OF inv d(1)] in simp_all)
    have q: "quiet left hist x x2"
      using env_timer [OF env, of x] flush_quiet [OF env, of x1] t f by (metis quiet_trans snd_conv)
    have st: "step_ok left hist sv x (?s2, x2)" by (rule step_okI [OF i2 _ q]) (use C d in \<open>auto simp: frame_def\<close>)
    let ?k = "k\<lparr>k_udp := AList.update sid (ss\<lparr>us_phase := Live sock a t (cx_now cx)\<rparr>) (k_udp k)\<rparr>"
    obtain ds po where po: "pre_open_take (k_preopen k) (cx_now cx) sid = (ds, po)" by (metis prod.exhaust)
    let ?s3 = "put_conn c (?k\<lparr>k_preopen := po\<rparr>) ?s2"
    have "pre_open_inv po" using pre_open_take_inv [OF conn_preopen [OF inv C], of "cx_now cx" sid] po by simp
    then have st3: "step_ok left hist ?s2 x2 (?s3, x2)" by (intro put_like_step [OF i2, of c ?k]) simp_all
    then have "srv_inv ?s3" by (simp add: step_ok_def)
    from step_ok_trans [OF st step_ok_trans [OF st3 udp_deliver_all_ok [OF env this]]]
    have "step_ok left hist sv x (fold (\<lambda>d (sv, x). udp_deliver cx c d sv x) ds (?s3, x2))" .
    moreover have "udp_socket cx op r sv x = (if ok then Some (fold (\<lambda>d (sv, x). udp_deliver cx c d sv x) ds (?s3, x2))
        else drop_data cx (us_stream ss) True ?s2 x2)"
      using Some cs Ok sl C S p d t resp f po by (simp add: udp_socket_def get_session_def srv_timer_def Let_def)
    ultimately show ?thesis using step_ok_then [OF st drop_data_step [OF env i2]] by simp
  qed
qed

lemma udp_reply_ok:
  assumes env: "env_ok cx left hist" and inv: "srv_inv sv"
  shows "returns (udp_reply cx sock peer data sv x) (step_ok left hist sv x)"
proof (cases "map_of (sv_udp_socks sv) sock")
  case None
  then show ?thesis using inv by (simp add: udp_reply_def step_ok_def)
next
  case (Some cs)
  obtain c sid where cs: "cs = (c, sid)" by (cases cs)
  from socksD [OF srv_invD(6) [OF inv], of sock c sid] Some cs obtain k ss a t m where C: "map_of (sv_conns sv) c = Some k"
    and S: "map_of (k_udp k) sid = Some ss" and p: "us_phase ss = Live sock a t m" by (auto simp: sess_def split: option.splits)
  obtain out x1 mss n where sp: "send_packet (cx_datagram_mss cx c) (cx_datagram_send cx c) x (k_mss k) sid (us_packet_id ss) data (k_counters k)
      = (out, x1, mss, n)" by (metis prod_cases4)
  have q: "quiet left hist x x1"
    using send_packet_quiet [OF env, of x "cx_datagram_mss cx c" c "k_mss k" sid "us_packet_id ss" data "k_counters k"] sp by simp
  have put: "step_ok left hist sv x (put_conn c (k\<lparr>k_mss := mss, k_counters := n, k_udp := AList.update sid ss' (k_udp k)\<rparr>) sv, x1)"
    if "us_stream ss' = us_stream ss" "us_idle_len ss' = us_idle_len ss" "us_defrag ss' = us_defrag ss" "same_phase (us_phase ss) (us_phase ss')" for ss'
    using put_session_step [OF inv C S that(1,2) _ _ _ that(4) q, of "k\<lparr>k_mss := mss, k_counters := n\<rparr>"] that(3) session_defrag [OF inv C S]
    by simp
  have stay: "step_ok left hist sv x (sv, x)" using inv by (simp add: step_ok_def)
  show ?thesis
    using Some cs C S p sp stay by (auto simp: udp_reply_def get_session_def Let_def same_phase_def intro!: put)
qed

lemma udp_idle_ok:
  assumes env: "env_ok cx left hist" and inv: "srv_inv sv" and C: "map_of (sv_conns sv) c = Some k" and S: "map_of (k_udp k) sid = Some ss"
    and p: "us_phase ss = Live sock a t0 m" and tm: "\<And>t. map_of (sv_timers sv) t \<noteq> Some (TmUdpIdle c sid)"
  shows "returns (udp_idle cx c sid sv x) (step_ok left hist sv x)"
proof (cases "cx_now cx < time_add m (us_idle_len ss)")
  case False
  then show ?thesis using C S p drop_data_step [OF env inv] by (simp add: udp_idle_def get_session_def)
next
  case True
  let ?due = "time_add m (us_idle_len ss)"
  obtain t x1 where t: "cx_set_timer cx (time_add (cx_now cx) (time_sub ?due (cx_now cx))) x = (t, x1)" by (metis prod.exhaust)
  let ?sv = "sv\<lparr>sv_conns := AList.update c (k\<lparr>k_udp := AList.update sid (ss\<lparr>us_phase := Live sock a t m\<rparr>) (k_udp k)\<rparr>) (sv_conns sv),
    sv_resolves := sv_resolves sv, sv_socket_opens := sv_socket_opens sv, sv_udp_socks := sv_udp_socks sv,
    sv_timers := AList.update t (TmUdpIdle c sid) (sv_timers sv)\<rparr>"
  have "srv_inv ?sv"
    by (rule inv_put_session [OF inv C S])
      (use session_refs [OF inv C S, unfolded p phase_open.simps phase_sock.simps] session_defrag [OF inv C S] tm in \<open>auto split: if_splits\<close>)
  moreover have "quiet left hist x x1" using env_timer [OF env, of x] t by (metis snd_conv)
  moreover have "frame sv ?sv" using C by (simp add: frame_def)
  moreover have "udp_idle cx c sid sv x = Some (?sv, x1)"
    using True C S p t by (simp add: udp_idle_def get_session_def srv_timer_def Let_def)
  ultimately show ?thesis by (simp add: step_okI)
qed

section \<open>Reading a data stream\<close>

lemma data_recv_ok:
  assumes env: "env_ok cx left hist" and b: "buffer_ok d" and p: "da_phase d \<noteq> Retiring"
  shows "\<exists>r rx x'. data_recv cx s d x = Some (r, rx, x') \<and> reads_more left hist s x x'
    \<and> buffer_ok (d\<lparr>da_rx := rx\<rparr>) \<and> (\<forall>n fin. r = RecvData n fin \<longrightarrow> 0 < n \<longrightarrow> left x' < left x)"
proof -
  have l: "length (da_rx d) \<le> RELAY_BUF" using b by (simp add: buffer_ok_def)
  define buf where "buf = (case da_phase d of Udp _ \<Rightarrow> [] | _ \<Rightarrow> da_rx d)"
  define cap where "cap = (case da_phase d of Request _ \<Rightarrow> REQ_BUF - length (da_rx d) | Udp _ \<Rightarrow> CHUNK
    | _ \<Rightarrow> if da_fin d then 0 else min CHUNK (RELAY_BUF - length (da_rx d)))"
  obtain r rx x' where r: "app_recv cx s buf cap x = (r, rx, x')" by (metis prod_cases3)
  have e: "data_recv cx s d x = Some (r, rx, x')"
    using b r p by (cases "da_phase d") (auto simp: data_recv_def buf_def cap_def buffer_ok_def)
  from app_recv_ok [OF env r] obtain bs where bs: "rx = buf @ bs" "length bs \<le> cap" "left x' + length bs \<le> left x"
    "\<And>n fin. r = RecvData n fin \<Longrightarrow> n = length bs" by blast
  have "buffer_ok (d\<lparr>da_rx := rx\<rparr>)"
    using b bs(1,2) p l by (cases "da_phase d") (auto simp: buffer_ok_def buf_def cap_def REQ_BUF_def RELAY_BUF_def CHUNK_def split: if_splits)
  moreover have "left x' < left x" if "r = RecvData n fin" "0 < n" for n fin using bs(3) bs(4) [OF that(1)] that(2) by linarith
  ultimately show ?thesis using e app_recv_more [OF env r] by blast
qed

lemma put_read_step:
  assumes "srv_inv sv" and "map_of (sv_data sv) s = Some d" and "da_conn d' = da_conn d" and "buffer_ok d'" and "da_phase d' = da_phase d"
    and "reads_more left hist s x x'"
  shows "step_ok left hist sv x (put_data s d' sv, x')"
  using inv_put_same [OF assms(1-5)] frame_put_data [OF assms(2), of d'] reads_more_only [OF assms(6), of "dom (map_of (sv_data sv))"] assms(2)
  by (auto simp: step_ok_def)

lemma step_ok_inv: "step_ok left hist sv x (sv', x') \<Longrightarrow> srv_inv sv'"
  by (simp add: step_ok_def)

lemma buffer_fin [simp]: "buffer_ok (d\<lparr>da_fin := f\<rparr>) = buffer_ok d" "buffer_ok (d\<lparr>da_rx := rx, da_fin := f\<rparr>) = buffer_ok (d\<lparr>da_rx := rx\<rparr>)"
  by (simp_all add: buffer_ok_def)

text \<open>A stream past its request: the reads stay within the buffer and the loop ends with the bytes.\<close>

lemma data_readable_late:
  assumes env: "env_ok cx left hist"
  shows "srv_inv sv \<Longrightarrow> (\<And>d t. map_of (sv_data sv) s = Some d \<Longrightarrow> da_phase d \<noteq> Request t) \<Longrightarrow>
    returns (data_readable cx s sv x) (step_ok left hist sv x)"
proof (induction "left x" arbitrary: sv x rule: less_induct)
  case less
  show ?case
  proof (cases "map_of (sv_data sv) s")
    case None
    then show ?thesis using less.prems(1) by (subst data_readable.simps) (simp add: step_ok_def)
  next
    case (Some d)
    show ?thesis
    proof (cases "da_phase d = Retiring")
      case True
      obtain ok x1 where dr: "drain cx s x = Some (ok, x1)" "reads_more left hist s x x1"
        using drain_returns [OF env, of s x] by (auto simp: returns_def)
      have st: "step_ok left hist sv x (sv, x1)"
        using reads_more_only [OF dr(2), of "dom (map_of (sv_data sv))"] Some less.prems(1) by (auto simp: step_ok_def)
      show ?thesis using Some True dr(1) st step_ok_then [OF st drop_data_step [OF env less.prems(1)]]
        by (subst data_readable.simps) simp
    next
      case False
      from data_recv_ok [OF env data_buffer [OF less.prems(1) Some] False] obtain r rx x1 where
        r: "data_recv cx s d x = Some (r, rx, x1)" and rd: "reads_more left hist s x x1" and b: "buffer_ok (d\<lparr>da_rx := rx\<rparr>)"
        and lt: "\<And>n fin. r = RecvData n fin \<Longrightarrow> 0 < n \<Longrightarrow> left x1 < left x" by metis
      have st: "step_ok left hist sv x (put_data s d' sv, x1)"
        if "da_conn d' = da_conn d" "buffer_ok d'" "da_phase d' = da_phase d" for d'
        by (rule put_read_step [OF less.prems(1) Some that rd])
      have drop: "returns (drop_data cx s reset (put_data s d' sv) x1) (step_ok left hist sv x)"
        if "da_conn d' = da_conn d" "buffer_ok d'" "da_phase d' = da_phase d" for d' reset
        by (rule step_ok_then [OF st [OF that] drop_data_step [OF env step_ok_inv [OF st [OF that]]]])
      have again: "returns (data_readable cx s (put_data s d' sv) x1) (step_ok left hist sv x)"
        if "da_conn d' = da_conn d" "buffer_ok d'" "da_phase d' = da_phase d" "r = RecvData n fin" "0 < n" for d' n fin
        by (rule step_ok_then [OF st [OF that(1-3)] less.hyps [OF lt [OF that(4,5)] step_ok_inv [OF st [OF that(1-3)]]]])
          (use less.prems(2) [OF Some] that(3) in simp)
      show ?thesis
      proof (cases r)
        case (RecvData n fin)
        have "\<forall>t. da_phase d \<noteq> Request t" using less.prems(2) [OF Some] by blast
        then show ?thesis using Some r b RecvData st drop again [OF _ _ _ RecvData] False
          by (subst data_readable.simps) (cases "da_phase d"; simp add: Let_def)
      qed (use Some r b False st drop in \<open>(subst data_readable.simps, simp)+\<close>)
    qed
  qed
qed

text \<open>What one parsed request turns into is past its request, so the lemma above carries the rest of the loop.\<close>

lemma step_late:
  assumes env: "env_ok cx left hist" and st: "step_ok left hist sv x (sv1, x1)"
    and m: "returns m (\<lambda>r. step_ok left hist sv1 x1 r \<and> (\<forall>d t. map_of (sv_data (fst r)) s = Some d \<longrightarrow> da_phase d \<noteq> Request t))"
  shows "returns (Option.bind m (\<lambda>(sv, x). data_readable cx s sv x)) (step_ok left hist sv x)"
proof -
  from m obtain sv2 x2 where e: "m = Some (sv2, x2)" and s2: "step_ok left hist sv1 x1 (sv2, x2)"
    and p: "\<And>d t. map_of (sv_data sv2) s = Some d \<Longrightarrow> da_phase d \<noteq> Request t" by (auto simp: returns_def)
  have "returns (data_readable cx s sv2 x2) (step_ok left hist sv2 x2)"
    by (rule data_readable_late [OF env step_ok_inv [OF s2] p])
  from step_ok_then [OF step_ok_trans [OF st s2] this] show ?thesis using e by simp
qed

lemma parsed_request_ok:
  assumes env: "env_ok cx left hist" and inv: "srv_inv sv" and D: "map_of (sv_data sv) s = Some d" and p: "da_phase d = Request t"
    and st: "step_ok left hist sv0 x0 (sv, x)"
  shows "returns (Option.bind (tcp_resp STATUS_ERROR TcpDnsFailed) (\<lambda>resp.
      Option.bind (respond_error cx s resp sv x) (\<lambda>(sv, x). data_readable cx s sv x))) (step_ok left hist sv0 x0)"
    and "returns (Option.bind (srv_dial cx s tg sv x) (\<lambda>(sv, x). data_readable cx s sv x)) (step_ok left hist sv0 x0)"
    and "returns (Option.bind (udp_open cx s sid target ms sv x) (\<lambda>(sv, x). data_readable cx s sv x)) (step_ok left hist sv0 x0)"
proof -
  obtain resp where r: "tcp_resp STATUS_ERROR TcpDnsFailed = Some resp" using tcp_resp_ok by blast
  have "returns (Option.bind (respond_error cx s resp sv x) (\<lambda>(sv, x). data_readable cx s sv x)) (step_ok left hist sv0 x0)"
    by (rule step_late [OF env st], rule returns_mono [OF respond_error_ok [OF env D retire_request [OF inv D p]]]) auto
  then show "returns (Option.bind (tcp_resp STATUS_ERROR TcpDnsFailed) (\<lambda>resp.
      Option.bind (respond_error cx s resp sv x) (\<lambda>(sv, x). data_readable cx s sv x))) (step_ok left hist sv0 x0)"
    using r by simp
  show "returns (Option.bind (srv_dial cx s tg sv x) (\<lambda>(sv, x). data_readable cx s sv x)) (step_ok left hist sv0 x0)"
    by (rule step_late [OF env st], rule returns_mono [OF srv_dial_ok [OF env inv D p]]) auto
  show "returns (Option.bind (udp_open cx s sid target ms sv x) (\<lambda>(sv, x). data_readable cx s sv x)) (step_ok left hist sv0 x0)"
    by (rule step_late [OF env st], rule udp_open_ok [OF env inv D p])
qed

lemma data_readable_ok:
  assumes env: "env_ok cx left hist"
  shows "srv_inv sv \<Longrightarrow> returns (data_readable cx s sv x) (step_ok left hist sv x)"
proof (induction "left x" arbitrary: sv x rule: less_induct)
  case less
  show ?case
  proof (cases "\<exists>d t. map_of (sv_data sv) s = Some d \<and> da_phase d = Request t")
    case False
    then show ?thesis by (intro data_readable_late [OF env less.prems]) blast
  next
    case True
    then obtain d t where D: "map_of (sv_data sv) s = Some d" and p: "da_phase d = Request t" by blast
    have nr: "da_phase d \<noteq> Retiring" using p by simp
    from data_recv_ok [OF env data_buffer [OF less.prems D] nr] obtain r rx x1 where
      r: "data_recv cx s d x = Some (r, rx, x1)" and rd: "reads_more left hist s x x1" and b: "buffer_ok (d\<lparr>da_rx := rx\<rparr>)"
      and lt: "\<And>n fin. r = RecvData n fin \<Longrightarrow> 0 < n \<Longrightarrow> left x1 < left x" by metis
    have st: "step_ok left hist sv x (put_data s d' sv, x1)"
      if "da_conn d' = da_conn d" "buffer_ok d'" "da_phase d' = da_phase d" for d'
      by (rule put_read_step [OF less.prems D that rd])
    have drop: "returns (drop_data cx s reset (put_data s d' sv) x1) (step_ok left hist sv x)"
      if "da_conn d' = da_conn d" "buffer_ok d'" "da_phase d' = da_phase d" for d' reset
      by (rule step_ok_then [OF st [OF that] drop_data_step [OF env step_ok_inv [OF st [OF that]]]])
    show ?thesis
    proof (cases r)
      case (RecvData n fin)
      obtain fd where fd: "(da_fin d \<or> fin) = fd" by blast
      let ?d = "d\<lparr>da_rx := rx, da_fin := fd\<rparr>"
      let ?e = "\<lambda>used. ?d\<lparr>da_rx := drop used rx\<rparr>"
      have b2: "buffer_ok (?e used)" for used using b by (auto simp: buffer_ok_def)
      have again: "returns (data_readable cx s (put_data s ?d sv) x1) (step_ok left hist sv x)" if "0 < n"
        by (rule step_ok_then [OF st less.hyps [OF lt [OF RecvData that] step_ok_inv [OF st]]]) (use b in simp_all)
      have s1: "step_ok left hist sv x (put_data s ?d sv, x1)" and s2: "step_ok left hist sv x (put_data s (?e used) sv, x1)" for used
        by (rule st; use b b2 in simp)+
      have p1: "da_phase ?d = Request t" and p2: "da_phase (?e used) = Request t" for used using p by simp_all
      have D1: "map_of (sv_data (put_data s ?d sv)) s = Some ?d" and D2: "map_of (sv_data (put_data s (?e used) sv)) s = Some (?e used)" for used
        by simp_all
      note q1 = parsed_request_ok(3) [OF env step_ok_inv [OF s1] D1 p1 s1] and q2 = parsed_request_ok(1,2) [OF env step_ok_inv [OF s2] D2 p2 s2]
      have dr: "returns (drop_data cx s True (put_data s ?d sv) x1) (step_ok left hist sv x)" by (rule drop) (use b in simp_all)
      have e: "data_readable cx s sv x =
        (case parse_request rx fd of
           ParsedWait \<Rightarrow> if n = 0 \<or> fin then Some (put_data s ?d sv, x1) else data_readable cx s (put_data s ?d sv) x1
         | ParsedBad \<Rightarrow> drop_data cx s True (put_data s ?d sv) x1
         | ParsedUndialable used \<Rightarrow>
             Option.bind (tcp_resp STATUS_ERROR TcpDnsFailed) (\<lambda>resp.
             Option.bind (respond_error cx s resp (put_data s (?e used) sv) x1) (\<lambda>(sv, x). data_readable cx s sv x))
         | ParsedDial used t \<Rightarrow> Option.bind (srv_dial cx s t (put_data s (?e used) sv) x1) (\<lambda>(sv, x). data_readable cx s sv x)
         | ParsedUdpOpen sid t idle \<Rightarrow>
             if fd then drop_data cx s True (put_data s ?d sv) x1
             else Option.bind (udp_open cx s sid t idle (put_data s ?d sv) x1) (\<lambda>(sv, x). data_readable cx s sv x))"
        unfolding fd [symmetric] using D r nr RecvData p
        by (subst data_readable.simps) (cases "parse_request rx (da_fin d \<or> fin)"; simp add: Let_def)
      show ?thesis unfolding e
        by (cases "parse_request rx fd") (use s1 again dr q1 q2 in \<open>simp_all only: parsed.case split: if_splits, simp_all\<close>)
    qed (use D r b nr st drop in \<open>(subst data_readable.simps, simp)+\<close>)
  qed
qed

end
