(* ===== verification/Server_Run.thy ===== *)
theory Server_Run
  imports Server_Safe
begin

text \<open>
  The server as a whole: the invariant of its control streams, the handlers of connections, control streams and callbacks,
  and every state that a sequence of callbacks reaches. What the server promises is stated of those states.
\<close>

section \<open>What a client has presented\<close>

text \<open>The bytes of a control stream begin with an authentication request that carries the token.\<close>

definition presented :: "bytes \<Rightarrow> bytes \<Rightarrow> bool" where
  "presented token bs \<longleftrightarrow>
     (case auth_req_decode bs of Ok (r, used) \<Rightarrow> used \<le> MAX_FRAME \<and> arq_auth_token r = token | Err _ \<Rightarrow> False)"

lemma presented_more: "presented token bs \<Longrightarrow> presented token (bs @ cs)"
  using arq.decode_more [of bs cs] by (cases "auth_req_decode bs") (auto simp: presented_def)

definition ctrl_ok :: "bytes \<Rightarrow> (stream_id \<Rightarrow> bytes) \<Rightarrow> srv_ctrl \<Rightarrow> bool" where
  "ctrl_ok token h t \<longleftrightarrow>
     (case ct_st t of Authing \<Rightarrow> ct_rx t = h (ct_s t) | Settled \<Rightarrow> presented token (h (ct_s t)) | Refused \<Rightarrow> True)"

definition ctrls_ok :: "bytes \<Rightarrow> (stream_id \<Rightarrow> bytes) \<Rightarrow> conn_map \<Rightarrow> data_map \<Rightarrow> bool" where
  "ctrls_ok token h C D \<longleftrightarrow>
     (\<forall>c k t. C c = Some k \<longrightarrow> k_ctrl k = Some t \<longrightarrow> ctrl_ok token h t \<and> D (ct_s t) = None
        \<and> (\<forall>c' k' t'. C c' = Some k' \<longrightarrow> k_ctrl k' = Some t' \<longrightarrow> ct_s t' = ct_s t \<longrightarrow> c' = c))"

definition safe :: "('x \<Rightarrow> stream_id \<Rightarrow> bytes) \<Rightarrow> bytes \<Rightarrow> server \<times> 'x \<Rightarrow> bool" where
  "safe hist token r \<longleftrightarrow> srv_inv (fst r) \<and> sv_token (fst r) = token
     \<and> ctrls_ok token (hist (snd r)) (map_of (sv_conns (fst r))) (map_of (sv_data (fst r)))"

lemma ctrlsD:
  assumes "ctrls_ok token h C D" and "C c = Some k" and "k_ctrl k = Some t"
  shows "ctrl_ok token h t" and "D (ct_s t) = None"
    and "\<And>c' k' t'. C c' = Some k' \<Longrightarrow> k_ctrl k' = Some t' \<Longrightarrow> ct_s t' = ct_s t \<Longrightarrow> c' = c"
  using assms unfolding ctrls_ok_def by blast+

lemma safeD:
  assumes "safe hist token (sv, x)"
  shows "srv_inv sv" "sv_token sv = token" "ctrls_ok token (hist x) (map_of (sv_conns sv)) (map_of (sv_data sv))"
  using assms by (simp_all add: safe_def)

lemma ctrl_ok_hist: "h' (ct_s t) = h (ct_s t) \<Longrightarrow> ctrl_ok token h' t = ctrl_ok token h t"
  by (cases "ct_st t") (simp_all add: ctrl_ok_def)

text \<open>A step that reads data streams only and leaves the control streams alone.\<close>

lemma ctrls_frame:
  assumes c: "ctrls_ok token h C D" and d: "dom D' \<subseteq> dom D"
    and k: "\<And>c k'. C' c = Some k' \<Longrightarrow> \<exists>k. C c = Some k \<and> k_ctrl k' = k_ctrl k"
    and h: "\<And>s. s \<notin> dom D \<Longrightarrow> h' s = h s"
  shows "ctrls_ok token h' C' D'"
  unfolding ctrls_ok_def
proof (intro allI impI conjI)
  fix c k' t assume C': "C' c = Some k'" and t: "k_ctrl k' = Some t"
  from k [OF C'] t obtain k0 where k0: "C c = Some k0" "k_ctrl k0 = Some t" by auto
  note o = ctrlsD [OF c k0]
  have "ct_s t \<notin> dom D" using o(2) by blast
  then show "ctrl_ok token h' t" using o(1) ctrl_ok_hist [of h' t h] h by simp
  show "D' (ct_s t) = None" using o(2) d by blast
  fix c2 k2 t2 assume "C' c2 = Some k2" and "k_ctrl k2 = Some t2" and e: "ct_s t2 = ct_s t"
  with k obtain k3 where "C c2 = Some k3" "k_ctrl k3 = Some t2" by metis
  then show "c2 = c" using o(3) e by blast
qed

lemma safe_step:
  assumes "safe hist token (sv, x)" and "step_ok left hist sv x r"
  shows "safe hist token r"
proof -
  have f: "frame sv (fst r)" and i: "srv_inv (fst r)" and rd: "reads_only left hist (dom (map_of (sv_data sv))) x (snd r)"
    using assms(2) by (simp_all add: step_ok_def)
  have "ctrls_ok token (hist (snd r)) (map_of (sv_conns (fst r))) (map_of (sv_data (fst r)))"
    by (rule ctrls_frame [OF safeD(3) [OF assms(1)]]) (use f rd in \<open>auto simp: frame_def reads_only_def\<close>)
  then show ?thesis using i f safeD(2) [OF assms(1)] by (simp add: safe_def frame_def)
qed

lemma safe_returns:
  assumes "safe hist token (sv, x)" and "returns m (step_ok left hist sv x)"
  shows "returns m (safe hist token)"
  by (rule returns_mono [OF assms(2) safe_step [OF assms(1)]])

text \<open>The control stream of one connection moves on.\<close>

lemma ctrls_put:
  assumes c: "ctrls_ok token h C D" and C: "C c = Some k" and t: "k_ctrl k = Some t"
    and t': "k_ctrl k' = Some t'" "ct_s t' = ct_s t" "ctrl_ok token h' t'" and h: "\<And>s. s \<noteq> ct_s t \<Longrightarrow> h' s = h s"
  shows "ctrls_ok token h' (C(c \<mapsto> k')) D"
  unfolding ctrls_ok_def
proof (intro allI impI conjI)
  note o = ctrlsD [OF c C t]
  have old: "\<exists>k1 t1. C c2 = Some k1 \<and> k_ctrl k1 = Some t1 \<and> ct_s t1 = ct_s t2" if "(C(c \<mapsto> k')) c2 = Some k2" "k_ctrl k2 = Some t2" for c2 k2 t2
    using that C t t' by (cases "c2 = c") auto
  fix c2 k2 t2 assume c2: "(C(c \<mapsto> k')) c2 = Some k2" "k_ctrl k2 = Some t2"
  from old [OF c2] obtain k1 t1 where k1: "C c2 = Some k1" "k_ctrl k1 = Some t1" "ct_s t1 = ct_s t2" by blast
  note o2 = ctrlsD [OF c k1(1,2)]
  show "D (ct_s t2) = None" using o2(2) k1(3) by simp
  show "ctrl_ok token h' t2"
  proof (cases "c2 = c")
    case True
    then show ?thesis using c2 t' by simp
  next
    case False
    then have e: "t2 = t1" using c2 k1 by simp
    have "ct_s t1 \<noteq> ct_s t" using o(3) [OF k1(1,2)] False by blast
    then show ?thesis using e o2(1) h ctrl_ok_hist [of h' t1 h] by simp
  qed
  fix c3 k3 t3 assume c3: "(C(c \<mapsto> k')) c3 = Some k3" "k_ctrl k3 = Some t3" and e: "ct_s t3 = ct_s t2"
  from old [OF c3] obtain k4 t4 where "C c3 = Some k4" "k_ctrl k4 = Some t4" "ct_s t4 = ct_s t3" by blast
  then show "c3 = c2" using o2(3) k1(3) e by simp
qed

lemma safe_put_ctrl:
  assumes s: "safe hist token (sv, x)" and C: "map_of (sv_conns sv) c = Some k" and t: "k_ctrl k = Some t"
    and t': "k_ctrl k' = Some t'" "ct_s t' = ct_s t" "ctrl_ok token (hist x') t'" and l: "conn_like k k'" and r: "reads_more left hist (ct_s t) x x'"
  shows "safe hist token (put_conn c k' sv, x')"
proof -
  have h: "hist x' s = hist x s" if "s \<noteq> ct_s t" for s using r that by (auto simp: reads_more_def)
  from ctrls_put [OF safeD(3) [OF s] C t t' h] srv_inv_conn_like [OF safeD(1) [OF s] C l] safeD(2) [OF s]
  show ?thesis by (simp add: safe_def)
qed

lemma safe_quiet: "safe hist token (sv, x) \<Longrightarrow> quiet left hist x x' \<Longrightarrow> safe hist token (sv, x')"
  by (simp add: safe_def quiet_def)

section \<open>Closing a connection\<close>

lemma srv_inv_fields [simp]:
  "srv_inv (sv\<lparr>sv_active := a\<rparr>) = srv_inv sv" "srv_inv (sv\<lparr>sv_shutting_down := b\<rparr>) = srv_inv sv"
  "srv_inv (sv\<lparr>sv_auth_attempts := n\<rparr>) = srv_inv sv"
  by (simp_all add: srv_inv_def)

lemma inv_timer:
  assumes "srv_inv sv" and "\<And>t. timer_ok (map_of (sv_conns sv)) (map_of (sv_data sv)) t m"
  shows "srv_inv (sv\<lparr>sv_timers := AList.update t m (sv_timers sv)\<rparr>)"
  using assms by (simp add: srv_inv_def timers_ok_def)

lemma srv_close_step:
  assumes env: "env_ok cx left hist" and inv: "srv_inv sv"
  shows "step_ok left hist sv x (srv_close cx c sv x)"
proof (cases "\<exists>k. map_of (sv_conns sv) c = Some k \<and> \<not> k_closing k")
  case False
  then show ?thesis using inv by (auto simp: srv_close_def step_ok_def split: option.splits)
next
  case True
  then obtain k where k: "map_of (sv_conns sv) c = Some k" "\<not> k_closing k" by blast
  let ?sv = "put_conn c (k\<lparr>k_closing := True, k_timer := None\<rparr>) sv"
  have i: "srv_inv ?sv" by (rule srv_inv_conn_like [OF inv k(1)]) simp
  have f: "frame sv ?sv" by (rule frame_put_conn [OF k(1)]) simp
  have f': "frame sv (?sv\<lparr>sv_timers := tm\<rparr>)" for tm using f by (simp add: frame_def)
  have q: "quiet left hist x (cx_do cx a (cx_do cx b x))" "quiet left hist x (cx_do cx a x)" for a b
    by (simp_all add: quiet_do [OF env])
  show ?thesis
  proof (cases "k_timer k")
    case None
    then show ?thesis using k step_okI [OF i f q(2)] by (simp add: srv_close_def Let_def)
  next
    case (Some t)
    then show ?thesis using k step_okI [OF inv_forget(3) [OF i] f' q(1)] by (simp add: srv_close_def srv_cancel_def Let_def)
  qed
qed

lemma safe_close: "env_ok cx left hist \<Longrightarrow> safe hist token (sv, x) \<Longrightarrow> safe hist token (srv_close cx c sv x)"
  by (rule safe_step [OF _ srv_close_step]) (auto dest: safeD)

lemma close_all_step: "env_ok cx left hist \<Longrightarrow> srv_inv sv \<Longrightarrow> step_ok left hist sv x (close_all cx cs sv x)"
proof (induction cs arbitrary: sv x)
  case Nil
  then show ?case by (simp add: step_ok_def)
next
  case (Cons c cs)
  obtain sv1 x1 where e: "srv_close cx c sv x = (sv1, x1)" by (metis prod.exhaust)
  have st: "step_ok left hist sv x (sv1, x1)" using srv_close_step [OF Cons.prems, of x c] e by simp
  from step_ok_trans [OF st Cons.IH [OF Cons.prems(1) step_ok_inv [OF st]]] e show ?case by simp
qed

section \<open>Connections and streams come and go\<close>

text \<open>A connection without data streams has no sessions either.\<close>

lemma no_sessions:
  assumes "tables_ok C D" and "streams_of D c = {}"
  shows "sess C c sid = None"
proof (rule ccontr)
  assume "sess C c sid \<noteq> None"
  then obtain ss where "sess C c sid = Some ss" by blast
  then have "session_ok D c sid ss" using assms(1) by (simp add: tables_ok_def)
  then show False using assms(2) by (auto simp: session_ok_def streams_of_def)
qed

lemma timer_ok_sess: "sess C' = sess C \<Longrightarrow> timer_ok C' D t m = timer_ok C D t m"
  by (cases m) simp_all

lemma srv_inv_sess:
  assumes inv: "srv_inv sv" and t: "tables_ok (map_of cs) (map_of (sv_data sv))" and d: "distinct (map fst cs)"
    and e: "sess (map_of cs) = sess (map_of (sv_conns sv))"
  shows "srv_inv (sv\<lparr>sv_conns := cs\<rparr>)"
  using assms timer_ok_sess [OF e] by (simp add: srv_inv_def refs_defs)

lemma inv_fresh_conn:
  assumes inv: "srv_inv sv" and none: "streams_of (map_of (sv_data sv)) c = {}"
    and k: "k_held k = (if k_ctrl k = None then 0 else 1)" "k_udp k = []" "pre_open_inv (k_preopen k)" "ctrl_rx_ok k"
  shows "srv_inv (put_conn c k sv)"
proof -
  note i = srv_invD [OF inv]
  let ?C = "map_of (sv_conns sv)" and ?D = "map_of (sv_data sv)"
  have e: "sess (?C(c \<mapsto> k)) = sess ?C" using no_sessions [OF i(2) none] k(2) by (intro ext) simp
  have "data_ok (?C(c \<mapsto> k)) s d" if "?D s = Some d" for s d
    using tables_dataD [OF i(2) that] none that by (auto simp: data_ok_def e streams_of_def simp del: sess_upd)
  moreover have "conn_ok ?D c' k'" if "(?C(c \<mapsto> k)) c' = Some k'" for c' k'
    using that k none tables_connD [OF i(2), of c' k'] by (cases "c' = c") (simp_all add: conn_ok_def STREAM_BUDGET_def)
  ultimately have "tables_ok (?C(c \<mapsto> k)) ?D" using i(2) unfolding tables_ok_def e by blast
  then show ?thesis using e i(1) by (intro srv_inv_sess [OF inv]) (simp_all add: distinct_update)
qed

lemma inv_del_conn:
  assumes inv: "srv_inv sv" and none: "streams_of (map_of (sv_data sv)) c = {}"
  shows "srv_inv (sv\<lparr>sv_conns := AList.delete c (sv_conns sv)\<rparr>)"
proof -
  note i = srv_invD [OF inv]
  let ?C = "map_of (sv_conns sv)" and ?D = "map_of (sv_data sv)"
  have e: "sess (?C(c := None)) = sess ?C"
  proof (intro ext)
    fix c' sid show "sess (?C(c := None)) c' sid = sess ?C c' sid"
      using no_sessions [OF i(2) none, of sid] by (cases "c' = c") (simp_all add: sess_def)
  qed
  have "data_ok (?C(c := None)) s d" if "?D s = Some d" for s d
    using tables_dataD [OF i(2) that] none that by (auto simp: data_ok_def e streams_of_def)
  moreover have "conn_ok ?D c' k'" if "(?C(c := None)) c' = Some k'" for c' k'
    using that tables_connD [OF i(2), of c' k'] by (cases "c' = c") simp_all
  ultimately have "tables_ok (?C(c := None)) ?D" using i(2) unfolding tables_ok_def e by blast
  then show ?thesis using e i(1) by (intro srv_inv_sess [OF inv]) (simp_all add: distinct_delete)
qed

lemma no_streams:
  assumes "srv_inv sv" and "\<And>k. map_of (sv_conns sv) c = Some k \<Longrightarrow> \<not> conn_authed k"
  shows "streams_of (map_of (sv_data sv)) c = {}"
  using tables_dataD [OF srv_invD(2) [OF assms(1)]] assms(2) by (fastforce simp: streams_of_def data_ok_def)

lemma drop_all_ok:
  assumes env: "env_ok cx left hist"
  shows "srv_inv sv \<Longrightarrow> returns (drop_all cx ss sv x)
    (\<lambda>r. step_ok left hist sv x r \<and> map_of (sv_data (fst r)) = (map_of (sv_data sv)) |` (- set ss)
      \<and> dom (map_of (sv_conns (fst r))) = dom (map_of (sv_conns sv)))"
proof (induction ss arbitrary: sv x)
  case Nil
  then show ?case by (simp add: step_ok_def)
next
  case (Cons s ss)
  from drop_data_ok [OF env Cons.prems, of s False x] obtain sv1 x1 where e: "drop_data cx s False sv x = Some (sv1, x1)"
    and st: "step_ok left hist sv x (sv1, x1)" and m: "map_of (sv_data sv1) = (map_of (sv_data sv))(s := None)"
    "dom (map_of (sv_conns sv1)) = dom (map_of (sv_conns sv))" by (auto simp: returns_def)
  have r: "((map_of (sv_data sv))(s := None)) |` (- set ss) = (map_of (sv_data sv)) |` (- set (s # ss))"
    by (rule ext) (simp add: restrict_map_def)
  have "returns (drop_all cx ss sv1 x1) (\<lambda>r. step_ok left hist sv x r \<and> map_of (sv_data (fst r)) = (map_of (sv_data sv)) |` (- set (s # ss))
      \<and> dom (map_of (sv_conns (fst r))) = dom (map_of (sv_conns sv)))"
    by (rule returns_mono [OF Cons.IH [OF step_ok_inv [OF st]]]) (unfold m r, use step_ok_trans [OF st] in blast)
  then show ?case using e by simp
qed

text \<open>After a connection closed nothing of it is left.\<close>

definition conn_gone :: "conn_id \<Rightarrow> server \<Rightarrow> bool" where
  "conn_gone c sv \<longleftrightarrow> map_of (sv_conns sv) c = None \<and> streams_of (map_of (sv_data sv)) c = {}"

definition gw_ok :: "'x srv_env \<Rightarrow> ('x \<Rightarrow> nat) \<Rightarrow> ('x \<Rightarrow> stream_id \<Rightarrow> bytes) \<Rightarrow> bool" where
  "gw_ok cx left hist \<longleftrightarrow> (\<forall>g x. quiet left hist x (snd (srv_gw cx g x)))"

lemma gw_call_quiet: "gw_ok cx left hist \<Longrightarrow> quiet left hist x (gw_call cx g sv x)"
  by (simp add: gw_ok_def gw_call_def)

lemma on_conn_closed_ok:
  assumes env: "env_ok cx left hist" and gw: "gw_ok cx left hist" and inv: "srv_inv sv"
  shows "returns (on_conn_closed cx c sv x) (\<lambda>r. step_ok left hist sv x r \<and> conn_gone c (fst r))"
proof (cases "map_of (sv_conns sv) c")
  case None
  have "streams_of (map_of (sv_data sv)) c = {}" by (rule no_streams [OF inv]) (simp add: None)
  then show ?thesis using None inv by (simp add: on_conn_closed_def step_ok_def conn_gone_def)
next
  case (Some k0)
  let ?ss = "map fst (filter (\<lambda>(s, d). da_conn d = c) (sv_data sv))"
  from drop_all_ok [OF env inv, of ?ss x] obtain sv1 x1 where e: "drop_all cx ?ss sv x = Some (sv1, x1)"
    and st: "step_ok left hist sv x (sv1, x1)" and m: "map_of (sv_data sv1) = (map_of (sv_data sv)) |` (- set ?ss)"
    "dom (map_of (sv_conns sv1)) = dom (map_of (sv_conns sv))" by (auto simp: returns_def)
  from m(2) Some obtain k where k: "map_of (sv_conns sv1) c = Some k" by (metis domD domI)
  have none: "streams_of (map_of (sv_data sv1)) c = {}"
    using m(1) by (force simp: streams_of_def restrict_map_def dest!: map_of_SomeD split: if_splits)
  let ?sv = "sv1\<lparr>sv_conns := AList.delete c (sv_conns sv1)\<rparr>"
  let ?x = "if k_proto k = ProtoRaw then x1 else gw_call cx (GwConnClosed c) ?sv x1"
  obtain sv2 x2 where e2: "(case k_timer k of Some t \<Rightarrow> srv_cancel cx t ?sv ?x | None \<Rightarrow> (?sv, ?x)) = (sv2, x2)" by (metis prod.exhaust)
  have q1: "quiet left hist x1 ?x" using gw_call_quiet [OF gw] by simp
  have q2: "quiet left hist x1 x2" using e2 quiet_do [OF env q1] q1 by (auto simp: srv_cancel_def split: option.splits)
  note j = inv_del_conn [OF step_ok_inv [OF st] none]
  have i2: "srv_inv sv2" using e2 j inv_forget(3) [OF j] by (auto simp: srv_cancel_def split: option.splits)
  have m2: "sv_conns sv2 = AList.delete c (sv_conns sv1)" "sv_data sv2 = sv_data sv1" "sv_token sv2 = sv_token sv1"
    using e2 by (auto simp: srv_cancel_def split: option.splits)
  let ?sv3 = "if sv_active sv2 = Some c then sv2\<lparr>sv_active := None\<rparr> else sv2"
  let ?x3 = "if sv_shutting_down ?sv3 \<and> sv_conns ?sv3 = [] then cx_do cx (CxRequestExit 0) x2 else x2"
  have r: "on_conn_closed cx c sv x = Some (?sv3, ?x3)"
    using Some e k e2 by (simp add: on_conn_closed_def Let_def split: option.splits prod.splits)
  have "step_ok left hist sv1 x1 (?sv3, ?x3)"
    using i2 m2 q2 quiet_do [OF env q2] by (intro step_okI) (simp_all add: frame_def)
  from step_ok_trans [OF st this] show ?thesis using r m2 none by (simp add: conn_gone_def)
qed

lemma safe_new_conn:
  assumes s: "safe hist token (sv, x)" and new: "map_of (sv_conns sv) c = None"
    and k: "k_held k = 0" "k_ctrl k = None" "k_udp k = []" "pre_open_inv (k_preopen k)"
  shows "safe hist token (put_conn c k sv, x)"
proof -
  note d = safeD [OF s]
  have "streams_of (map_of (sv_data sv)) c = {}" by (rule no_streams [OF d(1)]) (simp add: new)
  from inv_fresh_conn [OF d(1) this] k have "srv_inv (put_conn c k sv)" by (simp add: ctrl_rx_ok_def)
  moreover have "ctrls_ok token (hist x) ((map_of (sv_conns sv))(c \<mapsto> k)) (map_of (sv_data sv))"
    using d(3) k(2) by (auto simp: ctrls_ok_def)
  ultimately show ?thesis using d(2) by (simp add: safe_def)
qed

lemma safe_fields [simp]:
  "safe hist token (sv\<lparr>sv_active := a\<rparr>, x) = safe hist token (sv, x)"
  "safe hist token (sv\<lparr>sv_shutting_down := b\<rparr>, x) = safe hist token (sv, x)"
  "safe hist token (sv\<lparr>sv_auth_attempts := n\<rparr>, x) = safe hist token (sv, x)"
  by (simp_all add: safe_def)

lemma safe_timer:
  assumes "safe hist token (sv, x)" and "\<And>t. timer_ok (map_of (sv_conns sv)) (map_of (sv_data sv)) t m" and "env_ok cx left hist"
    and "srv_timer cx after m sv x = (t, sv', x')"
  shows "safe hist token (sv', x') \<and> sv' = sv\<lparr>sv_timers := AList.update t m (sv_timers sv)\<rparr> \<and> quiet left hist x x'"
  using inv_timer [OF safeD(1) [OF assms(1)] assms(2)] safeD [OF assms(1)] env_timer [OF assms(3), of x "time_add (cx_now cx) after"] assms(4)
  by (auto simp: srv_timer_def safe_def quiet_def split: prod.splits)

lemma on_new_conn_safe:
  assumes env: "env_ok cx left hist" and gw: "gw_ok cx left hist" and s: "safe hist token (sv, x)" and new: "map_of (sv_conns sv) c = None"
  shows "safe hist token (on_new_conn cx c proto sv x)"
proof -
  let ?k = "\<lambda>timer. \<lparr>k_proto = proto, k_ctrl = None, k_timer = timer, k_held = 0, k_closing = False, k_udp = [],
    k_preopen = pre_open_new, k_mss = mss_cache_new, k_counters = counters_default\<rparr>"
  obtain timer sv1 x1 where e: "(if proto = ProtoRaw then (case srv_timer cx (scf_auth_deadline (sv_cfg sv)) (TmConn c) sv x of
      (t, sv, x) \<Rightarrow> (Some t, sv, x)) else (None, sv, x)) = (timer, sv1, x1)" by (metis prod_cases3)
  have s1: "safe hist token (sv1, x1)" "map_of (sv_conns sv1) c = None"
    using s new e by (auto split: if_splits prod.splits dest!: safe_timer [OF s _ env, rotated])
  define sv2 where "sv2 = put_conn c (?k timer) sv1"
  have s2: "safe hist token (sv2, x1)"
    unfolding sv2_def by (rule safe_new_conn [OF s1]) (simp_all add: pre_open_inv_def pre_open_new_def)
  note s3 = safe_quiet [OF s2 gw_call_quiet [OF gw]]
  have "on_new_conn cx c proto sv x =
    (let (sv, x) = (if proto = ProtoRaw then (sv2\<lparr>sv_active := Some c\<rparr>, x1) else (sv2, gw_call cx (GwNewConn c) sv2 x1))
     in if sv_shutting_down sv then srv_close cx c sv x else (sv, x))"
    unfolding on_new_conn_def Let_def e sv2_def by simp
  then show ?thesis using s2 s3 safe_close [OF env] by (simp add: Let_def)
qed

lemma ctrls_data:
  assumes "ctrls_ok token h C D" and "C c = Some k" and "k_ctrl k' = k_ctrl k"
    and "\<And>c k t. C c = Some k \<Longrightarrow> k_ctrl k = Some t \<Longrightarrow> ct_s t \<noteq> s"
  shows "ctrls_ok token h (C(c \<mapsto> k')) (D(s \<mapsto> d))"
  unfolding ctrls_ok_def
proof (intro allI impI conjI)
  have old: "\<exists>k. C c' = Some k \<and> k_ctrl k = Some t" if "(C(c \<mapsto> k')) c' = Some k2" "k_ctrl k2 = Some t" for c' k2 t
    using that assms(2,3) by (cases "c' = c") auto
  fix c' k2 t assume c': "(C(c \<mapsto> k')) c' = Some k2" "k_ctrl k2 = Some t"
  from old [OF this] obtain k3 where k3: "C c' = Some k3" "k_ctrl k3 = Some t" by blast
  note o = ctrlsD [OF assms(1) k3]
  show "ctrl_ok token h t" by (rule o(1))
  show "(D(s \<mapsto> d)) (ct_s t) = None" using o(2) assms(4) [OF k3] by simp
  fix c4 k4 t4 assume "(C(c \<mapsto> k')) c4 = Some k4" "k_ctrl k4 = Some t4" "ct_s t4 = ct_s t"
  then show "c4 = c'" using old o(3) by blast
qed

lemma ctrls_new:
  assumes c: "ctrls_ok token h C D" and nc: "\<And>c k t. C c = Some k \<Longrightarrow> k_ctrl k = Some t \<Longrightarrow> ct_s t \<noteq> s"
    and s: "D s = None" "h s = []" and t': "k_ctrl k' = Some t'" "ct_s t' = s" "ct_st t' = Authing" "ct_rx t' = []"
  shows "ctrls_ok token h (C(c \<mapsto> k')) D"
  unfolding ctrls_ok_def
proof (intro allI impI)
  fix c1 k1 t1 assume k1: "(C(c \<mapsto> k')) c1 = Some k1" "k_ctrl k1 = Some t1"
  have u: "c2 = c1" if k2: "(C(c \<mapsto> k')) c2 = Some k2" "k_ctrl k2 = Some t2" and e: "ct_s t2 = ct_s t1" for c2 k2 t2
  proof (rule ccontr)
    assume n: "c2 \<noteq> c1"
    then show False
      using k1 k2 e t'(1,2) nc [of c1 k1 t1] nc [of c2 k2 t2] ctrlsD(3) [OF c, of c1 k1 t1 c2 k2 t2] by (simp split: if_splits)
  qed
  have "ctrl_ok token h t1 \<and> D (ct_s t1) = None"
  proof (cases "c1 = c")
    case True
    then have "t1 = t'" using k1 t'(1) by simp
    then show ?thesis using s t' by (simp add: ctrl_ok_def)
  next
    case False
    then show ?thesis using ctrlsD(1,2) [OF c, of c1 k1 t1] k1 by simp
  qed
  with u show "ctrl_ok token h t1 \<and> D (ct_s t1) = None
      \<and> (\<forall>c' k t. (C(c \<mapsto> k')) c' = Some k \<longrightarrow> k_ctrl k = Some t \<longrightarrow> ct_s t = ct_s t1 \<longrightarrow> c' = c1)" by blast
qed

lemma tables_new_data:
  assumes t: "tables_ok C D" and D: "D s = None" and C: "C c = Some k" and k: "conn_authed k" "k_held k < STREAM_BUDGET"
    and d: "da_conn d = c" "da_phase d = Request tm" "da_rx d = []"
  shows "tables_ok (C(c \<mapsto> k\<lparr>k_held := k_held k + 1\<rparr>)) (D(s \<mapsto> d))"
proof -
  let ?C = "C(c \<mapsto> k\<lparr>k_held := k_held k + 1\<rparr>)" and ?D = "D(s \<mapsto> d)"
  have e: "sess ?C = sess C" by (rule sess_same [where C = C, OF C]) simp
  have "data_ok ?C s' d'" if "?D s' = Some d'" for s' d'
  proof (cases "s' = s")
    case True
    then show ?thesis using that d k by (simp add: data_ok_def buffer_ok_def)
  next
    case False
    then have "data_ok C s' d'" using tables_dataD [OF t] that by simp
    then show ?thesis using C unfolding data_ok_def e by (cases "da_conn d' = c") simp_all
  qed
  moreover have "conn_ok ?D c' k'" if "?C c' = Some k'" for c' k'
  proof (cases "c' = c")
    case True
    have "finite (streams_of D c)" "s \<notin> streams_of D c" using t D finite_streams by (auto simp: tables_ok_def streams_of_def)
    then have "conn_ok ?D c (k\<lparr>k_held := k_held k + 1\<rparr>)"
      using k d tables_connD [OF t C] streams_of_new [of D s d c, OF D] by (simp add: conn_ok_def)
    then show ?thesis using True that by simp
  next
    case False
    then have "streams_of ?D c' = streams_of D c'" using streams_of_new [of D s d c', OF D] d by simp
    with False show ?thesis using that tables_connD [OF t, of c' k'] by (simp add: conn_ok_def)
  qed
  moreover have "session_ok ?D c' sid ss" if "sess C c' sid = Some ss" for c' sid ss
  proof -
    have o: "session_ok D c' sid ss" using t that by (simp add: tables_ok_def)
    then have "us_stream ss \<noteq> s" using D by (auto simp: session_ok_def)
    then show ?thesis using o by (simp add: session_ok_def)
  qed
  moreover have "finite (dom ?D)" using t by (simp add: tables_ok_def)
  ultimately show ?thesis unfolding tables_ok_def e by blast
qed

lemma inv_new_data:
  assumes inv: "srv_inv sv" and D: "map_of (sv_data sv) s = None" and C: "map_of (sv_conns sv) c = Some k"
    and k: "conn_authed k" "k_held k < STREAM_BUDGET" and d: "da_conn d = c" "da_phase d = Request t" "da_rx d = []"
  shows "srv_inv (sv\<lparr>sv_conns := AList.update c (k\<lparr>k_held := k_held k + 1\<rparr>) (sv_conns sv),
    sv_timers := AList.update t (TmRequest s) (sv_timers sv), sv_data := AList.update s d (sv_data sv)\<rparr>)"
proof -
  note i = srv_invD [OF inv]
  let ?C = "map_of (sv_conns sv)" and ?D = "map_of (sv_data sv)" and ?k = "k\<lparr>k_held := k_held k + 1\<rparr>"
  have e: "sess (?C(c \<mapsto> ?k)) = sess ?C" by (rule sess_same [where C = ?C, OF C]) simp
  have "timer_ok (?C(c \<mapsto> ?k)) (?D(s \<mapsto> d)) t' m" if "map_of (AList.update t (TmRequest s) (sv_timers sv)) t' = Some m" for t' m
  proof (cases "t' = t")
    case True
    then show ?thesis using that d by auto
  next
    case False
    then have o: "timer_ok ?C ?D t' m" using that timersD [OF i(7)] by simp
    then have "m \<noteq> TmRequest s" using D by auto
    then show ?thesis by (rule timer_ok_change [OF o]) (simp only: e)
  qed
  then have "timers_ok (?C(c \<mapsto> ?k)) (?D(s \<mapsto> d)) (map_of (AList.update t (TmRequest s) (sv_timers sv)))"
    by (simp only: timers_ok_def) blast
  moreover have "dials_ok (?D(s \<mapsto> d)) (map_of (sv_dials sv))"
    by (rule dials_step [OF i(3)]) (use dialsD [OF i(3)] D in fastforce)
  moreover have "resolves_ok (?C(c \<mapsto> ?k)) (map_of (sv_resolves sv))" "opens_ok (?C(c \<mapsto> ?k)) (map_of (sv_socket_opens sv))"
    "socks_ok (?C(c \<mapsto> ?k)) (map_of (sv_udp_socks sv))"
    using i(4-6) unfolding resolves_ok_def opens_ok_def socks_ok_def e by blast+
  ultimately show ?thesis
    using i(1) tables_new_data [where C = ?C and D = ?D, OF i(2) D C k d] by (simp add: srv_inv_def distinct_update)
qed

lemma on_new_stream_safe:
  assumes env: "env_ok cx left hist" and s: "safe hist token (sv, x)" and new: "map_of (sv_data sv) s = None" and h: "hist x s = []"
    and nc: "\<And>c k t. map_of (sv_conns sv) c = Some k \<Longrightarrow> k_ctrl k = Some t \<Longrightarrow> ct_s t \<noteq> s"
  shows "safe hist token (on_new_stream cx c s info sv x)"
proof -
  note d = safeD [OF s] and i = srv_invD [OF safeD(1) [OF s]]
  have reset: "safe hist token (sv, cx_do cx (CxStreamReset s) x)" by (rule safe_quiet [OF s env_do [OF env]])
  have ctrl: "safe hist token (put_conn c (k\<lparr>k_held := k_held k + 1,
      k_ctrl := Some \<lparr>ct_s = s, ct_st = Authing, ct_rx = [], ct_tx = [], ct_fin = False\<rparr>\<rparr>) sv, x)" (is "safe _ _ (put_conn c ?k sv, x)")
    if k: "map_of (sv_conns sv) c = Some k" "k_ctrl k = None" for k
  proof -
    have none: "streams_of (map_of (sv_data sv)) c = {}" by (rule no_streams [OF d(1)]) (use k in \<open>simp add: conn_authed_def\<close>)
    have o: "conn_ok (map_of (sv_data sv)) c k" by (rule tables_connD [OF i(2) k(1)])
    have "map_of (k_udp k) = Map.empty" using no_sessions [OF i(2) none] k(1) by (auto simp: sess_def fun_eq_iff)
    then have "srv_inv (put_conn c ?k sv)"
      using o k none by (intro inv_fresh_conn [OF d(1) none]) (simp_all add: conn_ok_def ctrl_rx_ok_def)
    moreover have "ctrls_ok token (hist x) ((map_of (sv_conns sv))(c \<mapsto> ?k)) (map_of (sv_data sv))"
      by (rule ctrls_new [OF d(3) nc new h]) simp+
    ultimately show ?thesis using d(2) by (simp add: safe_def)
  qed
  have data: "safe hist token (put_data s \<lparr>da_conn = c, da_phase = Request t, da_rx = [], da_fin = False, da_tx = []\<rparr> sv1, x1)"
    if k: "map_of (sv_conns sv) c = Some k" "conn_authed k" "k_held k < STREAM_BUDGET"
      and t: "srv_timer cx after (TmRequest s) (put_conn c (k\<lparr>k_held := k_held k + 1\<rparr>) sv) x = (t, sv1, x1)" for k after t sv1 x1
  proof -
    let ?d = "\<lparr>da_conn = c, da_phase = Request t, da_rx = [], da_fin = False, da_tx = []\<rparr>" and ?k = "k\<lparr>k_held := k_held k + 1\<rparr>"
    have sv1: "sv1 = sv\<lparr>sv_conns := AList.update c ?k (sv_conns sv), sv_timers := AList.update t (TmRequest s) (sv_timers sv)\<rparr>"
      and q: "quiet left hist x x1"
      using t env_timer [OF env, of x "time_add (cx_now cx) after"] by (auto simp: srv_timer_def split: prod.splits)
    have "srv_inv (put_data s ?d sv1)"
      using inv_new_data [OF d(1) new k, of ?d t] sv1 by simp
    moreover have "ctrls_ok token (hist x) ((map_of (sv_conns sv))(c \<mapsto> ?k)) ((map_of (sv_data sv))(s \<mapsto> ?d))"
      by (rule ctrls_data [OF d(3) k(1) _ nc]) simp_all
    ultimately show ?thesis using d(2) sv1 q by (simp add: safe_def quiet_def)
  qed
  show ?thesis
    using reset ctrl data by (auto simp: on_new_stream_def Let_def split: option.splits prod.splits)
qed

section \<open>The control stream\<close>

lemma auth_loop_ok:
  assumes env: "env_ok cx left hist"
  shows "length rx \<le> REQ_BUF \<Longrightarrow> rx = hist x s \<Longrightarrow> returns (auth_loop cx token s rx x)
    (\<lambda>(r, rx', x'). reads_more left hist s x x' \<and> length rx' \<le> REQ_BUF \<and> rx' = hist x' s \<and> (r = AuthDone True \<longrightarrow> presented token rx'))"
proof (induction "left x" arbitrary: rx x rule: less_induct)
  case less
  obtain r rx1 x1 where r: "app_recv cx s rx (REQ_BUF - length rx) x = (r, rx1, x1)" by (metis prod_cases3)
  note rd = app_recv_more [OF env r]
  from app_recv_ok [OF env r] obtain bs where bs: "rx1 = rx @ bs" "length bs \<le> REQ_BUF - length rx" "left x1 + length bs \<le> left x"
    "hist x1 = (hist x)(s := hist x s @ bs)" "\<And>n fin. r = RecvData n fin \<Longrightarrow> n = length bs" by blast
  have l: "length rx1 \<le> REQ_BUF" "rx1 = hist x1 s" using bs less.prems by simp_all
  show ?case
  proof (cases r)
    case (RecvData n fin)
    have "returns (auth_loop cx token s rx1 x1) (\<lambda>(r, rx', x'). reads_more left hist s x x' \<and> length rx' \<le> REQ_BUF \<and> rx' = hist x' s
        \<and> (r = AuthDone True \<longrightarrow> presented token rx'))" if "0 < n"
    proof -
      have "left x1 < left x" using bs(3) bs(5) [OF RecvData] that by linarith
      from less.hyps [OF this l] show ?thesis by (rule returns_mono) (auto intro: reads_more_trans [OF rd])
    qed
    then show ?thesis using r RecvData l rd less.prems(1)
      by (subst auth_loop.simps) (auto simp: presented_def split: result.splits)
  qed (use r l rd less.prems(1) in \<open>(subst auth_loop.simps, simp)+\<close>)
qed

lemma ctrl_drain_safe:
  assumes env: "env_ok cx left hist" and s: "safe hist token (sv, x)" and C: "map_of (sv_conns sv) c = Some k" and t: "k_ctrl k = Some t"
    and st: "ct_st t \<noteq> Authing"
  shows "returns (srv_ctrl_readable cx c sv x) (safe hist token)"
proof -
  obtain ok x1 where dr: "drain cx (ct_s t) x = Some (ok, x1)" "reads_more left hist (ct_s t) x x1"
    using drain_returns [OF env, of "ct_s t" x] by (auto simp: returns_def)
  obtain bs where h: "hist x1 (ct_s t) = hist x (ct_s t) @ bs" using dr(2) by (auto simp: reads_more_def)
  have "ctrl_ok token (hist x1) t"
    using ctrlsD(1) [OF safeD(3) [OF s] C t] st h by (cases "ct_st t") (simp_all add: ctrl_ok_def presented_more)
  from safe_put_ctrl [OF s C t t refl this conn_like_refl dr(2)] have "safe hist token (put_conn c k sv, x1)" .
  then have "safe hist token (sv, x1)" using C by (simp add: safe_def srv_inv_def fun_upd_idem safeD(1) [OF s, unfolded srv_inv_def])
  then show ?thesis using C t st dr(1) safe_close [OF env] by (subst srv_ctrl_readable.simps) simp
qed

lemma auth_decided_ok:
  assumes env: "env_ok cx left hist" and s: "safe hist token (sv, x)" and C: "map_of (sv_conns sv) c = Some k"
    and t: "k_ctrl k = Some (t\<lparr>ct_rx := rx\<rparr>)" "ct_st t = Authing" and ok: "ok \<Longrightarrow> presented token (hist x (ct_s t))"
  shows "returns (auth_decided cx c k t ok sv x) (\<lambda>(fl, sv', x'). safe hist token (sv', x')
    \<and> (\<exists>k' t'. map_of (sv_conns sv') c = Some k' \<and> k_ctrl k' = Some t' \<and> ct_st t' \<noteq> Authing))"
proof -
  obtain resp where resp: "auth_response ok (scf_udp_enabled (sv_cfg sv)) = Some resp" using auth_response_ok by blast
  obtain fl tx x1 where f: "flush cx (ct_s t) resp (\<not> ok) x = (fl, tx, x1)" by (metis prod_cases3)
  have q1: "quiet left hist x x1" using flush_quiet [OF env, of x "ct_s t" resp "\<not> ok"] f by simp
  define t' where "t' = t\<lparr>ct_rx := [], ct_tx := tx, ct_fin := \<not> ok, ct_st := (if ok then Settled else Refused)\<rparr>"
  define sv0 where "sv0 = sv\<lparr>sv_auth_attempts := sv_auth_attempts sv + 1\<rparr>"
  have s0: "safe hist token (sv0, x)" and C0: "map_of (sv_conns sv0) c = Some k" using s C by (simp_all add: sv0_def)
  have t': "ct_s t' = ct_s t" "ct_st t' \<noteq> Authing" by (simp_all add: t'_def)
  have l: "conn_like k (k\<lparr>k_ctrl := Some t', k_timer := tm\<rparr>)" for tm
    using t by (simp add: conn_like_def conn_authed_def ctrl_rx_ok_def t'_def)
  have h1: "hist x1 = hist x" using q1 by (simp add: quiet_def)
  have co: "ctrl_ok token (hist x1) t'" using ok h1 by (simp add: ctrl_ok_def t'_def)
  have put: "safe hist token (put_conn c (k\<lparr>k_ctrl := Some t', k_timer := tm\<rparr>) sv0, x1)" for tm
    by (rule safe_put_ctrl [OF s0 C0 t(1) _ _ co l reads_more_quiet]) (use q1 t' in simp_all)
  let ?sv1 = "put_conn c (k\<lparr>k_ctrl := Some t', k_timer := None\<rparr>) sv0"
  obtain sv2 x2 where e2: "(case k_timer k of Some tm \<Rightarrow> srv_cancel cx tm ?sv1 x1 | None \<Rightarrow> (?sv1, x1)) = (sv2, x2)" by (metis prod.exhaust)
  have q2: "quiet left hist x1 x2" using e2 env_do [OF env] by (auto simp: srv_cancel_def split: option.splits)
  have s2: "safe hist token (sv2, x2)"
  proof -
    have "step_ok left hist ?sv1 x1 (sv2, x2)"
      using e2 safeD(1) [OF put] inv_forget(3) [OF safeD(1) [OF put]] q2
      by (intro step_okI) (auto simp: srv_cancel_def frame_def split: option.splits)
    from safe_step [OF put this] show ?thesis .
  qed
  have C2: "map_of (sv_conns sv2) c = Some (k\<lparr>k_ctrl := Some t', k_timer := None\<rparr>)"
    using e2 by (auto simp: srv_cancel_def split: option.splits)
  obtain tm sv3 x3 where e3: "srv_timer cx REFUSED_CLOSE (TmConn c) sv2 x2 = (tm, sv3, x3)" by (metis prod_cases3)
  from safe_timer [OF s2 _ env e3] have s3: "safe hist token (sv3, x3)" and c3: "sv_conns sv3 = sv_conns sv2" and q3: "quiet left hist x2 x3" by auto
  have C3: "map_of (sv_conns sv3) c = Some (k\<lparr>k_ctrl := Some t', k_timer := None\<rparr>)" using C2 c3 by simp
  have s4: "safe hist token (put_conn c (k\<lparr>k_ctrl := Some t', k_timer := Some tm\<rparr>) sv3, x3)"
  proof (rule safe_step [OF s3 put_like_step [OF safeD(1) [OF s3] C3]])
    show "conn_like (k\<lparr>k_ctrl := Some t', k_timer := None\<rparr>) (k\<lparr>k_ctrl := Some t', k_timer := Some tm\<rparr>)"
      by (simp add: conn_like_def conn_authed_def ctrl_rx_ok_def)
  qed simp_all
  have s5: "safe hist token (sv2, cx_do cx (CxMarkConnAuthed c) x2)" by (rule safe_quiet [OF s2 env_do [OF env]])
  have "auth_decided cx c k t ok sv x = Some (if ok then (fl, sv2, cx_do cx (CxMarkConnAuthed c) x2)
      else (fl, put_conn c (k\<lparr>k_ctrl := Some t', k_timer := Some tm\<rparr>) sv3, x3))"
    using resp f e2 e3 unfolding auth_decided_def Let_def by (cases ok; cases "k_timer k") (simp_all add: t'_def sv0_def)
  then show ?thesis using s4 s5 C2 t'(2) by simp
qed

lemma ctrl_readable_safe:
  assumes env: "env_ok cx left hist" and s: "safe hist token (sv, x)" and C: "map_of (sv_conns sv) c = Some k" and t: "k_ctrl k = Some t"
  shows "returns (srv_ctrl_readable cx c sv x) (safe hist token)"
proof (cases "ct_st t = Authing")
  case False
  then show ?thesis by (rule ctrl_drain_safe [OF env s C t])
next
  case True
  note d = safeD [OF s]
  have rx: "ct_rx t = hist x (ct_s t)" using ctrlsD(1) [OF d(3) C t] True by (simp add: ctrl_ok_def)
  have len: "length (ct_rx t) \<le> REQ_BUF" using tables_connD [OF srv_invD(2) [OF d(1)] C] t by (simp add: conn_ok_def ctrl_rx_ok_def)
  from auth_loop_ok [OF env len rx, of token] obtain r rx' x1 where r: "auth_loop cx token (ct_s t) (ct_rx t) x = Some (r, rx', x1)"
    and rd: "reads_more left hist (ct_s t) x x1" and l: "length rx' \<le> REQ_BUF" and h: "rx' = hist x1 (ct_s t)"
    and p: "r = AuthDone True \<Longrightarrow> presented token rx'" by (auto simp: returns_def)
  define k1 where "k1 = k\<lparr>k_ctrl := Some (t\<lparr>ct_rx := rx'\<rparr>)\<rparr>"
  have k1: "k_ctrl k1 = Some (t\<lparr>ct_rx := rx'\<rparr>)" by (simp add: k1_def)
  have s1: "safe hist token (put_conn c k1 sv, x1)"
  proof (rule safe_put_ctrl [OF s C t k1 _ _ _ rd])
    show "ctrl_ok token (hist x1) (t\<lparr>ct_rx := rx'\<rparr>)" using h True by (simp add: ctrl_ok_def)
    show "conn_like k k1" using t l by (simp add: conn_like_def conn_authed_def ctrl_rx_ok_def k1_def)
  qed simp
  have C1: "map_of (sv_conns (put_conn c k1 sv)) c = Some k1" by simp
  have e: "srv_ctrl_readable cx c sv x = (case r of AuthWait \<Rightarrow> Some (put_conn c k1 sv, x1)
      | AuthReset \<Rightarrow> Some (srv_close cx c (put_conn c k1 sv) x1)
      | AuthDone ok \<Rightarrow> Option.bind (auth_decided cx c k1 t ok (put_conn c k1 sv) x1) (\<lambda>(flushed, sv, x).
          if \<not> flushed then Some (srv_close cx c sv x) else srv_ctrl_readable cx c sv x))"
    using C t True r d(2) by (subst srv_ctrl_readable.simps) (cases r; simp add: k1_def Let_def)
  show ?thesis
  proof (cases r)
    case (AuthDone ok)
    have pk: "presented token (hist x1 (ct_s t))" if ok using p AuthDone h that by simp
    have "returns (auth_decided cx c k1 t ok (put_conn c k1 sv) x1) (\<lambda>(fl, sv, x). returns
        (if \<not> fl then Some (srv_close cx c sv x) else srv_ctrl_readable cx c sv x) (safe hist token))"
      by (rule returns_mono [OF auth_decided_ok [OF env s1 C1 k1 True pk]])
        (auto simp: safe_close [OF env] intro: ctrl_drain_safe [OF env])
    then show ?thesis using e AuthDone by (simp add: case_prod_unfold)
  qed (use e s1 safe_close [OF env s1] in simp_all)
qed

lemma ctrl_connD:
  assumes "srv_inv sv" and "ctrl_conn s sv = Some c"
  shows "\<exists>k t. map_of (sv_conns sv) c = Some k \<and> k_ctrl k = Some t \<and> ct_s t = s"
proof -
  from assms(2) obtain k where f: "find (\<lambda>(c, k). case k_ctrl k of Some t \<Rightarrow> ct_s t = s | None \<Rightarrow> False) (sv_conns sv) = Some (c, k)"
    by (auto simp: ctrl_conn_def)
  then have "(c, k) \<in> set (sv_conns sv)" "\<exists>t. k_ctrl k = Some t \<and> ct_s t = s"
    by (auto simp: find_Some_iff split: option.splits dest: nth_mem [of _ "sv_conns sv"])
  then show ?thesis using srv_invD(1) [OF assms(1)] by (auto simp: map_of_eq_Some_iff)
qed

lemma on_writable_safe:
  assumes env: "env_ok cx left hist" and s: "safe hist token (sv, x)"
  shows "returns (on_writable cx s sv x) (safe hist token)"
proof (cases "map_of (sv_data sv) s")
  case None
  note d = safeD [OF s]
  show ?thesis
  proof (cases "ctrl_conn s sv")
    case None': None
    then show ?thesis using None s by (simp add: on_writable_def)
  next
    case (Some c)
    from ctrl_connD [OF d(1) this] obtain k t where k: "map_of (sv_conns sv) c = Some k" "k_ctrl k = Some t" "ct_s t = s" by blast
    obtain ok tx x1 where f: "flush cx s (ct_tx t) (ct_fin t) x = (ok, tx, x1)" by (metis prod_cases3)
    have q: "quiet left hist x x1" using flush_quiet [OF env, of x s "ct_tx t" "ct_fin t"] f by simp
    let ?k = "k\<lparr>k_ctrl := Some (t\<lparr>ct_tx := tx\<rparr>)\<rparr>"
    have "safe hist token (put_conn c ?k sv, x1)"
    proof (rule safe_put_ctrl [OF s k(1,2) _ _ _ _ reads_more_quiet [OF q]])
      show "k_ctrl ?k = Some (t\<lparr>ct_tx := tx\<rparr>)" by simp
      show "ctrl_ok token (hist x1) (t\<lparr>ct_tx := tx\<rparr>)"
        using ctrlsD(1) [OF d(3) k(1,2)] q by (cases "ct_st t") (simp_all add: ctrl_ok_def quiet_def)
      show "conn_like k ?k" using k(2) by (simp add: conn_like_def conn_authed_def ctrl_rx_ok_def)
    qed simp
    then show ?thesis using None Some k f safe_close [OF env] by (simp add: on_writable_def Let_def)
  qed
next
  case (Some da)
  note inv = safeD(1) [OF s]
  have fl: "returns (case flush cx s (da_tx da) fin x of (ok, tx, x) \<Rightarrow>
      let sv = put_data s (da\<lparr>da_tx := tx\<rparr>) sv in if ok then Some (sv, x) else drop_data cx s True sv x) (step_ok left hist sv x)" for fin
  proof -
    obtain ok tx x1 where f: "flush cx s (da_tx da) fin x = (ok, tx, x1)" by (metis prod_cases3)
    have q: "quiet left hist x x1" using flush_quiet [OF env, of x s "da_tx da" fin] f by simp
    have i: "srv_inv (put_data s (da\<lparr>da_tx := tx\<rparr>) sv)" by (rule inv_put_same [OF inv Some]) (use data_buffer [OF inv Some] in simp_all)
    note st = step_okI [OF i frame_put_data [OF Some] q]
    show ?thesis using f st step_ok_then [OF st drop_data_step [OF env i]] by (simp add: Let_def)
  qed
  have stay: "step_ok left hist sv x (sv, x)" using inv by (simp add: step_ok_def)
  have "returns (on_writable cx s sv x) (step_ok left hist sv x)"
    using Some fl send_ok_ok [OF env inv Some] stay by (cases "da_phase da") (simp_all add: on_writable_def)
  then show ?thesis by (rule safe_returns [OF s])
qed

section \<open>The callbacks\<close>

lemma on_start_safe:
  assumes env: "env_ok cx left hist" and s: "safe hist token (sv, x)"
  shows "safe hist token (srv_on_start cx sv x)"
  using s safe_timer [OF s _ env, of TmMetrics] by (auto simp: srv_on_start_def split: option.splits prod.splits)

lemma dial_result_ok:
  assumes env: "env_ok cx left hist" and gw: "gw_ok cx left hist" and inv: "srv_inv sv"
  shows "returns (srv_dial_result cx op r sv x) (step_ok left hist sv x)"
proof -
  obtain b x1 where g: "(if sv_gw sv then srv_gw cx (GwDialResult op r) x else (False, x)) = (b, x1)" by (metis prod.exhaust)
  have q1: "quiet left hist x x1" using g gw by (auto simp: gw_ok_def split: if_splits dest!: spec [of _ "GwDialResult op r"] spec [of _ x])
  have st1: "step_ok left hist sv x (sv, x1)" by (rule step_okI [OF inv frame_refl q1])
  note e0 = srv_dial_result_def [of cx op r sv x, unfolded g]
  show ?thesis
  proof (cases "b \<or> map_of (sv_dials sv) op = None")
    case True
    have "quiet left hist x (cx_do cx a x1)" for a by (rule quiet_do [OF env q1])
    then have "step_ok left hist sv x (sv, cx_do cx a x1)" for a by (rule step_okI [OF inv frame_refl])
    then show ?thesis using True st1 unfolding e0 by (cases b) (auto split: result.splits)
  next
    case False
    then obtain s where s: "map_of (sv_dials sv) op = Some s" "\<not> b" by auto
    from dialsD [OF srv_invD(3) [OF inv] s(1)] obtain d where d: "map_of (sv_data sv) s = Some d" "da_phase d = Dialling op" by blast
    let ?sv = "sv\<lparr>sv_dials := AList.delete op (sv_dials sv)\<rparr>"
    have i1: "srv_inv ?sv" using inv by simp
    have nd: "op' = op" if "map_of (sv_dials sv) op' = Some s" for op'
      using dialsD [OF srv_invD(3) [OF inv] that] d by simp
    have nt: "map_of (sv_timers sv) t \<noteq> Some (TmRequest s)" for t
      using timersD [OF srv_invD(7) [OF inv], of t "TmRequest s"] d by auto
    have f: "frame sv ?sv" by (simp add: frame_def)
    show ?thesis
    proof (cases r)
      case (Ok tcp)
      obtain resp where resp: "tcp_resp STATUS_OK TcpOk = Some resp" using tcp_resp_ok by blast
      let ?d = "d\<lparr>da_phase := Responding tcp, da_tx := resp\<rparr>"
      have "srv_inv (sv\<lparr>sv_data := AList.update s ?d (sv_data sv), sv_dials := AList.delete op (sv_dials sv), sv_timers := sv_timers sv\<rparr>)"
        by (rule inv_put_data [OF inv d(1)]) (use nd nt d data_buffer [OF inv d(1)] in \<open>auto simp: buffer_ok_def split: if_splits\<close>)
      moreover have "sv\<lparr>sv_data := AList.update s ?d (sv_data sv), sv_dials := AList.delete op (sv_dials sv), sv_timers := sv_timers sv\<rparr>
        = put_data s ?d ?sv" by simp
      ultimately have i2: "srv_inv (put_data s ?d ?sv)" by (simp only:)
      have "frame sv (put_data s ?d ?sv)" using d by (auto simp: frame_def)
      note st2 = step_okI [OF i2 this q1]
      have "returns (send_ok cx s (put_data s ?d ?sv) x1) (step_ok left hist (put_data s ?d ?sv) x1)"
        by (rule send_ok_ok [OF env i2, of s ?d]) simp
      from step_ok_then [OF st2 this] show ?thesis using s d Ok resp unfolding e0 by (simp add: Let_def)
    next
      case (Err e)
      obtain resp where resp: "tcp_resp STATUS_ERROR (map_dial_error e) = Some resp" using tcp_resp_ok by blast
      have d1: "map_of (sv_data ?sv) s = Some d" using d by simp
      have rt: "srv_inv (retired s d tx ?sv)" for tx
        by (rule retired_inv [OF i1 d1]) (use d nd in auto)
      have "returns (respond_error cx s resp ?sv x1) (step_ok left hist ?sv x1)"
        by (rule returns_mono [OF respond_error_ok [OF env d1 rt]]) blast
      from step_ok_then [OF step_okI [OF i1 f q1] this] show ?thesis using s Err resp unfolding e0 by (simp add: Let_def)
    qed
  qed
qed

lemma on_timer_safe:
  assumes env: "env_ok cx left hist" and gw: "gw_ok cx left hist" and s: "safe hist token (sv, x)"
  shows "returns (srv_on_timer cx t sv x) (safe hist token)"
proof (cases "map_of (sv_timers sv) t")
  case None
  then show ?thesis using safe_quiet [OF s gw_call_quiet [OF gw]] by (simp add: srv_on_timer_def)
next
  case (Some tm)
  let ?sv = "sv\<lparr>sv_timers := AList.delete t (sv_timers sv)\<rparr>"
  note inv = safeD(1) [OF s]
  have i1: "srv_inv ?sv" using inv by simp
  have s1: "safe hist token (?sv, x)" using i1 safeD [OF s] by (simp add: safe_def)
  show ?thesis
  proof (cases tm)
    case (TmConn c)
    have "safe hist token (srv_close cx c (put_conn c (k\<lparr>k_timer := None\<rparr>) ?sv) x)" if k: "map_of (sv_conns sv) c = Some k" for k
    proof (rule safe_close [OF env safe_step [OF s1 put_like_step [OF i1]]])
      show "map_of (sv_conns ?sv) c = Some k" using k by simp
      show "quiet left hist x x" by simp
    qed simp_all
    then show ?thesis using Some TmConn s1 by (simp add: srv_on_timer_def Let_def split: option.splits)
  next
    case (TmRequest r)
    then show ?thesis using Some safe_returns [OF s1 drop_data_step [OF env i1]] by (simp add: srv_on_timer_def)
  next
    case TmMetrics
    then show ?thesis using Some on_start_safe [OF env s1] by (simp add: srv_on_timer_def)
  next
    case (TmUdpIdle c sid)
    from timersD [OF srv_invD(7) [OF inv] Some] TmUdpIdle obtain k ss sock a m where C: "map_of (sv_conns sv) c = Some k"
      and S: "map_of (k_udp k) sid = Some ss" and p: "us_phase ss = Live sock a t m" by (auto simp: sess_def split: option.splits)
    have C1: "map_of (sv_conns ?sv) c = Some k" using C by simp
    have nt: "map_of (sv_timers ?sv) t' \<noteq> Some (TmUdpIdle c sid)" for t'
      using session_refs(4) [OF inv C S, of t'] p by auto
    from safe_returns [OF s1 udp_idle_ok [OF env i1 C1 S p nt]] show ?thesis using Some TmUdpIdle by (simp add: srv_on_timer_def)
  qed
qed

text \<open>What the transport guarantees of its events: a connection and a stream are announced once, a stream before any byte of it was read.\<close>

definition event_ok :: "('x \<Rightarrow> stream_id \<Rightarrow> bytes) \<Rightarrow> server \<Rightarrow> 'x \<Rightarrow> app_event \<Rightarrow> bool" where
  "event_ok hist sv x ev \<longleftrightarrow>
     (case ev of
        AppTransport (NewConn c _) \<Rightarrow> map_of (sv_conns sv) c = None
      | AppTransport (NewStream _ s _) \<Rightarrow> map_of (sv_data sv) s = None \<and> hist x s = []
          \<and> (\<forall>c k t. map_of (sv_conns sv) c = Some k \<longrightarrow> k_ctrl k = Some t \<longrightarrow> ct_s t \<noteq> s)
      | _ \<Rightarrow> True)"

lemma transport_event_safe:
  assumes env: "env_ok cx left hist" and gw: "gw_ok cx left hist" and s: "safe hist token (sv, x)"
    and ev: "event_ok hist sv x (AppTransport e)"
  shows "returns (srv_transport_event cx e sv x) (safe hist token)"
proof -
  note inv = safeD(1) [OF s]
  have rd: "returns (case ctrl_conn st sv of Some c \<Rightarrow> srv_ctrl_readable cx c sv x | None \<Rightarrow> Some (sv, x)) (safe hist token)" for st
  proof (cases "ctrl_conn st sv")
    case None
    then show ?thesis using s by simp
  next
    case (Some c)
    from ctrl_connD [OF inv this] obtain k t where "map_of (sv_conns sv) c = Some k" "k_ctrl k = Some t" by blast
    from ctrl_readable_safe [OF env s this] show ?thesis using Some by simp
  qed
  have cl: "returns (case ctrl_conn st sv of Some c \<Rightarrow> Some (srv_close cx c sv x) | None \<Rightarrow> Some (sv, x)) (safe hist token)" for st
    using safe_close [OF env s] s by (simp split: option.splits)
  have closed: "returns (on_conn_closed cx c sv x) (safe hist token)" for c
    by (rule safe_returns [OF s], rule returns_mono [OF on_conn_closed_ok [OF env gw inv]]) blast
  note data = safe_returns [OF s data_readable_ok [OF env inv]] safe_returns [OF s drop_data_step [OF env inv]]
    safe_returns [OF s srv_udp_inbound_ok [OF env inv]] on_writable_safe [OF env s]
  note h3 = safe_quiet [OF s gw_call_quiet [OF gw]]
  show ?thesis
  proof (cases e)
    case (NewConn c proto)
    then show ?thesis using on_new_conn_safe [OF env gw s] ev by (simp add: srv_transport_event_def event_ok_def)
  next
    case (NewStream c st info)
    have "safe hist token (on_new_stream cx c st info sv x)"
      by (rule on_new_stream_safe [OF env s]) (use ev NewStream in \<open>simp_all add: event_ok_def\<close>)
    then show ?thesis using NewStream by (simp add: srv_transport_event_def)
  qed (use rd cl closed data h3 s in \<open>simp_all add: srv_transport_event_def\<close>)
qed

lemma server_event_safe:
  assumes env: "env_ok cx left hist" and gw: "gw_ok cx left hist" and s: "safe hist token (sv, x)" and ev: "event_ok hist sv x ev"
  shows "returns (server_event cx ev sv x) (safe hist token)"
proof -
  note inv = safeD(1) [OF s]
  have stop: "safe hist token (srv_on_shutdown cx sv x)"
  proof -
    let ?sv = "sv\<lparr>sv_shutting_down := True\<rparr>"
    have s1: "safe hist token (?sv, gw_call cx GwShutdown ?sv x)" using s safe_quiet [OF _ gw_call_quiet [OF gw]] by simp
    have "safe hist token (?sv, cx_do cx (CxRequestExit 0) (gw_call cx GwShutdown ?sv x))" by (rule safe_quiet [OF s1 env_do [OF env]])
    then show ?thesis using safe_step [OF s1 close_all_step [OF env safeD(1) [OF s1]]] by (simp add: srv_on_shutdown_def Let_def)
  qed
  note all = on_start_safe [OF env s] safe_quiet [OF s env_do [OF env]] safe_quiet [OF s gw_call_quiet [OF gw]]
    safe_returns [OF s dial_result_ok [OF env gw inv]] safe_returns [OF s udp_resolved_ok [OF env inv]]
    safe_returns [OF s udp_socket_ok [OF env inv]] safe_returns [OF s udp_reply_ok [OF env inv]] on_timer_safe [OF env gw s] stop
  show ?thesis
  proof (cases ev)
    case (AppTransport e)
    then show ?thesis using transport_event_safe [OF env gw s] ev by (simp add: server_event_def)
  qed (use all in \<open>simp_all add: server_event_def\<close>)
qed

section \<open>Reachable states\<close>

text \<open>A run of the server: it starts with or without the gateway; between callbacks the world moves as it likes but reads nothing
  (bytes and datagrams arrive, timers fire); each callback runs at its own time.\<close>

inductive srv_reach :: "'x srv_env \<Rightarrow> ('x \<Rightarrow> stream_id \<Rightarrow> bytes) \<Rightarrow> server_config \<Rightarrow> server \<Rightarrow> 'x \<Rightarrow> bool"
  for env :: "'x srv_env" and hist :: "'x \<Rightarrow> stream_id \<Rightarrow> bytes" and cfg :: server_config where
  reach_new: "srv_reach env hist cfg (server_new cfg) x"
| reach_gateway: "server_with_gateway cfg = Some sv \<Longrightarrow> srv_reach env hist cfg sv x"
| reach_world: "srv_reach env hist cfg sv x \<Longrightarrow> hist y = hist x \<Longrightarrow> srv_reach env hist cfg sv y"
| reach_event: "srv_reach env hist cfg sv x \<Longrightarrow> event_ok hist sv x ev \<Longrightarrow>
    server_event (env\<lparr>cx_now := now\<rparr>) ev sv x = Some (sv', x') \<Longrightarrow> srv_reach env hist cfg sv' x'"

definition world_ok :: "'x srv_env \<Rightarrow> ('x \<Rightarrow> nat) \<Rightarrow> ('x \<Rightarrow> stream_id \<Rightarrow> bytes) \<Rightarrow> bool" where
  "world_ok env left hist \<longleftrightarrow> env_ok env left hist \<and> gw_ok env left hist"

lemma world_now: "world_ok env left hist \<Longrightarrow> env_ok (env\<lparr>cx_now := now\<rparr>) left hist \<and> gw_ok (env\<lparr>cx_now := now\<rparr>) left hist"
  by (simp add: world_ok_def env_ok_def gw_ok_def)

lemma reach_safe:
  assumes "world_ok env left hist" and "srv_reach env hist cfg sv x"
  shows "safe hist (sv_token (server_new cfg)) (sv, x)"
  using assms(2)
proof induction
  case (reach_new x)
  show ?case using srv_inv_new [of cfg] by (simp add: safe_def ctrls_ok_def) (simp add: server_new_def)
next
  case (reach_gateway sv x)
  then have "sv = (server_new cfg)\<lparr>sv_gw := True\<rparr>" by (simp add: server_with_gateway_def split: option.splits)
  then show ?case using srv_inv_new [of cfg] by (simp add: safe_def ctrls_ok_def srv_inv_def) (simp add: server_new_def)
next
  case (reach_world sv x y)
  then show ?case by (simp add: safe_def)
next
  case (reach_event sv x ev now sv' x')
  note w = world_now [OF assms(1), of now]
  show ?case
    by (rule returns_SomeD [OF server_event_safe [OF conjunct1 [OF w] conjunct2 [OF w] reach_event.IH reach_event.hyps(2)] reach_event.hyps(3)])
qed

end
