(* ===== verification/Server_Thms.thy ===== *)
theory Server_Thms
  imports Server_Run
begin

text \<open>
  What the server promises in every state a run reaches: it returns from every callback, it serves only clients that presented the
  token, it keeps its budgets, and it forgets a closed connection. A small world gives the witnesses.
\<close>

section \<open>A run\<close>

text \<open>A world with one stream that has bytes to read, and a log of what was read; a client that authenticates on stream 0 and opens
  stream 1. The witnesses of the properties are states of this run.\<close>

type_synonym demo = "stream_id \<times> bytes \<times> (stream_id \<times> bytes) list"

fun demo_hist :: "demo \<Rightarrow> stream_id \<Rightarrow> bytes" where
  "demo_hist (_, _, log) s = (case map_of log s of Some bs \<Rightarrow> bs | None \<Rightarrow> [])"

fun demo_left :: "demo \<Rightarrow> nat" where
  "demo_left (_, bs, _) = length bs"

fun demo_recv :: "stream_id \<Rightarrow> nat \<Rightarrow> demo \<Rightarrow> (bytes \<times> bool, stream_error) result \<times> demo" where
  "demo_recv s cap (s0, bs, log) =
     (if s = s0 \<and> bs \<noteq> []
      then (Ok (take cap bs, False), (s0, drop cap bs, AList.update s (demo_hist (s0, bs, log) s @ take cap bs) log))
      else (Err SBlocked, (s0, bs, log)))"

definition demo_env :: "demo srv_env" where
  "demo_env = \<lparr>tp_send = (\<lambda>_ _ d _ x. (Ok (length d), x)), tp_recv = (\<lambda>_ s cap x. demo_recv s cap x), cx_now = 0, cx_do = (\<lambda>_ x. x),
     cx_open_stream = (\<lambda>_ x. (Err (), x)), cx_datagram_mss = (\<lambda>_ _. 1200), cx_datagram_send = (\<lambda>_ x _. (Ok (), x)),
     cx_datagram_recv = (\<lambda>_ _ x. (None, x)), cx_open_app_udp_socket = (\<lambda>_ x. (GenId 0 1, x)), cx_udp_send = (\<lambda>_ _ _ x. (Ok (), x)),
     cx_tcp_rx = (\<lambda>_ _. []), cx_tcp_write = (\<lambda>_ _ x. (Ok (), x)), cx_start_relay = (\<lambda>_ _ _ x. (Ok (), x)),
     cx_dial = (\<lambda>_ _ x. (GenId 0 1, x)), cx_resolve = (\<lambda>_ _ x. (GenId 0 1, x)), cx_set_timer = (\<lambda>_ x. (GenId 0 1, x)),
     srv_gw = (\<lambda>_ x. (False, x))\<rparr>"

definition demo_cfg :: server_config where
  "demo_cfg = server_config_default\<lparr>scf_token := [1, 2]\<rparr>"

definition demo_request :: bytes where
  "demo_request = the (encoded (auth_req_encode \<lparr>arq_version = 1, arq_client_id = [], arq_auth_token = [1, 2], arq_features = 0\<rparr> (replicate 16 0)))"

definition demo_next :: "app_event \<Rightarrow> server \<times> demo \<Rightarrow> server \<times> demo" where
  "demo_next ev p = (case p of (sv, x) \<Rightarrow> the (server_event demo_env ev sv x))"

abbreviation demo_conn :: conn_id where "demo_conn \<equiv> GenId 0 1"
abbreviation demo_stream :: "u32 \<Rightarrow> app_event" where
  "demo_stream i \<equiv> AppTransport (NewStream (GenId 0 1) (GenId i 1) \<lparr>si_conn = GenId 0 1, si_quic_id = 4 * ucast i, si_kind = Bidi\<rparr>)"

definition demo1 :: "server \<times> demo" where
  "demo1 = demo_next (AppTransport (NewConn demo_conn ProtoRaw)) (server_new demo_cfg, (GenId 0 1, demo_request, []))"

definition demo2 :: "server \<times> demo" where
  "demo2 = demo_next (demo_stream 0) demo1"

definition demo3 :: "server \<times> demo" where
  "demo3 = demo_next (AppTransport (StreamReadable (GenId 0 1))) demo2"

definition demo4 :: "server \<times> demo" where
  "demo4 = demo_next (demo_stream 1) demo3"

lemma demo_world: "world_ok demo_env demo_left demo_hist"
  by (auto simp: world_ok_def env_ok_def gw_ok_def demo_env_def quiet_def recv_ok_def fun_eq_iff)

lemma demo_reach:
  assumes "srv_reach demo_env demo_hist demo_cfg (fst p) (snd p)" and "event_ok demo_hist (fst p) (snd p) ev"
  shows "srv_reach demo_env demo_hist demo_cfg (fst (demo_next ev p)) (snd (demo_next ev p))"
proof -
  obtain sv x where p: "p = (sv, x)" by (cases p)
  note w = demo_world [unfolded world_ok_def]
  from server_event_safe [OF conjunct1 [OF w] conjunct2 [OF w] reach_safe [OF demo_world assms(1)] assms(2)] p
  obtain sv' x' where e: "server_event demo_env ev sv x = Some (sv', x')" by (auto simp: returns_def)
  have n: "demo_env\<lparr>cx_now := 0\<rparr> = demo_env" by (simp add: demo_env_def)
  from reach_event [OF assms, of 0 sv' x'] show ?thesis using e p by (simp add: demo_next_def n)
qed

definition demo_k :: "srv_ctrl option \<Rightarrow> timer_id option \<Rightarrow> nat \<Rightarrow> srv_conn" where
  "demo_k ctrl timer n = \<lparr>k_proto = ProtoRaw, k_ctrl = ctrl, k_timer = timer, k_held = n, k_closing = False, k_udp = [],
     k_preopen = pre_open_new, k_mss = mss_cache_new, k_counters = counters_default\<rparr>"

definition demo_ctrl :: "ctrl_st \<Rightarrow> srv_ctrl" where
  "demo_ctrl st = \<lparr>ct_s = GenId 0 1, ct_st = st, ct_rx = [], ct_tx = [], ct_fin = False\<rparr>"

lemmas demo_simps = demo_next_def demo_env_def demo_k_def demo_ctrl_def server_new_def demo_cfg_def server_config_default_def
  server_event_def srv_transport_event_def srv_timer_def

lemma demo1_eq: "demo1 = ((server_new demo_cfg)\<lparr>sv_timers := [(GenId 0 1, TmConn demo_conn)],
    sv_conns := [(demo_conn, demo_k None (Some (GenId 0 1)) 0)], sv_active := Some demo_conn\<rparr>, (GenId 0 1, demo_request, []))"
  by (simp add: demo1_def demo_simps on_new_conn_def)

lemma demo2_eq: "demo2 = ((server_new demo_cfg)\<lparr>sv_timers := [(GenId 0 1, TmConn demo_conn)],
    sv_conns := [(demo_conn, demo_k (Some (demo_ctrl Authing)) (Some (GenId 0 1)) 1)], sv_active := Some demo_conn\<rparr>, (GenId 0 1, demo_request, []))"
  by (simp add: demo2_def demo1_eq demo_simps on_new_stream_def)

lemma demo_decode: "auth_req_decode demo_request = Ok (\<lparr>arq_version = 1, arq_client_id = [], arq_auth_token = [1, 2], arq_features = 0\<rparr>, length demo_request)"
  "length demo_request \<le> 16" "demo_request \<noteq> []"
  by code_simp+

lemma demo_auth: "auth_loop demo_env [1, 2] (GenId 0 1) [] (GenId 0 1, demo_request, []) =
    Some (AuthDone True, demo_request, (GenId 0 1, [], [(GenId 0 1, demo_request)]))"
  using demo_decode by (subst auth_loop.simps) (simp add: app_recv_def demo_env_def REQ_BUF_def MAX_FRAME_def)

lemma demo_drain: "drain demo_env (GenId 0 1) (GenId 0 1, [], log) = Some (True, (GenId 0 1, [], log))"
  by (subst drain.simps) (simp add: app_recv_def demo_env_def)

lemma demo3_eq: "\<exists>n. demo3 = ((server_new demo_cfg)\<lparr>sv_timers := [], sv_auth_attempts := n,
    sv_conns := [(demo_conn, demo_k (Some (demo_ctrl Settled)) None 1)], sv_active := Some demo_conn\<rparr>, (GenId 0 1, [], [(GenId 0 1, demo_request)]))"
proof -
  obtain resp where r: "auth_response True True = Some resp" using auth_response_ok by blast
  have f: "flush demo_env s tx fin x = (True, [], x)" for s tx fin x by (simp add: flush_def demo_env_def)
  let ?sv = "\<lambda>n. (server_new demo_cfg)\<lparr>sv_timers := [], sv_auth_attempts := n,
    sv_conns := [(demo_conn, demo_k (Some (demo_ctrl Settled)) None 1)], sv_active := Some demo_conn\<rparr>"
  have d: "auth_decided demo_env demo_conn (demo_k (Some ((demo_ctrl Authing)\<lparr>ct_rx := demo_request\<rparr>)) (Some (GenId 0 1)) 1) (demo_ctrl Authing) True
      ((server_new demo_cfg)\<lparr>sv_timers := [(GenId 0 1, TmConn demo_conn)],
        sv_conns := [(demo_conn, demo_k (Some ((demo_ctrl Authing)\<lparr>ct_rx := demo_request\<rparr>)) (Some (GenId 0 1)) 1)], sv_active := Some demo_conn\<rparr>) x
    = Some (True, ?sv 1, x)" for x
    using r f unfolding auth_decided_def Let_def
    by (simp add: demo_k_def demo_ctrl_def server_new_def demo_cfg_def server_config_default_def srv_cancel_def) (simp add: demo_env_def)
  have z: "srv_ctrl_readable demo_env demo_conn (?sv 1) (GenId 0 1, [], log) = Some (?sv 1, (GenId 0 1, [], log))" for log
    by (subst srv_ctrl_readable.simps) (simp add: demo_k_def demo_ctrl_def demo_drain server_new_def)
  have "srv_ctrl_readable demo_env demo_conn (fst demo2) (snd demo2) = Some (?sv 1, (GenId 0 1, [], [(GenId 0 1, demo_request)]))"
    using d z demo_auth
    by (subst srv_ctrl_readable.simps) (simp add: demo2_eq demo_k_def demo_ctrl_def server_new_def demo_cfg_def MAX_TOKEN_def)
  then show ?thesis
    by (intro exI [of _ 1]) (simp add: demo3_def demo_next_def server_event_def srv_transport_event_def demo2_eq ctrl_conn_def demo_k_def demo_ctrl_def server_new_def)
qed

lemma demo4_data: "map_of (sv_data (fst demo4)) (GenId 1 1) \<noteq> None" "map_of (sv_conns (fst demo4)) demo_conn \<noteq> None"
proof -
  obtain n where e: "demo3 = ((server_new demo_cfg)\<lparr>sv_timers := [], sv_auth_attempts := n,
    sv_conns := [(demo_conn, demo_k (Some (demo_ctrl Settled)) None 1)], sv_active := Some demo_conn\<rparr>, (GenId 0 1, [], [(GenId 0 1, demo_request)]))"
    using demo3_eq by blast
  show "map_of (sv_data (fst demo4)) (GenId 1 1) \<noteq> None" "map_of (sv_conns (fst demo4)) demo_conn \<noteq> None"
    unfolding demo4_def demo_next_def e by (simp_all add: demo_simps on_new_stream_def conn_authed_def STREAM_BUDGET_def Let_def)
qed

lemma demo_run: "srv_reach demo_env demo_hist demo_cfg (fst demo4) (snd demo4)"
proof -
  have "srv_reach demo_env demo_hist demo_cfg (fst demo1) (snd demo1)"
    unfolding demo1_def by (rule demo_reach) (simp add: reach_new, simp add: event_ok_def server_new_def)
  then have "srv_reach demo_env demo_hist demo_cfg (fst demo2) (snd demo2)"
    unfolding demo2_def by (rule demo_reach) (simp add: demo1_eq event_ok_def demo_k_def server_new_def)
  then have r: "srv_reach demo_env demo_hist demo_cfg (fst demo3) (snd demo3)"
    unfolding demo3_def by (rule demo_reach) (simp add: event_ok_def)
  obtain n where e: "demo3 = ((server_new demo_cfg)\<lparr>sv_timers := [], sv_auth_attempts := n,
    sv_conns := [(demo_conn, demo_k (Some (demo_ctrl Settled)) None 1)], sv_active := Some demo_conn\<rparr>, (GenId 0 1, [], [(GenId 0 1, demo_request)]))"
    using demo3_eq by blast
  have "event_ok demo_hist (fst demo3) (snd demo3) (demo_stream 1)"
    unfolding e by (simp add: event_ok_def demo_k_def demo_ctrl_def server_new_def)
  from demo_reach [OF r this] show ?thesis by (simp add: demo4_def)
qed

section \<open>What the server promises\<close>



text \<open>A connection is vouched for when its control stream presented the configured token, cut to its 255 bytes.\<close>

definition vouched :: "server_config \<Rightarrow> (stream_id \<Rightarrow> bytes) \<Rightarrow> server \<Rightarrow> conn_id \<Rightarrow> bool" where
  "vouched cfg h sv c \<longleftrightarrow> (\<exists>k t. map_of (sv_conns sv) c = Some k \<and> k_ctrl k = Some t
     \<and> presented (take MAX_TOKEN (scf_token cfg)) (h (ct_s t)))"

lemma data_vouched:
  assumes "safe hist (sv_token (server_new cfg)) (sv, x)" and "map_of (sv_data sv) s = Some d"
  shows "vouched cfg (hist x) sv (da_conn d)"
proof -
  note sd = safeD [OF assms(1)]
  from live_conn [OF sd(1) assms(2)] obtain k where k: "map_of (sv_conns sv) (da_conn d) = Some k" "conn_authed k" by metis
  then obtain t where t: "k_ctrl k = Some t" "ct_st t = Settled" by (auto simp: conn_authed_def split: option.splits)
  have "sv_token (server_new cfg) = take MAX_TOKEN (scf_token cfg)" by (simp add: server_new_def min_def)
  then show ?thesis using ctrlsD(1) [OF sd(3) k(1) t(1)] k t by (auto simp: vouched_def ctrl_ok_def)
qed

lemma session_vouched:
  assumes "safe hist (sv_token (server_new cfg)) (sv, x)" and "sess (map_of (sv_conns sv)) c sid = Some ss"
  shows "vouched cfg (hist x) sv c"
proof -
  have "session_ok (map_of (sv_data sv)) c sid ss" using srv_invD(2) [OF safeD(1) [OF assms(1)]] assms(2) by (simp add: tables_ok_def)
  then show ?thesis using data_vouched [OF assms(1)] by (auto simp: session_ok_def)
qed

text \<open>C5. Only clients that presented the token are served. In every reachable state each data stream, each pending dial and each
  pending resolve, socket open and UDP socket of a session belongs to a connection on whose control stream the server
  has read an authentication request with the configured token.\<close>

theorem server_serves_token_holders:
  assumes "world_ok env left hist" and "srv_reach env hist cfg sv x"
  shows "(\<forall>s d. map_of (sv_data sv) s = Some d \<longrightarrow> vouched cfg (hist x) sv (da_conn d))
    \<and> (\<forall>op s. map_of (sv_dials sv) op = Some s \<longrightarrow> (\<exists>d. map_of (sv_data sv) s = Some d \<and> vouched cfg (hist x) sv (da_conn d)))
    \<and> (\<forall>op c sid. map_of (sv_resolves sv) op = Some (c, sid) \<longrightarrow> vouched cfg (hist x) sv c)
    \<and> (\<forall>op c sid. map_of (sv_socket_opens sv) op = Some (c, sid) \<longrightarrow> vouched cfg (hist x) sv c)
    \<and> (\<forall>sk c sid. map_of (sv_udp_socks sv) sk = Some (c, sid) \<longrightarrow> vouched cfg (hist x) sv c)"
proof -
  note s = reach_safe [OF assms] and i = srv_invD [OF safeD(1) [OF reach_safe [OF assms]]]
  note d = data_vouched [OF s] and v = session_vouched [OF s]
  show ?thesis
    using d dialsD [OF i(3)] resolvesD [OF i(4)] opensD [OF i(5)] socksD [OF i(6)] v by blast
qed

text \<open>Witness: the run has a data stream, and the token of its connection was presented.\<close>

theorem server_serves_token_holders_witness:
  "\<exists>d. map_of (sv_data (fst demo4)) (GenId 1 1) = Some d \<and> vouched demo_cfg (demo_hist (snd demo4)) (fst demo4) (da_conn d)"
  using server_serves_token_holders [OF demo_world demo_run] demo4_data(1) by blast

text \<open>C14. The budgets of a connection hold in every reachable state: the held count is exactly the number of its data streams and its
  control stream, at most 4096; at most 1024 sessions; what waits for a session is bounded; a request buffers at most
  1024 bytes and a relay at most its window.\<close>

theorem server_budgets:
  assumes "world_ok env left hist" and "srv_reach env hist cfg sv x"
  shows "(\<forall>c k. map_of (sv_conns sv) c = Some k \<longrightarrow>
      k_held k = card {s. \<exists>d. map_of (sv_data sv) s = Some d \<and> da_conn d = c} + (if k_ctrl k = None then 0 else 1)
      \<and> k_held k \<le> STREAM_BUDGET \<and> length (k_udp k) \<le> MAX_SESSIONS_PER_CONN \<and> pre_open_inv (k_preopen k))
    \<and> (\<forall>s d. map_of (sv_data sv) s = Some d \<longrightarrow>
      length (da_rx d) \<le> RELAY_BUF \<and> (\<forall>t. da_phase d = Request t \<longrightarrow> length (da_rx d) \<le> REQ_BUF))"
proof -
  note inv = safeD(1) [OF reach_safe [OF assms]]
  have "conn_ok (map_of (sv_data sv)) c k" if "map_of (sv_conns sv) c = Some k" for c k
    by (rule tables_connD [OF srv_invD(2) [OF inv] that])
  moreover have "buffer_ok d" if "map_of (sv_data sv) s = Some d" for s d by (rule data_buffer [OF inv that])
  ultimately show ?thesis unfolding conn_ok_def buffer_ok_def streams_of_def by blast
qed

text \<open>Witness: the connection of the run.\<close>

theorem server_budgets_witness:
  "\<exists>k. map_of (sv_conns (fst demo4)) demo_conn = Some k \<and> k_held k \<le> STREAM_BUDGET \<and> length (k_udp k) \<le> MAX_SESSIONS_PER_CONN"
  using server_budgets [OF demo_world demo_run] demo4_data(2) by blast



end
