(* ===== verification/Mitm_Policy.thy ===== *)
theory Mitm_Policy
  imports Net_Types Rust_Std
begin

text \<open>
  Which captured TLS flows are intercepted, \<^verbatim>\<open>crates/mq-proxy/src/client/mitm/policy.rs\<close>: the canonical host name, the list of
  hosts to leave alone, the name constraints of the certificate authority and the routing decision.
  Host names are compared as text by the code; the reference definitions compare their labels.
\<close>

section \<open>Canonical names\<close>

text \<open>\<open>str::strip_suffix\<close> and \<open>IpAddr::from_str\<close> of the standard library.\<close>

definition strip_suffix :: "'a list \<Rightarrow> 'a list \<Rightarrow> 'a list option" where
  "strip_suffix p s =
     (if length p \<le> length s \<and> drop (length s - length p) s = p then Some (take (length s - length p) s) else None)"

definition read_ip_addr :: "ip_addr reader" where
  "read_ip_addr s =
     (case read_ipv4_addr s of
        Some (a, r) \<Rightarrow> Some (IpV4 a, r)
      | None \<Rightarrow> map_option (\<lambda>(a, r). (IpV6 a, r)) (read_ipv6_addr s))"

definition parse_ip_addr :: "bytes \<Rightarrow> ip_addr option" where
  "parse_ip_addr s = parse_with read_ip_addr s"

type_synonym sni = bytes

abbreviation labels :: "bytes \<Rightarrow> bytes list" where
  "labels \<equiv> slice_split (\<lambda>c. c = 0x2E)"

definition label_ok :: "bytes \<Rightarrow> bool" where
  "label_ok l \<longleftrightarrow> 1 \<le> length l \<and> length l \<le> 63 \<and> list_all (\<lambda>c. is_ascii_alphanumeric c \<or> c = 0x2D) l"

definition sni_canonical :: "bytes \<Rightarrow> sni option" where
  "sni_canonical b =
     (let b = (case strip_suffix [0x2E] b of Some p \<Rightarrow> p | None \<Rightarrow> b) in
      if b = [] \<or> 253 < length b then None
      else (case from_utf8 b of
        None \<Rightarrow> None
      | Some t \<Rightarrow>
          let s = map to_ascii_lowercase t in
          if \<not> list_all label_ok (labels s) \<or> parse_ip_addr s \<noteq> None then None else Some s))"

definition is_under :: "sni \<Rightarrow> sni \<Rightarrow> bool" where
  "is_under s base = (case strip_suffix base s of None \<Rightarrow> False | Some p \<Rightarrow> p \<noteq> [] \<and> last p = 0x2E)"

definition is_under_or_eq :: "sni \<Rightarrow> sni \<Rightarrow> bool" where
  "is_under_or_eq s base \<longleftrightarrow> s = base \<or> is_under s base"

section \<open>Hosts to leave alone\<close>

text \<open>The two hash sets are lists without repetition. An error carries the entry its message names.\<close>

record ignore_hosts =
  ih_exact :: "sni list"
  ih_suffix :: "sni list"

definition ignore_default :: ignore_hosts where
  "ignore_default = \<lparr>ih_exact = [], ih_suffix = []\<rparr>"

fun ignore_loop :: "bytes list \<Rightarrow> ignore_hosts \<Rightarrow> (ignore_hosts, bytes) result" where
  "ignore_loop [] h = Ok h"
| "ignore_loop (e # es) h =
     (let (dot, host) = (case e of [] \<Rightarrow> (False, e) | c # r \<Rightarrow> if c = 0x2E then (True, r) else (False, e)) in
      case sni_canonical host of
        None \<Rightarrow> Err e
      | Some s \<Rightarrow>
          ignore_loop es (if dot then h\<lparr>ih_suffix := List.insert s (ih_suffix h)\<rparr> else h\<lparr>ih_exact := List.insert s (ih_exact h)\<rparr>))"

definition ignore_parse :: "bytes list \<Rightarrow> (ignore_hosts, bytes) result" where
  "ignore_parse entries = ignore_loop entries ignore_default"

definition ignore_matches :: "ignore_hosts \<Rightarrow> sni \<Rightarrow> bool" where
  "ignore_matches h n \<longleftrightarrow> List.member (ih_exact h) n
     \<or> list_ex (\<lambda>i. n ! i = 0x2E \<and> List.member (ih_suffix h) (drop (i + 1) n)) [0..<length n]"

definition ignore_len :: "ignore_hosts \<Rightarrow> nat" where
  "ignore_len h = length (ih_exact h) + length (ih_suffix h)"

definition ignore_is_empty :: "ignore_hosts \<Rightarrow> bool" where
  "ignore_is_empty h \<longleftrightarrow> ignore_len h = 0"

section \<open>Name constraints\<close>

datatype dns_subtree = All | Domain sni | Under sni

fun subtree_matches :: "dns_subtree \<Rightarrow> sni \<Rightarrow> bool" where
  "subtree_matches All s = True"
| "subtree_matches (Domain c) s = is_under_or_eq s c"
| "subtree_matches (Under c) s = is_under s c"

record ca_scope =
  sc_permitted :: "dns_subtree list"
  sc_excluded :: "dns_subtree list"

definition scope_covers :: "ca_scope \<Rightarrow> sni \<Rightarrow> bool" where
  "scope_covers sc s \<longleftrightarrow> (sc_permitted sc = [] \<or> list_ex (\<lambda>t. subtree_matches t s) (sc_permitted sc))
     \<and> \<not> list_ex (\<lambda>t. subtree_matches t s) (sc_excluded sc)"

section \<open>Routing\<close>

datatype why = NotTls | NoSni | BadSni | NoH2 | Ignored | OutOfCaScope | TlsIncompatible | WTimeout | TooLarge | WEof | AtCapacity

definition why_all :: "why list" where
  "why_all = [NotTls, NoSni, BadSni, NoH2, Ignored, OutOfCaScope, TlsIncompatible, WTimeout, TooLarge, WEof, AtCapacity]"

fun why_key :: "why \<Rightarrow> string" where
  "why_key NotTls = ''not_tls''"
| "why_key NoSni = ''no_sni''"
| "why_key BadSni = ''bad_sni''"
| "why_key NoH2 = ''no_h2''"
| "why_key Ignored = ''ignored''"
| "why_key OutOfCaScope = ''ca_scope''"
| "why_key TlsIncompatible = ''tls_incompat''"
| "why_key WTimeout = ''timeout''"
| "why_key TooLarge = ''too_large''"
| "why_key WEof = ''eof''"
| "why_key AtCapacity = ''capacity''"

datatype route = Mitm sni | Opaque why

record mitm_policy =
  mp_ignore :: ignore_hosts
  mp_scope :: ca_scope

definition policy_route :: "mitm_policy \<Rightarrow> bytes option \<Rightarrow> bool \<Rightarrow> route" where
  "policy_route p sni offers_h2 =
     (case sni of
        None \<Rightarrow> Opaque NoSni
      | Some raw \<Rightarrow>
          (case sni_canonical raw of
             None \<Rightarrow> Opaque BadSni
           | Some sni \<Rightarrow>
               if \<not> offers_h2 then Opaque NoH2
               else if ignore_matches (mp_ignore p) sni then Opaque Ignored
               else if \<not> scope_covers (mp_scope p) sni then Opaque OutOfCaScope
               else Mitm sni))"

section \<open>Text and labels\<close>

text \<open>A name is the join of its labels, so a text suffix behind a dot is a proper suffix of the labels.\<close>

lemma slice_split_ne: "slice_split P xs \<noteq> []"
  by (induction xs) (auto split: list.splits)

lemma slice_split_append:
  assumes "P d" shows "slice_split P (xs @ d # ys) = slice_split P xs @ slice_split P ys"
  using assms by (induction xs) (auto simp: slice_split_ne split: list.splits)

fun join_dots :: "bytes list \<Rightarrow> bytes" where
  "join_dots [] = []"
| "join_dots [l] = l"
| "join_dots (l # k # ls) = l @ 0x2E # join_dots (k # ls)"

lemma join_labels [simp]: "join_dots (labels n) = n"
proof (induction n)
  case (Cons c n)
  obtain l ls where l: "labels n = l # ls" using slice_split_ne [of _ n] by (cases "labels n") auto
  with Cons show ?case by (cases ls) auto
qed simp

lemma labels_inj: "labels a = labels b \<longleftrightarrow> a = b"
  using join_labels by metis

lemma join_dots_append: "ls \<noteq> [] \<Longrightarrow> ks \<noteq> [] \<Longrightarrow> join_dots (ls @ ks) = join_dots ls @ 0x2E # join_dots ks"
  by (induction ls rule: join_dots.induct) (auto simp: neq_Nil_conv)

definition labels_under :: "bytes list \<Rightarrow> bytes list \<Rightarrow> bool" where
  "labels_under ls ks \<longleftrightarrow> length ks < length ls \<and> drop (length ls - length ks) ls = ks"

lemma labels_under_iff: "labels_under (labels n) (labels base) \<longleftrightarrow> (\<exists>xs. n = xs @ 0x2E # base)"
proof
  assume u: "labels_under (labels n) (labels base)"
  let ?k = "length (labels n) - length (labels base)"
  have d: "drop ?k (labels n) = labels base" "0 < ?k" using u by (simp_all add: labels_under_def)
  then have ne: "take ?k (labels n) \<noteq> []" using slice_split_ne [of "\<lambda>c. c = 0x2E" n] by simp
  have "n = join_dots (take ?k (labels n) @ drop ?k (labels n))" by simp
  also have "\<dots> = join_dots (take ?k (labels n)) @ 0x2E # base"
    unfolding d(1) by (subst join_dots_append [OF ne slice_split_ne]) simp
  finally show "\<exists>xs. n = xs @ 0x2E # base" by blast
next
  assume "\<exists>xs. n = xs @ 0x2E # base"
  then obtain xs where n: "n = xs @ 0x2E # base" by blast
  show "labels_under (labels n) (labels base)" unfolding n slice_split_append [of "\<lambda>c. c = 0x2E" "0x2E", OF refl]
    using slice_split_ne [of "\<lambda>c. c = 0x2E" xs] by (simp add: labels_under_def)
qed

lemma strip_suffix_Some: "strip_suffix p s = Some r \<longleftrightarrow> s = r @ p"
proof
  assume "strip_suffix p s = Some r"
  then have "drop (length s - length p) s = p" "r = take (length s - length p) s" by (auto simp: strip_suffix_def split: if_splits)
  then show "s = r @ p" using append_take_drop_id [of "length s - length p" s] by simp
qed (simp add: strip_suffix_def)

lemma is_under_labels: "is_under s base \<longleftrightarrow> labels_under (labels s) (labels base)"
proof -
  have "(\<exists>p. strip_suffix base s = Some p \<and> p \<noteq> [] \<and> last p = 0x2E) \<longleftrightarrow> (\<exists>xs. s = xs @ 0x2E # base)"
  proof
    assume "\<exists>p. strip_suffix base s = Some p \<and> p \<noteq> [] \<and> last p = 0x2E"
    then obtain p where p: "s = p @ base" "p \<noteq> []" "last p = 0x2E" unfolding strip_suffix_Some by blast
    then have "s = butlast p @ 0x2E # base" using append_butlast_last_id [OF p(2)] by simp
    then show "\<exists>xs. s = xs @ 0x2E # base" by blast
  next
    assume "\<exists>xs. s = xs @ 0x2E # base"
    then obtain xs where "s = (xs @ [0x2E]) @ base" by auto
    then have "strip_suffix base s = Some (xs @ [0x2E])" unfolding strip_suffix_Some .
    then show "\<exists>p. strip_suffix base s = Some p \<and> p \<noteq> [] \<and> last p = 0x2E" by simp
  qed
  then show ?thesis unfolding labels_under_iff is_under_def by (cases "strip_suffix base s") auto
qed

lemma ignore_matches_iff:
  "ignore_matches h n \<longleftrightarrow> n \<in> set (ih_exact h) \<or> (\<exists>b \<in> set (ih_suffix h). labels_under (labels n) (labels b))"
proof -
  have "(\<exists>i < length n. n ! i = 0x2E \<and> drop (i + 1) n \<in> set (ih_suffix h)) \<longleftrightarrow> (\<exists>b \<in> set (ih_suffix h). \<exists>xs. n = xs @ 0x2E # b)"
  proof
    assume "\<exists>i < length n. n ! i = 0x2E \<and> drop (i + 1) n \<in> set (ih_suffix h)"
    then obtain i where i: "i < length n" "n ! i = 0x2E" "drop (i + 1) n \<in> set (ih_suffix h)" by blast
    then have "n = take i n @ 0x2E # drop (i + 1) n" using id_take_nth_drop [of i n] by simp
    with i(3) show "\<exists>b \<in> set (ih_suffix h). \<exists>xs. n = xs @ 0x2E # b" by blast
  next
    assume "\<exists>b \<in> set (ih_suffix h). \<exists>xs. n = xs @ 0x2E # b"
    then obtain b xs where "b \<in> set (ih_suffix h)" "n = xs @ 0x2E # b" by blast
    then show "\<exists>i < length n. n ! i = 0x2E \<and> drop (i + 1) n \<in> set (ih_suffix h)" by (intro exI [of _ "length xs"]) simp
  qed
  then show ?thesis by (auto simp: ignore_matches_def list_ex_iff labels_under_iff)
qed

section \<open>The canonical form\<close>

lemma lowercase_idem [simp]: "to_ascii_lowercase (to_ascii_lowercase c) = to_ascii_lowercase c"
proof (cases "0x41 \<le> c \<and> c \<le> 0x5A")
  case True
  then have "unat c \<le> 0x5A" using word_le_nat_alt [of c "0x5A"] by simp
  then have "unat (c + 0x20) = unat c + 0x20" by (simp add: unat_word_ariths)
  with True have "\<not> c + 0x20 \<le> 0x5A" using word_le_nat_alt [of "0x41" c] word_le_nat_alt [of "c + 0x20" "0x5A"] by simp
  with True show ?thesis by (simp add: to_ascii_lowercase_def)
qed (auto simp: to_ascii_lowercase_def)

definition canonical_name :: "sni \<Rightarrow> bool" where
  "canonical_name s \<longleftrightarrow> s \<noteq> [] \<and> length s \<le> 253 \<and> list_all label_ok (labels s) \<and> map to_ascii_lowercase s = s \<and> parse_ip_addr s = None"

lemma sni_canonical_shape: "sni_canonical b = Some s \<Longrightarrow> canonical_name s"
  by (auto simp: sni_canonical_def canonical_name_def from_utf8_def Let_def o_def split: if_splits)

lemma set_join_dots: "set (join_dots ls) \<subseteq> insert 0x2E (\<Union> (set ` set ls))"
  by (induction ls rule: join_dots.induct) auto

lemma canonical_ascii:
  assumes "list_all label_ok (labels s)" shows "list_all (\<lambda>b. b \<le> 0x7F) s"
proof -
  have "b \<le> 0x7F" if "b \<in> set s" for b
  proof -
    from that have "b = 0x2E \<or> (\<exists>l \<in> set (labels s). b \<in> set l)" using set_join_dots [of "labels s"] by auto
    then have "b = 0x2E \<or> is_ascii_alphanumeric b \<or> b = 0x2D" using assms by (auto simp: list_all_iff label_ok_def)
    then show ?thesis
      by (elim disjE) (auto simp: is_ascii_alphanumeric_def is_ascii_digit_def intro: order_trans)
  qed
  then show ?thesis by (simp add: list_all_iff)
qed

lemma canonical_no_dot:
  assumes "list_all label_ok (labels s)" shows "strip_suffix [0x2E] s = None"
proof (rule ccontr)
  assume "strip_suffix [0x2E] s \<noteq> None"
  then obtain p where "s = p @ [0x2E]" using strip_suffix_Some [of "[0x2E]" s] by auto
  then have "labels s = labels p @ [[]]" using slice_split_append [of "\<lambda>c. c = 0x2E" "0x2E" p "[]"] by simp
  with assms show False by (simp add: label_ok_def)
qed

lemma sni_canonical_id:
  assumes "canonical_name s" shows "sni_canonical s = Some s"
proof -
  have l: "list_all label_ok (labels s)" using assms by (simp add: canonical_name_def)
  from utf8_valid_ascii [OF canonical_ascii [OF l]] canonical_no_dot [OF l] assms
  show ?thesis by (simp add: sni_canonical_def canonical_name_def from_utf8_def)
qed

section \<open>Reference decisions\<close>

definition entry_host :: "bytes \<Rightarrow> bytes" where
  "entry_host e = (if e \<noteq> [] \<and> hd e = 0x2E then tl e else e)"

definition entry_matches :: "bytes \<Rightarrow> sni \<Rightarrow> bool" where
  "entry_matches e n =
     (case sni_canonical (entry_host e) of
        None \<Rightarrow> False
      | Some b \<Rightarrow> if hd e = 0x2E then labels_under (labels n) (labels b) else labels n = labels b)"

fun ref_subtree :: "dns_subtree \<Rightarrow> sni \<Rightarrow> bool" where
  "ref_subtree All n = True"
| "ref_subtree (Domain c) n = (labels n = labels c \<or> labels_under (labels n) (labels c))"
| "ref_subtree (Under c) n = labels_under (labels n) (labels c)"

definition ref_route :: "bytes list \<Rightarrow> ca_scope \<Rightarrow> bytes option \<Rightarrow> bool \<Rightarrow> route" where
  "ref_route entries sc raw offers_h2 =
     (case raw of
        None \<Rightarrow> Opaque NoSni
      | Some r \<Rightarrow>
          (case sni_canonical r of
             None \<Rightarrow> Opaque BadSni
           | Some n \<Rightarrow>
               if \<not> offers_h2 then Opaque NoH2
               else if list_ex (\<lambda>e. entry_matches e n) entries then Opaque Ignored
               else if (sc_permitted sc = [] \<or> list_ex (\<lambda>t. ref_subtree t n) (sc_permitted sc))
                    \<and> list_all (\<lambda>t. \<not> ref_subtree t n) (sc_excluded sc)
               then Mitm n else Opaque OutOfCaScope))"

lemma subtree_matches_labels: "subtree_matches t n = ref_subtree t n"
  by (cases t) (simp_all add: is_under_or_eq_def is_under_labels labels_inj)

lemma scope_covers_labels:
  "scope_covers sc n \<longleftrightarrow> (sc_permitted sc = [] \<or> list_ex (\<lambda>t. ref_subtree t n) (sc_permitted sc))
     \<and> list_all (\<lambda>t. \<not> ref_subtree t n) (sc_excluded sc)"
  by (simp add: scope_covers_def subtree_matches_labels list_ex_iff list_all_iff)

lemma ignore_loop_matches:
  assumes "ignore_loop es h = Ok h'"
  shows "ignore_matches h' n \<longleftrightarrow> ignore_matches h n \<or> list_ex (\<lambda>e. entry_matches e n) es"
  using assms
proof (induction es arbitrary: h)
  case (Cons e es)
  from Cons.prems obtain b where b: "sni_canonical (entry_host e) = Some b"
    by (auto simp: entry_host_def split: list.splits if_splits option.splits)
  have ne: "e \<noteq> []" using b by (auto simp: entry_host_def sni_canonical_def strip_suffix_def)
  let ?h = "if hd e = 0x2E then h\<lparr>ih_suffix := List.insert b (ih_suffix h)\<rparr> else h\<lparr>ih_exact := List.insert b (ih_exact h)\<rparr>"
  have "ignore_loop es ?h = Ok h'" using Cons.prems b ne by (cases e) (auto simp: entry_host_def split: if_splits)
  from Cons.IH [OF this] have "ignore_matches h' n \<longleftrightarrow> ignore_matches ?h n \<or> list_ex (\<lambda>e. entry_matches e n) es" .
  moreover have "ignore_matches ?h n \<longleftrightarrow> ignore_matches h n \<or> entry_matches e n"
    by (auto simp: ignore_matches_iff entry_matches_def b labels_inj)
  ultimately show ?case by auto
qed simp

lemma ignore_loop_error:
  "ignore_loop es h = Err e \<longleftrightarrow>
     (\<exists>pre post. es = pre @ e # post \<and> (\<forall>x \<in> set pre. sni_canonical (entry_host x) \<noteq> None) \<and> sni_canonical (entry_host e) = None)"
proof (induction es arbitrary: h)
  case (Cons x es)
  have step: "ignore_loop (x # es) h =
      (case sni_canonical (entry_host x) of None \<Rightarrow> Err x | Some b \<Rightarrow> ignore_loop es
         (if x \<noteq> [] \<and> hd x = 0x2E then h\<lparr>ih_suffix := List.insert b (ih_suffix h)\<rparr> else h\<lparr>ih_exact := List.insert b (ih_exact h)\<rparr>))"
    by (cases x) (simp_all add: entry_host_def split: option.splits)
  show ?case
  proof (cases "sni_canonical (entry_host x)")
    case None
    then show ?thesis unfolding step by (auto simp: Cons_eq_append_conv)
  next
    case (Some b)
    have "(\<exists>pre post. es = pre @ e # post \<and> (\<forall>x \<in> set pre. sni_canonical (entry_host x) \<noteq> None) \<and> sni_canonical (entry_host e) = None)
      \<longleftrightarrow> (\<exists>pre post. x # es = pre @ e # post \<and> (\<forall>x \<in> set pre. sni_canonical (entry_host x) \<noteq> None) \<and> sni_canonical (entry_host e) = None)"
      (is "?l \<longleftrightarrow> ?r")
    proof
      assume ?l
      then obtain pre post where "x # es = (x # pre) @ e # post" "\<forall>y \<in> set (x # pre). sni_canonical (entry_host y) \<noteq> None"
        "sni_canonical (entry_host e) = None" using Some by auto
      then show ?r by blast
    next
      assume ?r
      then obtain pre post where r: "x # es = pre @ e # post" "\<forall>y \<in> set pre. sni_canonical (entry_host y) \<noteq> None"
        "sni_canonical (entry_host e) = None" by blast
      with Some obtain pre' where "pre = x # pre'" by (cases pre) auto
      with r show ?l by auto
    qed
    then show ?thesis unfolding step Some option.case Cons.IH .
  qed
qed simp

section \<open>Properties\<close>

text \<open>C24. The routing decision, computed on text with hash lookups and suffix stripping, is the one read off the labels: a
  flow is intercepted exactly when it names a canonical host, offers HTTP/2, matches no configured entry (an entry
  matches its own name only, a leading-dot entry strict subdomains only) and lies within the authority's permitted and outside its
  excluded subtrees; the first failing check names the reason. An intercepted name is canonical, and canonicalising it again changes
  nothing.\<close>

theorem route_by_labels:
  assumes "ignore_parse entries = Ok ign"
  shows "policy_route \<lparr>mp_ignore = ign, mp_scope = sc\<rparr> raw offers_h2 = ref_route entries sc raw offers_h2
    \<and> (\<forall>s. policy_route \<lparr>mp_ignore = ign, mp_scope = sc\<rparr> raw offers_h2 = Mitm s \<longrightarrow> canonical_name s \<and> sni_canonical s = Some s)"
proof -
  have m: "ignore_matches ign n \<longleftrightarrow> list_ex (\<lambda>e. entry_matches e n) entries" for n
    using ignore_loop_matches [OF assms [unfolded ignore_parse_def], of n] by (simp add: ignore_matches_iff ignore_default_def)
  have eq: "policy_route \<lparr>mp_ignore = ign, mp_scope = sc\<rparr> raw offers_h2 = ref_route entries sc raw offers_h2"
    by (simp add: policy_route_def ref_route_def m scope_covers_labels split: option.splits)
  have "canonical_name s \<and> sni_canonical s = Some s" if "ref_route entries sc raw offers_h2 = Mitm s" for s
    using that sni_canonical_shape sni_canonical_id by (auto simp: ref_route_def split: option.splits if_splits)
  with eq show ?thesis by simp
qed

text \<open>A list of hosts to leave alone is refused exactly when it has an entry whose name has no canonical form, and the
  error names the first such entry.\<close>

theorem ignore_parse_error:
  "ignore_parse es = Err e \<longleftrightarrow>
     (\<exists>pre post. es = pre @ e # post \<and> list_all (\<lambda>x. sni_canonical (entry_host x) \<noteq> None) pre \<and> sni_canonical (entry_host e) = None)"
  unfolding ignore_parse_def ignore_loop_error list_all_iff by (rule refl)

theorem route_by_labels_witness:
  "ignore_parse [ascii ''Example.com'', ascii ''.test.org''] = Ok \<lparr>ih_exact = [ascii ''example.com''], ih_suffix = [ascii ''test.org'']\<rparr>
   \<and> policy_route \<lparr>mp_ignore = \<lparr>ih_exact = [ascii ''example.com''], ih_suffix = [ascii ''test.org'']\<rparr>,
       mp_scope = \<lparr>sc_permitted = [], sc_excluded = [Under (ascii ''com'')]\<rparr>\<rparr> (Some (ascii ''a.TEST.org.'')) True = Opaque Ignored"
proof -
  have p: "ignore_parse [ascii ''Example.com'', ascii ''.test.org''] = Ok \<lparr>ih_exact = [ascii ''example.com''], ih_suffix = [ascii ''test.org'']\<rparr>"
    by code_simp
  have "ref_route [ascii ''Example.com'', ascii ''.test.org''] \<lparr>sc_permitted = [], sc_excluded = [Under (ascii ''com'')]\<rparr>
      (Some (ascii ''a.TEST.org.'')) True = Opaque Ignored" by code_simp
  with route_by_labels [OF p] p show ?thesis by metis
qed

end
