(* ===== verification/Client_Sched.thy ===== *)
theory Client_Sched
  imports Ingress "HOL-Library.Multiset" "HOL-Library.Sublist"
begin

text \<open>
  What the client keeps between connections: the reconnect schedule, \<^verbatim>\<open>crates/mq-proxy/src/client/backoff.rs\<close>, and
  the requests waiting for authentication, \<^verbatim>\<open>crates/mq-proxy/src/client/pending.rs\<close>.
\<close>

section \<open>Reconnect schedule\<close>

definition BASE_MS :: u64 where "BASE_MS = 250"
definition MIN_CAP :: duration where "MIN_CAP = duration_secs 1"
definition SERVING_RESET :: duration where "SERVING_RESET = duration_secs 10"

definition backoff_ms :: "u64 \<Rightarrow> u64 \<Rightarrow> u32 \<Rightarrow> u64" where
  "backoff_ms base_ms cap_ms attempt = min (push_bit (unat (min attempt 31)) base_ms) cap_ms"

record backoff =
  bo_cap_ms :: u64
  bo_attempts :: u32
  bo_serving_since :: "time option"

definition backoff_new :: "duration \<Rightarrow> backoff" where
  "backoff_new max_backoff =
     (let ms = max max_backoff MIN_CAP div 1000000 in
      \<lparr>bo_cap_ms = (if ms < 2 ^ 64 then of_nat ms else - 1), bo_attempts = 0, bo_serving_since = None\<rparr>)"

definition on_serving :: "time \<Rightarrow> backoff \<Rightarrow> backoff" where
  "on_serving now b = b\<lparr>bo_serving_since := Some now\<rparr>"

definition next_delay :: "time \<Rightarrow> u64 \<Rightarrow> backoff \<Rightarrow> duration \<times> backoff" where
  "next_delay now rnd b =
     (let since = bo_serving_since b;
          b = b\<lparr>bo_serving_since := None\<rparr>;
          b = (case since of
                 Some s \<Rightarrow> if SERVING_RESET \<le> time_sub now s then b\<lparr>bo_attempts := 0\<rparr> else b
               | None \<Rightarrow> b);
          b = b\<lparr>bo_attempts := (if bo_attempts b = - 1 then - 1 else bo_attempts b + 1)\<rparr>;
          d = backoff_ms BASE_MS (bo_cap_ms b) (bo_attempts b)
      in (duration_millis (unat (d div 2 + rnd mod (d div 2 + 1))), b))"

definition backoff_reset :: "backoff \<Rightarrow> backoff" where
  "backoff_reset b = b\<lparr>bo_attempts := 0, bo_serving_since := None\<rparr>"

section \<open>Pending requests\<close>

definition MAX_PENDING :: nat where "MAX_PENDING = 256"

datatype ingress_kind = Socks5 | HttpConnect | Transparent

fun success_reply :: "ingress_kind \<Rightarrow> bytes option" where
  "success_reply Socks5 = Some socks5_success_reply"
| "success_reply HttpConnect = Some http_success_reply"
| "success_reply Transparent = None"

fun error_reply :: "ingress_kind \<Rightarrow> tcp_err \<Rightarrow> bytes option" where
  "error_reply Socks5 e = Some (socks5_error_reply e)"
| "error_reply HttpConnect e = Some (http_error_reply e)"
| "error_reply Transparent e = None"

record 'k pending_open =
  po_tcp :: 'k
  po_target :: target
  po_kind :: ingress_kind
  po_enqueued_at :: time

datatype 'k full = Full "'k pending_open"

record 'k pending =
  pd_q :: "'k pending_open list"
  pd_deadline :: duration

definition pending_new :: "duration \<Rightarrow> 'k pending" where
  "pending_new deadline = \<lparr>pd_q = [], pd_deadline = deadline\<rparr>"

definition pending_push :: "'k pending_open \<Rightarrow> 'k pending \<Rightarrow> (unit, 'k full) result \<times> 'k pending" where
  "pending_push po p =
     (if MAX_PENDING \<le> length (pd_q p) then (Err (Full po), p) else (Ok (), p\<lparr>pd_q := pd_q p @ [po]\<rparr>))"

definition pending_remove :: "'k \<Rightarrow> 'k pending \<Rightarrow> 'k pending_open option \<times> 'k pending" where
  "pending_remove tcp p =
     (case position (\<lambda>po. po_tcp po = tcp) (pd_q p) of
        None \<Rightarrow> (None, p)
      | Some i \<Rightarrow> (Some (pd_q p ! i), p\<lparr>pd_q := take i (pd_q p) @ drop (i + 1) (pd_q p)\<rparr>))"

definition pending_expire :: "time \<Rightarrow> 'k pending \<Rightarrow> 'k pending_open list \<times> 'k pending" where
  "pending_expire now p =
     (let (gone, keep) = partition (\<lambda>po. pd_deadline p \<le> time_sub now (po_enqueued_at po)) (pd_q p)
      in (gone, p\<lparr>pd_q := keep\<rparr>))"

definition pending_drain :: "'k pending \<Rightarrow> 'k pending_open list \<times> 'k pending" where
  "pending_drain p = (pd_q p, p\<lparr>pd_q := []\<rparr>)"

section \<open>The schedule\<close>

text \<open>The full delay of the \<open>k\<close>-th attempt, in milliseconds.\<close>

definition full_delay :: "nat \<Rightarrow> nat \<Rightarrow> nat" where
  "full_delay cap k = min cap (250 * 2 ^ min k 31)"

lemma unat_min: "unat (min a b) = min (unat a) (unat b)"
  by (simp add: min_def word_le_nat_alt)

lemma unat_backoff_ms: "unat (backoff_ms BASE_MS cap k) = full_delay (unat cap) (unat k)"
proof -
  have "250 * 2 ^ min (unat k) 31 \<le> (250 * 2 ^ 31 :: nat)" by (intro mult_le_mono power_increasing) auto
  moreover have "push_bit (min (unat k) 31) BASE_MS = of_nat (250 * 2 ^ min (unat k) 31)"
    by (simp add: BASE_MS_def push_bit_eq_mult)
  ultimately have "unat (push_bit (min (unat k) 31) BASE_MS) = 250 * 2 ^ min (unat k) 31"
    by (simp only: unsigned_of_nat) (simp add: take_bit_nat_eq_self)
  then show ?thesis by (simp add: backoff_ms_def full_delay_def unat_min min.commute)
qed

lemma unat_plus_le:
  fixes a b c :: u64
  shows "unat a + unat b \<le> unat c \<Longrightarrow> unat (a + b) = unat a + unat b"
  using unsigned_less [of c, where ?'a = nat] by (simp add: unat_word_ariths)

lemma unat_delay: "unat (d div 2 + rnd mod (d div 2 + 1) :: u64) = unat d div 2 + unat rnd mod (unat d div 2 + 1)"
proof -
  have h: "unat (d div 2) = unat d div 2" by (simp add: unat_div)
  show ?thesis
  proof (cases "unat d = 0")
    case False
    have s: "unat (d div 2 + 1) = unat d div 2 + 1"
      using unat_plus_le [of "d div 2" 1 d] False unfolding h by simp
    have j: "unat rnd mod (unat d div 2 + 1) \<le> unat d div 2" using mod_less_divisor [of "unat d div 2 + 1" "unat rnd"] by linarith
    have m: "unat (rnd mod (d div 2 + 1)) = unat rnd mod (unat d div 2 + 1)" unfolding unat_mod s ..
    have "unat d div 2 + unat rnd mod (unat d div 2 + 1) \<le> unat d" using j by linarith
    then show ?thesis using unat_plus_le [of "d div 2" "rnd mod (d div 2 + 1)" d] unfolding h m by blast
  next
    case True
    then have "d = 0" by (simp add: unat_eq_0)
    then show ?thesis by (simp add: unat_mod)
  qed
qed

datatype backoff_op = OServing time | OFailed time u64 | OReset

text \<open>A run, with the attempt number and the delay of every failure.\<close>

fun backoff_run :: "backoff_op list \<Rightarrow> backoff \<Rightarrow> (nat \<times> duration) list" where
  "backoff_run [] b = []"
| "backoff_run (OServing now # ops) b = backoff_run ops (on_serving now b)"
| "backoff_run (OFailed now rnd # ops) b =
     (let (d, b) = next_delay now rnd b in (unat (bo_attempts b), d) # backoff_run ops b)"
| "backoff_run (OReset # ops) b = backoff_run ops (backoff_reset b)"

text \<open>Which attempt each failure is: one more than the last, from one again after a reset or ten seconds of service.\<close>

fun attempt_numbers :: "backoff_op list \<Rightarrow> nat \<Rightarrow> time option \<Rightarrow> nat list" where
  "attempt_numbers [] k since = []"
| "attempt_numbers (OServing now # ops) k since = attempt_numbers ops k (Some now)"
| "attempt_numbers (OFailed now rnd # ops) k since =
     (let k = (case since of Some s \<Rightarrow> if 10000000000 \<le> time_sub now s then 1 else Suc k | None \<Rightarrow> Suc k)
      in k # attempt_numbers ops k None)"
| "attempt_numbers (OReset # ops) k since = attempt_numbers ops 0 None"

lemma next_delay_spec:
  assumes "next_delay now rnd b = (d, b')" and "unat (bo_attempts b) < 2 ^ 32 - 1"
  shows "unat (bo_attempts b') = (case bo_serving_since b of Some s \<Rightarrow> if 10000000000 \<le> time_sub now s then 1 else Suc (unat (bo_attempts b))
      | None \<Rightarrow> Suc (unat (bo_attempts b)))"
    and "bo_serving_since b' = None" and "bo_cap_ms b' = bo_cap_ms b"
    and "full_delay (unat (bo_cap_ms b)) (unat (bo_attempts b')) div 2 * 1000000 \<le> d"
    and "d \<le> full_delay (unat (bo_cap_ms b)) (unat (bo_attempts b')) * 1000000"
proof -
  have inc: "unat (bo_attempts b + 1) = Suc (unat (bo_attempts b))" "bo_attempts b \<noteq> - 1"
    using assms(2) by (auto simp: unat_word_ariths unsigned_minus_1_eq_mask mask_eq_exp_minus_1)
  show "unat (bo_attempts b') = (case bo_serving_since b of Some s \<Rightarrow> if 10000000000 \<le> time_sub now s then 1 else Suc (unat (bo_attempts b))
      | None \<Rightarrow> Suc (unat (bo_attempts b)))" "bo_serving_since b' = None" "bo_cap_ms b' = bo_cap_ms b"
    using assms(1) inc by (auto simp: next_delay_def Let_def SERVING_RESET_def duration_secs_def split: option.splits if_splits)
  let ?f = "full_delay (unat (bo_cap_ms b)) (unat (bo_attempts b'))"
  let ?j = "unat rnd mod (?f div 2 + 1)"
  have "d = duration_millis (?f div 2 + ?j)"
    using assms(1) by (auto simp: next_delay_def Let_def unat_delay unat_backoff_ms split: option.splits if_splits)
  then have d: "d = (?f div 2 + ?j) * 1000000" unfolding duration_millis_def .
  have "?j \<le> ?f div 2" using mod_less_divisor [of "?f div 2 + 1" "unat rnd"] by linarith
  then have "?f div 2 + ?j \<le> ?f" by linarith
  then show "d \<le> ?f * 1000000" unfolding d by (rule mult_le_mono1)
  show "?f div 2 * 1000000 \<le> d" unfolding d by (rule mult_le_mono1) simp
qed

lemma backoff_run_spec:
  assumes "unat (bo_attempts b) + length ops < 2 ^ 32"
  shows "map fst (backoff_run ops b) = attempt_numbers ops (unat (bo_attempts b)) (bo_serving_since b)
    \<and> list_all (\<lambda>(k, d). full_delay (unat (bo_cap_ms b)) k div 2 * 1000000 \<le> d \<and> d \<le> full_delay (unat (bo_cap_ms b)) k * 1000000)
        (backoff_run ops b)"
  using assms
proof (induction ops arbitrary: b)
  case (Cons op ops)
  show ?case
  proof (cases op)
    case (OServing now)
    with Cons show ?thesis using Cons.IH [of "on_serving now b"] by (simp add: on_serving_def)
  next
    case OReset
    with Cons show ?thesis using Cons.IH [of "backoff_reset b"] by (simp add: backoff_reset_def)
  next
    case (OFailed now rnd)
    obtain d b' where n: "next_delay now rnd b = (d, b')" by fastforce
    have "unat (bo_attempts b) < 2 ^ 32 - 1" using Cons.prems by simp
    note spec = next_delay_spec [OF n this]
    have "unat (bo_attempts b') \<le> Suc (unat (bo_attempts b))" using spec(1) by (simp split: option.splits if_splits)
    then have "unat (bo_attempts b') + length ops < 2 ^ 32" using Cons.prems by simp
    from Cons.IH [OF this] spec show ?thesis by (simp add: OFailed n Let_def)
  qed
qed simp

lemma backoff_new_cap: "1000 \<le> unat (bo_cap_ms (backoff_new m))"
proof -
  have "1000000000 div 1000000 \<le> max m MIN_CAP div (1000000 :: nat)" by (intro div_le_mono) (simp add: MIN_CAP_def duration_secs_def)
  then show ?thesis by (simp add: backoff_new_def Let_def unat_of_nat unsigned_minus_1_eq_mask mask_eq_exp_minus_1)
qed

lemma backoff_new_cap_le: "unat (bo_cap_ms (backoff_new m)) * 1000000 \<le> max m MIN_CAP"
proof -
  have "unat (bo_cap_ms (backoff_new m)) \<le> max m MIN_CAP div 1000000"
    by (simp add: backoff_new_def Let_def unat_of_nat unsigned_minus_1_eq_mask mask_eq_exp_minus_1)
  then show ?thesis by (simp add: less_eq_div_iff_mult_less_eq)
qed

lemma full_delay_ge:
  assumes "1000 \<le> cap" and "1 \<le> k" shows "500 \<le> full_delay cap k"
proof -
  have "(2 :: nat) ^ 1 \<le> 2 ^ min k 31" using assms(2) by (intro power_increasing) auto
  then show ?thesis using assms(1) by (simp add: full_delay_def)
qed

lemma attempt_numbers_pos: "list_all (\<lambda>k. 1 \<le> k) (attempt_numbers ops k since)"
  by (induction ops k since rule: attempt_numbers.induct) (auto simp: Let_def split: option.splits)

section \<open>The queue\<close>

datatype 'k pending_op = PPush "'k pending_open" | PRemove 'k | PExpire time | PDrain

text \<open>One operation, with the requests it took in, handed back as full, and gave out; and a run of them.\<close>

fun pending_step :: "'k pending_op \<Rightarrow> 'k pending \<Rightarrow> 'k pending_open list \<times> 'k pending_open list \<times> 'k pending_open list \<times> 'k pending" where
  "pending_step (PPush po) p =
     (case pending_push po p of (Ok _, q) \<Rightarrow> ([po], [], [], q) | (Err (Full po'), q) \<Rightarrow> ([], [po'], [], q))"
| "pending_step (PRemove t) p = (case pending_remove t p of (None, q) \<Rightarrow> ([], [], [], q) | (Some po, q) \<Rightarrow> ([], [], [po], q))"
| "pending_step (PExpire now) p = (case pending_expire now p of (gone, q) \<Rightarrow> ([], [], gone, q))"
| "pending_step PDrain p = (case pending_drain p of (gone, q) \<Rightarrow> ([], [], gone, q))"

fun pending_run :: "'k pending_op list \<Rightarrow> 'k pending \<Rightarrow> 'k pending_open list \<times> 'k pending_open list \<times> 'k pending_open list \<times> 'k pending" where
  "pending_run [] p = ([], [], [], p)"
| "pending_run (op # ops) p =
     (let (a, r, g, p) = pending_step op p; (a', r', g', p) = pending_run ops p in (a @ a', r @ r', g @ g', p))"

definition removed_at :: "nat \<Rightarrow> 'a list \<Rightarrow> 'a list" where
  "removed_at i xs = take i xs @ drop (i + 1) xs"

lemma removed_at_props:
  assumes "i < length xs"
  shows "mset xs = add_mset (xs ! i) (mset (removed_at i xs))" and "subseq (removed_at i xs) xs" and "length (removed_at i xs) < length xs"
proof -
  have x: "xs = take i xs @ xs ! i # drop (i + 1) xs" using id_take_nth_drop [OF assms] by simp
  show "mset xs = add_mset (xs ! i) (mset (removed_at i xs))" by (subst x) (simp add: removed_at_def)
  show "subseq (removed_at i xs) xs" by (subst (2) x) (auto simp: removed_at_def intro: list_emb_append_mono)
  show "length (removed_at i xs) < length xs" using assms by (simp add: removed_at_def)
qed

text \<open>What a step keeps: the bound, the requests, and their order.\<close>

definition accounted :: "'k pending \<Rightarrow> 'k pending_open list \<Rightarrow> 'k pending_open list \<Rightarrow> 'k pending \<Rightarrow> bool" where
  "accounted p a g q \<longleftrightarrow> (length (pd_q p) \<le> MAX_PENDING \<longrightarrow> length (pd_q q) \<le> MAX_PENDING)
     \<and> mset (pd_q p @ a) = mset (g @ pd_q q) \<and> subseq (pd_q q) (pd_q p @ a)"

lemma accounted_step:
  assumes "pending_step op p = (a, r, g, q)" shows "accounted p a g q"
proof (cases op)
  case (PPush po)
  with assms show ?thesis by (auto simp: pending_push_def accounted_def split: if_splits)
next
  case (PRemove t)
  show ?thesis
  proof (cases "position (\<lambda>po. po_tcp po = t) (pd_q p)")
    case None
    with assms PRemove show ?thesis by (auto simp: pending_remove_def accounted_def)
  next
    case (Some i)
    note rm = removed_at_props [OF position_Some [OF Some, THEN conjunct1]]
    from assms Some have "a = []" "g = [pd_q p ! i]" "pd_q q = removed_at i (pd_q p)"
      by (auto simp: PRemove pending_remove_def removed_at_def)
    with rm show ?thesis by (simp add: accounted_def)
  qed
next
  case (PExpire now)
  let ?P = "\<lambda>po. pd_deadline p \<le> time_sub now (po_enqueued_at po)"
  from assms have "a = []" "g = filter ?P (pd_q p)" "pd_q q = filter (Not \<circ> ?P) (pd_q p)"
    by (auto simp: PExpire pending_expire_def)
  with length_filter_le [of "Not \<circ> ?P" "pd_q p"] multiset_partition [of "mset (pd_q p)" ?P]
  show ?thesis by (auto simp: accounted_def o_def intro: order_trans [OF length_filter_le])
next
  case PDrain
  with assms show ?thesis by (auto simp: pending_drain_def accounted_def)
qed

lemma accounted_trans: "accounted p a g q \<Longrightarrow> accounted q a' g' s \<Longrightarrow> accounted p (a @ a') (g @ g') s"
proof -
  assume 1: "accounted p a g q" and 2: "accounted q a' g' s"
  have "subseq (pd_q q @ a') ((pd_q p @ a) @ a')" using 1 by (intro list_emb_append_mono) (auto simp: accounted_def)
  with 2 have "subseq (pd_q s) (pd_q p @ a @ a')" unfolding accounted_def by (auto intro: subseq_order.trans)
  moreover have "mset (pd_q p @ a @ a') = mset ((g @ g') @ pd_q s)"
  proof -
    have "mset (pd_q p @ a @ a') = mset (pd_q p @ a) + mset a'" by simp
    also have "\<dots> = mset g + mset (pd_q q @ a')" using 1 by (simp add: accounted_def)
    also have "\<dots> = mset ((g @ g') @ pd_q s)" using 2 by (simp add: accounted_def)
    finally show ?thesis .
  qed
  ultimately show ?thesis using 1 2 unfolding accounted_def by blast
qed

lemma pending_run_accounted: "pending_run ops p = (a, r, g, q) \<Longrightarrow> accounted p a g q"
proof (induction ops arbitrary: p a r g q)
  case (Cons op ops)
  obtain a1 r1 g1 p1 where 1: "pending_step op p = (a1, r1, g1, p1)" by (metis prod_cases4)
  obtain a2 r2 g2 p2 where 2: "pending_run ops p1 = (a2, r2, g2, p2)" by (metis prod_cases4)
  from Cons.prems accounted_trans [OF accounted_step [OF 1] Cons.IH [OF 2]] show ?case by (simp add: 1 2)
qed (simp add: accounted_def)

section \<open>Properties\<close>

text \<open>C36. The reconnect schedule. Whatever happens in whatever order, every delay the client waits is at least 250 ms and lies
  between half and all of \<open>min cap (250 ms * 2 ^ k)\<close>, where \<open>k\<close> counts the failures since the last reset or ten
  seconds of service (the exponent stops growing at 31), and never exceeds the configured cap, which is at least one second.\<close>

theorem backoff_schedule:
  assumes "length ops < 2 ^ 32"
  shows "map fst (backoff_run ops (backoff_new m)) = attempt_numbers ops 0 None
    \<and> list_all (\<lambda>(k, d). full_delay (unat (bo_cap_ms (backoff_new m))) k div 2 * 1000000 \<le> d
        \<and> d \<le> full_delay (unat (bo_cap_ms (backoff_new m))) k * 1000000
        \<and> duration_millis 250 \<le> d \<and> d \<le> max m MIN_CAP) (backoff_run ops (backoff_new m))"
proof -
  let ?b = "backoff_new m" and ?c = "unat (bo_cap_ms (backoff_new m))"
  have "unat (bo_attempts ?b) + length ops < 2 ^ 32" "bo_serving_since ?b = None" "unat (bo_attempts ?b) = 0"
    using assms by (simp_all add: backoff_new_def Let_def)
  with backoff_run_spec [of ?b ops] have fst: "map fst (backoff_run ops ?b) = attempt_numbers ops 0 None"
    and r: "list_all (\<lambda>(k, d). full_delay ?c k div 2 * 1000000 \<le> d \<and> d \<le> full_delay ?c k * 1000000) (backoff_run ops ?b)" by auto
  have pos: "1 \<le> k" if "(k, d) \<in> set (backoff_run ops ?b)" for k d
  proof -
    have "k \<in> set (map fst (backoff_run ops ?b))" using that by force
    then show ?thesis using attempt_numbers_pos [of ops 0 None] unfolding fst by (simp add: list_all_iff)
  qed
  have cap: "?c * 1000000 \<le> max m MIN_CAP" by (rule backoff_new_cap_le)
  have "duration_millis 250 \<le> d \<and> d \<le> max m MIN_CAP" if "(k, d) \<in> set (backoff_run ops ?b)" for k d
  proof -
    have kd: "full_delay ?c k div 2 * 1000000 \<le> d" "d \<le> full_delay ?c k * 1000000" using r that by (auto simp: list_all_iff)
    have "250 \<le> full_delay ?c k div 2" using full_delay_ge [OF backoff_new_cap [of m] pos [OF that]] by linarith
    moreover have "full_delay ?c k \<le> ?c" by (simp add: full_delay_def)
    ultimately show ?thesis using kd cap unfolding duration_millis_def by linarith
  qed
  with fst r show ?thesis by (auto simp: list_all_iff)
qed

text \<open>C40. The pending queue never holds more than 256 requests, keeps them in the order of arrival, and loses none: after any
  sequence of operations the accepted requests are exactly those given out and those still waiting, each once.\<close>

theorem pending_accounts:
  assumes "pending_run ops (pending_new deadline) = (accepted, refused, given, p)"
  shows "length (pd_q p) \<le> 256 \<and> mset accepted = mset given + mset (pd_q p) \<and> subseq (pd_q p) accepted"
  using pending_run_accounted [OF assms] by (simp add: accounted_def pending_new_def MAX_PENDING_def)

section \<open>Witnesses\<close>

theorem backoff_schedule_witness:
  "map fst (backoff_run [OFailed 0 7, OFailed 0 7, OReset, OFailed 0 7] (backoff_new 0)) = [1, 2, 1]"
  using backoff_schedule [of "[OFailed 0 7, OFailed 0 7, OReset, OFailed 0 7]" 0] by simp

theorem pending_accounts_witness:
  "\<exists>a r g p. pending_run [PPush \<lparr>po_tcp = 1 :: nat, po_target = \<lparr>tgt_host = HostDomain [], tgt_port = 80\<rparr>, po_kind = Socks5, po_enqueued_at = 0\<rparr>,
      PRemove 1] (pending_new 0) = (a, r, g, p) \<and> mset a = mset g + mset (pd_q p) \<and> length g = 1"
proof -
  let ?o = "\<lparr>po_tcp = 1 :: nat, po_target = \<lparr>tgt_host = HostDomain [], tgt_port = 80\<rparr>, po_kind = Socks5, po_enqueued_at = 0\<rparr>"
  have r: "pending_run [PPush ?o, PRemove 1] (pending_new 0) = ([?o], [], [?o], \<lparr>pd_q = [], pd_deadline = 0\<rparr>)"
    by (simp add: pending_new_def pending_push_def pending_remove_def MAX_PENDING_def)
  from pending_accounts [OF this] r show ?thesis by simp
qed

end
