(* ===== verification/Mqproxy_Config.thy ===== *)
theory Mqproxy_Config
  imports Rust_Std "HOL-Library.Sublist"
begin

text \<open>
  The configuration file of the \<open>mqproxy\<close> binary: the line scanner, \<^verbatim>\<open>crates/mqproxy/src/ini.rs\<close>, and the typed
  values a file sets, \<^verbatim>\<open>crates/mqproxy/src/config.rs\<close>. Text is a list of Unicode scalar values. What the file system answers is an
  argument of \<open>config_load\<close>: the decoded text or the error text, and the permission bits.
\<close>

section \<open>Text\<close>

type_synonym rstr = "u32 list"

definition lit :: "string \<Rightarrow> rstr" where
  "lit s = map of_char s"

definition is_whitespace :: "u32 \<Rightarrow> bool" where
  "is_whitespace c \<longleftrightarrow> 0x09 \<le> c \<and> c \<le> 0x0D \<or> c = 0x20 \<or> c = 0x85 \<or> c = 0xA0 \<or> c = 0x1680 \<or> 0x2000 \<le> c \<and> c \<le> 0x200A
     \<or> c = 0x2028 \<or> c = 0x2029 \<or> c = 0x202F \<or> c = 0x205F \<or> c = 0x3000"

definition trim :: "rstr \<Rightarrow> rstr" where
  "trim s = rev (dropWhile is_whitespace (rev (dropWhile is_whitespace s)))"

definition split_once :: "u32 \<Rightarrow> rstr \<Rightarrow> (rstr \<times> rstr) option" where
  "split_once c s = map_option (\<lambda>i. (take i s, drop (i + 1) s)) (position (\<lambda>x. x = c) s)"

text \<open>\<open>str::lines\<close>: a carriage return goes only together with the line feed behind it.\<close>

definition strip_cr :: "rstr \<Rightarrow> rstr" where
  "strip_cr l = (if l \<noteq> [] \<and> last l = 0x0D then butlast l else l)"

fun str_lines_from :: "rstr \<Rightarrow> rstr \<Rightarrow> rstr list" where
  "str_lines_from acc [] = (if acc = [] then [] else [rev acc])"
| "str_lines_from acc (c # s) = (if c = 0x0A then strip_cr (rev acc) # str_lines_from [] s else str_lines_from (c # acc) s)"

definition str_lines :: "rstr \<Rightarrow> rstr list" where
  "str_lines s = str_lines_from [] s"

definition char_lowercase :: "u32 \<Rightarrow> u32" where
  "char_lowercase c = (if 0x41 \<le> c \<and> c \<le> 0x5A then c + 0x20 else c)"

definition str_eq_ignore_case :: "rstr \<Rightarrow> rstr \<Rightarrow> bool" where
  "str_eq_ignore_case a b \<longleftrightarrow> map char_lowercase a = map char_lowercase b"

definition char_digit :: "u32 \<Rightarrow> bool" where
  "char_digit c \<longleftrightarrow> 0x30 \<le> c \<and> c \<le> 0x39"

text \<open>\<open>i64::from_str\<close>.\<close>

definition parse_i64 :: "rstr \<Rightarrow> int option" where
  "parse_i64 s =
     (let (neg, ds) = (case s of [] \<Rightarrow> (False, [])
                       | c # r \<Rightarrow> if c = 0x2D then (True, r) else if c = 0x2B then (False, r) else (False, s));
          n = foldl (\<lambda>a d. a * 10 + (uint d - 0x30)) 0 ds;
          v = (if neg then - n else n)
      in if ds = [] \<or> \<not> list_all char_digit ds \<or> v < - (2 ^ 63) \<or> 2 ^ 63 \<le> v then None else Some v)"

definition str_dec :: "nat \<Rightarrow> rstr" where
  "str_dec n = map ucast (fmt_dec n)"

section \<open>The scanner\<close>

datatype ini_line = Section rstr | Kv rstr rstr | Malformed rstr

definition ini_scan :: "rstr \<Rightarrow> ini_line option" where
  "ini_scan l =
     (let t = trim l in
      if t = [] \<or> hd t = 0x23 \<or> hd t = 0x3B then None
      else if hd t = 0x5B then
        (case split_once 0x5D (tl t) of
           Some (name, _) \<Rightarrow> Some (Section name)
         | None \<Rightarrow> Some (Malformed (lit ''malformed section header'')))
      else
        (case split_once 0x3D t of
           Some (k, v) \<Rightarrow> if trim v = [] then None else Some (Kv (trim k) (trim v))
         | None \<Rightarrow> Some (Malformed (lit ''malformed line (no '' @ [0x27, 0x3D, 0x27] @ lit '')''))))"

definition ini_lines :: "rstr \<Rightarrow> (nat \<times> ini_line) list" where
  "ini_lines text =
     List.map_filter (\<lambda>(i, l). map_option (\<lambda>line. (i + 1, line)) (ini_scan l)) (enumerate 0 (str_lines text))"

section \<open>The values\<close>

definition SECTIONS :: "rstr list" where
  "SECTIONS = map lit [''Interface'', ''Server'', ''TLS'', ''Auth'', ''Multipath'', ''Gateway'', ''UDP'', ''Ingress'', ''Metrics'', ''Log'', ''Mitm'']"

record file_config =
  fc_warnings :: "rstr list"
  fc_token :: "rstr option"
  fc_cc :: "rstr option"
  fc_scheduler :: "rstr option"
  fc_qlog :: "rstr option"
  fc_metrics_interval :: "u64 option"
  fc_listen :: "rstr option"
  fc_max_conns :: "u32 option"
  fc_cert :: "rstr option"
  fc_key :: "rstr option"
  fc_gateway_enabled :: "bool option"
  fc_origin_ca :: "rstr option"
  fc_masquerade :: bool
  fc_cache_max_bytes :: "u64 option"
  fc_request_metrics :: bool
  fc_udp_enabled :: "bool option"
  fc_udp_idle_timeout :: "u64 option"
  fc_server :: "rstr option"
  fc_client_id :: "rstr option"
  fc_socks5 :: "rstr option"
  fc_http_connect :: "rstr option"
  fc_gateway :: "rstr option"
  fc_paths :: "rstr list"
  fc_keepalive_idle :: "u64 option"
  fc_reconnect :: "bool option"
  fc_reconnect_max_backoff :: "u64 option"
  fc_tproxy :: "rstr option"
  fc_tproxy_mode :: "rstr option"
  fc_tproxy_fwmark :: "u32 option"
  fc_tproxy_table :: "u32 option"
  fc_tproxy_dport :: "u16 option"
  fc_setup_redirect :: bool
  fc_tproxy_uid :: "u32 option"
  fc_mitm :: bool
  fc_ca_cert :: "rstr option"
  fc_ca_key :: "rstr option"
  fc_ignore_hosts :: "rstr list"

definition config_default :: file_config where
  "config_default = \<lparr>fc_warnings = [], fc_token = None, fc_cc = None, fc_scheduler = None, fc_qlog = None, fc_metrics_interval = None, fc_listen = None, fc_max_conns = None, fc_cert = None, fc_key = None, fc_gateway_enabled = None, fc_origin_ca = None, fc_masquerade = False, fc_cache_max_bytes = None, fc_request_metrics = False, fc_udp_enabled = None, fc_udp_idle_timeout = None, fc_server = None, fc_client_id = None, fc_socks5 = None, fc_http_connect = None, fc_gateway = None, fc_paths = [], fc_keepalive_idle = None, fc_reconnect = None, fc_reconnect_max_backoff = None, fc_tproxy = None, fc_tproxy_mode = None, fc_tproxy_fwmark = None, fc_tproxy_table = None, fc_tproxy_dport = None, fc_setup_redirect = False, fc_tproxy_uid = None, fc_mitm = False, fc_ca_cert = None, fc_ca_key = None, fc_ignore_hosts = []\<rparr>"

definition bool_value :: "rstr \<Rightarrow> bool" where
  "bool_value v \<longleftrightarrow> v = lit ''true'' \<or> v = lit ''yes'' \<or> v = lit ''1''"

abbreviation quoted :: "rstr \<Rightarrow> rstr" where
  "quoted s \<equiv> [0x27] @ s @ [0x27]"

definition warn :: "rstr \<Rightarrow> file_config \<Rightarrow> file_config" where
  "warn w f = f\<lparr>fc_warnings := fc_warnings f @ [w]\<rparr>"

definition config_num :: "rstr \<Rightarrow> rstr \<Rightarrow> rstr \<Rightarrow> int \<Rightarrow> int \<Rightarrow> file_config \<Rightarrow> int option \<times> file_config" where
  "config_num at k v lo hi f =
     (let n = (case parse_i64 v of Some n \<Rightarrow> if lo \<le> n \<and> n \<le> hi then Some n else None | None \<Rightarrow> None) in
      if n = None
      then (None, warn (at @ lit '': invalid '' @ k @ lit '' '' @ quoted v @ lit ''; keeping the previous value'') f)
      else (n, f))"

text \<open>The arms with a number: the field is set when the number is in range.\<close>

definition set_num ::
  "rstr \<Rightarrow> rstr \<Rightarrow> rstr \<Rightarrow> int \<Rightarrow> int \<Rightarrow> (int \<Rightarrow> file_config \<Rightarrow> file_config) \<Rightarrow> file_config \<Rightarrow> bool \<times> file_config" where
  "set_num at k v lo hi upd f = (case config_num at k v lo hi f of (Some n, f) \<Rightarrow> (True, upd n f) | (None, f) \<Rightarrow> (True, f))"

abbreviation I64_MAX :: int where "I64_MAX \<equiv> 9223372036854775807"
abbreviation I32_MAX :: int where "I32_MAX \<equiv> 2147483647"
abbreviation U32_MAX :: int where "U32_MAX \<equiv> 4294967295"

definition config_set :: "rstr \<Rightarrow> rstr \<Rightarrow> rstr \<Rightarrow> rstr \<Rightarrow> rstr \<Rightarrow> bool \<Rightarrow> file_config \<Rightarrow> bool \<times> file_config" where
  "config_set at sec key k v server f =
     (let is = (\<lambda>a b. sec = lit a \<and> key = lit b); s = server; c = (\<not> server); num = set_num at k v in
      if is ''Auth'' ''key'' then (True, f\<lparr>fc_token := Some v\<rparr>)
      else if is ''Multipath'' ''cc'' then (True, f\<lparr>fc_cc := Some v\<rparr>)
      else if is ''Multipath'' ''scheduler'' then (True, f\<lparr>fc_scheduler := Some v\<rparr>)
      else if is ''Log'' ''qlog'' then (True, f\<lparr>fc_qlog := Some v\<rparr>)
      else if is ''Metrics'' ''interval'' then num 0 I64_MAX (\<lambda>n f. f\<lparr>fc_metrics_interval := Some (of_int n)\<rparr>) f
      else if is ''Interface'' ''listen'' \<and> s then (True, f\<lparr>fc_listen := Some v\<rparr>)
      else if is ''Interface'' ''maxconns'' \<and> s then num 0 U32_MAX (\<lambda>n f. f\<lparr>fc_max_conns := Some (of_int n)\<rparr>) f
      else if is ''TLS'' ''cert'' \<and> s then (True, f\<lparr>fc_cert := Some v\<rparr>)
      else if is ''TLS'' ''key'' \<and> s then (True, f\<lparr>fc_key := Some v\<rparr>)
      else if is ''Gateway'' ''originca'' \<and> s then (True, f\<lparr>fc_origin_ca := Some v\<rparr>)
      else if is ''Gateway'' ''masquerade'' \<and> s then (True, f\<lparr>fc_masquerade := bool_value v\<rparr>)
      else if is ''Gateway'' ''cachemaxbytes'' \<and> s then num 0 I64_MAX (\<lambda>n f. f\<lparr>fc_cache_max_bytes := Some (of_int n)\<rparr>) f
      else if is ''Metrics'' ''perrequest'' \<and> s then (True, f\<lparr>fc_request_metrics := bool_value v\<rparr>)
      else if is ''UDP'' ''enabled'' \<and> s then (True, f\<lparr>fc_udp_enabled := Some (bool_value v)\<rparr>)
      else if is ''UDP'' ''idletimeout'' \<and> s then num 1 I64_MAX (\<lambda>n f. f\<lparr>fc_udp_idle_timeout := Some (of_int n)\<rparr>) f
      else if is ''Gateway'' ''enabled'' \<and> s then (True, f\<lparr>fc_gateway_enabled := Some (bool_value v)\<rparr>)
      else if is ''Server'' ''address'' \<and> c then (True, f\<lparr>fc_server := Some v\<rparr>)
      else if is ''Server'' ''clientid'' \<and> c then (True, f\<lparr>fc_client_id := Some v\<rparr>)
      else if is ''Multipath'' ''path'' \<and> c then (True, f\<lparr>fc_paths := fc_paths f @ [v]\<rparr>)
      else if is ''Interface'' ''keepaliveidle'' \<and> c then num 0 I64_MAX (\<lambda>n f. f\<lparr>fc_keepalive_idle := Some (of_int n)\<rparr>) f
      else if is ''Interface'' ''reconnect'' \<and> c then (True, f\<lparr>fc_reconnect := Some (bool_value v)\<rparr>)
      else if is ''Interface'' ''reconnectmaxbackoff'' \<and> c then num 1 I64_MAX (\<lambda>n f. f\<lparr>fc_reconnect_max_backoff := Some (of_int n)\<rparr>) f
      else if is ''Ingress'' ''socks5'' \<and> c then (True, f\<lparr>fc_socks5 := Some v\<rparr>)
      else if is ''Ingress'' ''httpconnect'' \<and> c then (True, f\<lparr>fc_http_connect := Some v\<rparr>)
      else if is ''Ingress'' ''gateway'' \<and> c then (True, f\<lparr>fc_gateway := Some v\<rparr>)
      else if is ''Ingress'' ''tproxy'' \<and> c then (True, f\<lparr>fc_tproxy := Some v\<rparr>)
      else if is ''Ingress'' ''mode'' \<and> c then (True, f\<lparr>fc_tproxy_mode := Some v\<rparr>)
      else if is ''Ingress'' ''fwmark'' \<and> c then num 1 I32_MAX (\<lambda>n f. f\<lparr>fc_tproxy_fwmark := Some (of_int n)\<rparr>) f
      else if is ''Ingress'' ''table'' \<and> c then num 1 65535 (\<lambda>n f. f\<lparr>fc_tproxy_table := Some (of_int n)\<rparr>) f
      else if is ''Ingress'' ''dport'' \<and> c then num 1 65535 (\<lambda>n f. f\<lparr>fc_tproxy_dport := Some (of_int n)\<rparr>) f
      else if is ''Ingress'' ''setupredirect'' \<and> c then (True, f\<lparr>fc_setup_redirect := bool_value v\<rparr>)
      else if is ''Ingress'' ''skipuid'' \<and> c then num (- 1) I32_MAX (\<lambda>n f. f\<lparr>fc_tproxy_uid := (if n < 0 then None else Some (of_int n))\<rparr>) f
      else if is ''Mitm'' ''enabled'' \<and> c then (True, f\<lparr>fc_mitm := bool_value v\<rparr>)
      else if is ''Mitm'' ''cacert'' \<and> c then (True, f\<lparr>fc_ca_cert := Some v\<rparr>)
      else if is ''Mitm'' ''cakey'' \<and> c then (True, f\<lparr>fc_ca_key := Some v\<rparr>)
      else if is ''Mitm'' ''ignorehosts'' \<and> c then (True, f\<lparr>fc_ignore_hosts := fc_ignore_hosts f @ [v]\<rparr>)
      else (False, f))"

section \<open>Loading\<close>

record exit =
  ex_code :: int
  ex_message :: rstr

text \<open>The loop over the lines, the section and the values being its state.\<close>

definition load_line :: "rstr \<Rightarrow> bool \<Rightarrow> nat \<times> ini_line \<Rightarrow> rstr option \<times> file_config \<Rightarrow> rstr option \<times> file_config" where
  "load_line path server nl st =
     (let (n, line) = nl; (section, f) = st; at = path @ lit '':'' @ str_dec n in
      case line of
        Malformed m \<Rightarrow> (section, warn (at @ lit '': '' @ m) f)
      | Section s \<Rightarrow>
          (let section = find (\<lambda>x. str_eq_ignore_case x s) SECTIONS in
           (section, if section = None then warn (at @ lit '': unknown section '' @ quoted s) f else f))
      | Kv k v \<Rightarrow>
          (case section of
             None \<Rightarrow> (section, warn (at @ lit '': key '' @ quoted k @ lit '' outside any section'') f)
           | Some sec \<Rightarrow>
               let key = map char_lowercase k in
               (case config_set at sec key k v server f of
                  (True, f) \<Rightarrow> (section, f)
                | (False, f) \<Rightarrow>
                    let other = fst (config_set at sec key k v (\<not> server) config_default) in
                    (section,
                     warn (if other
                           then at @ lit '': key '' @ quoted k @ lit '' in ['' @ sec @ lit ''] not valid for this mode; ignoring''
                           else at @ lit '': unknown key '' @ quoted k @ lit '' in ['' @ sec @ lit '']'') f))))"

text \<open>The values before the first line: a warning when the file is readable by others.\<close>

definition load_start :: "rstr \<Rightarrow> nat option \<Rightarrow> file_config" where
  "load_start path mode =
     (case mode of
        Some m \<Rightarrow> if and m 0x3F \<noteq> 0
          then warn (lit ''config '' @ path @ lit '' is group/world-readable; chmod 0600 to protect the token'') config_default
          else config_default
      | None \<Rightarrow> config_default)"

definition config_load :: "(rstr \<times> (rstr, rstr) result \<times> nat option) option \<Rightarrow> bool \<Rightarrow> (file_config, exit) result" where
  "config_load path server =
     (case path of
        None \<Rightarrow> Ok config_default
      | Some (path, contents, mode) \<Rightarrow>
          (case contents of
             Err e \<Rightarrow> Err \<lparr>ex_code = 2, ex_message = lit ''error: config: cannot open '' @ quoted path @ lit '': '' @ e @ [0x0A]\<rparr>
           | Ok text \<Rightarrow>
               Ok (snd (fold (load_line path server) (ini_lines text) (None, load_start path mode)))))"

section \<open>What a configuration promises\<close>

text \<open>Values of the other mode are never set, and every number is within the range its users rely on.\<close>

definition server_unset :: "file_config \<Rightarrow> bool" where
  "server_unset f \<longleftrightarrow> fc_listen f = None \<and> fc_max_conns f = None \<and> fc_cert f = None \<and> fc_key f = None \<and> fc_gateway_enabled
     f = None \<and> fc_origin_ca f = None \<and> \<not> fc_masquerade f \<and> fc_cache_max_bytes f = None \<and> \<not>
     fc_request_metrics f \<and> fc_udp_enabled f = None \<and> fc_udp_idle_timeout f = None"

definition client_unset :: "file_config \<Rightarrow> bool" where
  "client_unset f \<longleftrightarrow> fc_server f = None \<and> fc_client_id f = None \<and> fc_socks5 f = None \<and> fc_http_connect f = None \<and>
     fc_gateway f = None \<and> fc_paths f = [] \<and> fc_keepalive_idle f = None \<and> fc_reconnect f = None \<and>
     fc_reconnect_max_backoff f = None \<and> fc_tproxy f = None \<and> fc_tproxy_mode f = None \<and> fc_tproxy_fwmark f =
     None \<and> fc_tproxy_table f = None \<and> fc_tproxy_dport f = None \<and> \<not> fc_setup_redirect f \<and>
     fc_tproxy_uid f = None \<and> \<not> fc_mitm f \<and> fc_ca_cert f = None \<and> fc_ca_key f = None \<and>
     fc_ignore_hosts f = []"

definition numbers_ok :: "file_config \<Rightarrow> bool" where
  "numbers_ok f \<longleftrightarrow>
     pred_option (\<lambda>n. uint n < 2 ^ 63) (fc_metrics_interval f) \<and> pred_option (\<lambda>n. uint n < 2 ^ 63) (fc_cache_max_bytes f)
     \<and> pred_option (\<lambda>n. 1 \<le> uint n \<and> uint n < 2 ^ 63) (fc_udp_idle_timeout f) \<and> pred_option (\<lambda>n. uint n < 2 ^ 63) (fc_keepalive_idle f)
     \<and> pred_option (\<lambda>n. 1 \<le> uint n \<and> uint n < 2 ^ 63) (fc_reconnect_max_backoff f)
     \<and> pred_option (\<lambda>n. 1 \<le> uint n \<and> uint n < 2 ^ 31) (fc_tproxy_fwmark f) \<and> pred_option (\<lambda>n. 1 \<le> uint n \<and> uint n < 2 ^ 16) (fc_tproxy_table f)
     \<and> pred_option (\<lambda>n. n \<noteq> 0) (fc_tproxy_dport f) \<and> pred_option (\<lambda>n. uint n < 2 ^ 31) (fc_tproxy_uid f)"

definition config_ok :: "bool \<Rightarrow> file_config \<Rightarrow> bool" where
  "config_ok server f \<longleftrightarrow> (if server then client_unset f else server_unset f) \<and> numbers_ok f"

lemma if_arm: "(c \<Longrightarrow> P (snd a)) \<Longrightarrow> P (snd b) \<Longrightarrow> P (snd (if c then a else b))"
  by simp

lemma config_ok_warn [simp]: "config_ok server (warn w f) = config_ok server f"
  by (simp add: config_ok_def warn_def client_unset_def server_unset_def numbers_ok_def)

lemma config_ok_default [simp]: "config_ok server config_default"
  by (simp add: config_ok_def config_default_def client_unset_def server_unset_def numbers_ok_def)

lemma config_num_cases:
  obtains (Num) n where "config_num at k v lo hi f = (Some n, f)" and "lo \<le> n" and "n \<le> hi"
    | (Bad) w where "config_num at k v lo hi f = (None, warn (at @ lit '': '' @ w) f)"
proof (cases "\<exists>n. parse_i64 v = Some n \<and> lo \<le> n \<and> n \<le> hi")
  case True
  then show ?thesis using Num by (auto simp: config_num_def)
next
  case False
  have "lit '': invalid '' = lit '': '' @ lit ''invalid ''" by (simp add: lit_def)
  with False have "config_num at k v lo hi f = (None, warn (at @ lit '': '' @ lit ''invalid '' @ k @ lit '' '' @ quoted v @ lit ''; keeping the previous value'') f)"
    by (auto simp: config_num_def split: option.splits)
  then show ?thesis by (rule Bad)
qed

lemma uint_of_int_64: "0 \<le> n \<Longrightarrow> n \<le> I64_MAX \<Longrightarrow> uint (of_int n :: u64) = n"
  by (simp add: uint_word_of_int take_bit_int_eq_self)

lemma uint_of_int_32: "0 \<le> n \<Longrightarrow> n \<le> I32_MAX \<Longrightarrow> uint (of_int n :: u32) = n"
  by (simp add: uint_word_of_int take_bit_int_eq_self)

lemma of_int_16_nonzero: "1 \<le> n \<Longrightarrow> n \<le> 65535 \<Longrightarrow> (of_int n :: u16) \<noteq> 0"
proof
  assume n: "1 \<le> n" "n \<le> 65535" and z: "(of_int n :: u16) = 0"
  have "uint (of_int n :: u16) = n" using n by (simp add: uint_word_of_int)
  then show False unfolding z using n(1) by simp
qed

lemma set_num_ok:
  assumes "config_ok server f" and "\<And>n. lo \<le> n \<Longrightarrow> n \<le> hi \<Longrightarrow> config_ok server (upd n f)"
  shows "config_ok server (snd (set_num at k v lo hi upd f))"
  by (cases rule: config_num_cases [of at k v lo hi f]) (use assms in \<open>simp_all add: set_num_def\<close>)

lemmas config_ok_defs = config_ok_def client_unset_def server_unset_def numbers_ok_def uint_of_int_64 uint_of_int_32 of_int_16_nonzero

lemma config_set_ok:
  assumes "config_ok server f"
  shows "config_ok server (snd (config_set at sec key k v server f))"
  unfolding config_set_def Let_def
  by (intro if_arm [where P = "config_ok server"] set_num_ok assms) (use assms in \<open>auto simp: config_ok_defs\<close>)

text \<open>A line that draws a warning changes no value.\<close>

definition warns_or_applies :: "rstr \<Rightarrow> file_config \<Rightarrow> file_config \<Rightarrow> bool" where
  "warns_or_applies at f g \<longleftrightarrow> fc_warnings g = fc_warnings f \<or> (\<exists>w. g = warn (at @ lit '': '' @ w) f)"

lemma set_num_effect:
  assumes "\<And>n. fc_warnings (upd n f) = fc_warnings f"
  shows "warns_or_applies at f (snd (set_num at k v lo hi upd f))"
  by (cases rule: config_num_cases [of at k v lo hi f]) (use assms in \<open>auto simp: set_num_def warns_or_applies_def\<close>)

lemma config_set_effect: "warns_or_applies at f (snd (config_set at sec key k v server f))"
  unfolding config_set_def Let_def
  by (intro if_arm [where P = "warns_or_applies at f"] set_num_effect) (simp_all add: warns_or_applies_def)

lemma if_whole: "P a \<Longrightarrow> P b \<Longrightarrow> P (if c then a else b)"
  by simp

lemma set_num_applies [simp]: "fst (set_num at k v lo hi upd f)"
  by (cases rule: config_num_cases [of at k v lo hi f]) (simp_all add: set_num_def)

lemma config_set_unknown:
  assumes "fst (config_set at sec key k v server f) = False" shows "snd (config_set at sec key k v server f) = f"
proof -
  have "(\<lambda>r. fst r \<or> snd r = f) (config_set at sec key k v server f)"
    unfolding config_set_def Let_def by (intro if_whole [where P = "\<lambda>r. fst r \<or> snd r = f"]) (simp_all add: set_num_applies)
  with assms show ?thesis by simp
qed

abbreviation line_at :: "rstr \<Rightarrow> nat \<Rightarrow> rstr" where
  "line_at path n \<equiv> path @ lit '':'' @ str_dec n"

lemma warns_at [simp]: "warns_or_applies (line_at path n) f (warn (path @ lit '':'' @ str_dec n @ lit '': '' @ w) f)"
  by (auto simp: warns_or_applies_def)

lemma warns_same [simp]: "warns_or_applies at f f"
  by (simp add: warns_or_applies_def)

lemma message_heads:
  "lit '': unknown section '' = lit '': '' @ lit ''unknown section ''" "lit '': key '' = lit '': '' @ lit ''key ''"
  "lit '': unknown key '' = lit '': '' @ lit ''unknown key ''"
  by (simp_all add: lit_def)

lemma load_line_effect:
  assumes "load_line path server (n, line) (cur, f) = (cur', f')"
  shows "warns_or_applies (line_at path n) f f'"
proof (cases line)
  case (Kv k v)
  show ?thesis
  proof (cases cur)
    case (Some sec)
    let ?r = "config_set (line_at path n) sec (map char_lowercase k) k v server f"
    show ?thesis
    proof (cases "fst ?r")
      case True
      then have "f' = snd ?r" using assms Kv Some by (auto simp: load_line_def Let_def split: prod.splits)
      then show ?thesis using config_set_effect by simp
    next
      case False
      then have "\<exists>w. f' = warn (line_at path n @ lit '': '' @ w) f"
        using assms Kv Some config_set_unknown [of "line_at path n" sec "map char_lowercase k" k v server f]
        by (auto simp: load_line_def Let_def message_heads split: prod.splits bool.splits if_splits)
      then show ?thesis by (auto simp: warns_or_applies_def)
    qed
  qed (use assms Kv in \<open>auto simp: load_line_def Let_def message_heads\<close>)
qed (use assms in \<open>auto simp: load_line_def Let_def message_heads split: if_splits\<close>)

lemma load_line_ok:
  assumes "load_line path server nl (cur, f) = (cur', f')" and "config_ok server f"
  shows "config_ok server f'"
proof -
  obtain n line where nl: "nl = (n, line)" by fastforce
  note ok = config_set_ok [OF assms(2), of "line_at path n"]
  show ?thesis
  proof (cases line)
    case (Kv k v)
    then show ?thesis using assms ok [of "the cur" "map char_lowercase k" k v]
      by (cases cur; cases "config_set (line_at path n) (the cur) (map char_lowercase k) k v server f")
        (auto simp: nl load_line_def Let_def split: bool.splits)
  qed (use assms in \<open>auto simp: nl load_line_def Let_def split: if_splits\<close>)
qed

lemma load_lines_ok:
  "fold (load_line path server) ls (cur, f) = (cur', f') \<Longrightarrow> config_ok server f \<Longrightarrow> config_ok server f'"
proof (induction ls arbitrary: cur f)
  case (Cons l ls)
  obtain cur1 f1 where 1: "load_line path server l (cur, f) = (cur1, f1)" by fastforce
  with Cons.prems(1) have 2: "fold (load_line path server) ls (cur1, f1) = (cur', f')" by simp
  show ?case by (rule Cons.IH [OF 2 load_line_ok [OF 1 Cons.prems(2)]])
qed simp

lemma load_lines_warn:
  "fold (load_line path server) ls (cur, f) = (cur', f') \<Longrightarrow>
   \<exists>ns ws. length ns = length ws \<and> subseq ns (map fst ls)
     \<and> fc_warnings f' = fc_warnings f @ map2 (\<lambda>n w. line_at path n @ lit '': '' @ w) ns ws"
proof (induction ls arbitrary: cur f)
  case (Cons l ls)
  obtain n line where l: "l = (n, line)" by fastforce
  obtain cur1 f1 where 1: "load_line path server l (cur, f) = (cur1, f1)" by fastforce
  with Cons.prems(1) have 2: "fold (load_line path server) ls (cur1, f1) = (cur', f')" by simp
  from Cons.IH [OF 2] obtain ns ws where nw: "length ns = length ws" "subseq ns (map fst ls)"
    "fc_warnings f' = fc_warnings f1 @ map2 (\<lambda>n w. line_at path n @ lit '': '' @ w) ns ws" by blast
  from load_line_effect [OF 1 [unfolded l]] show ?case unfolding warns_or_applies_def
  proof
    assume "fc_warnings f1 = fc_warnings f"
    with nw show ?thesis by (auto simp: l)
  next
    assume "\<exists>w. f1 = warn (line_at path n @ lit '': '' @ w) f"
    then obtain w where "f1 = warn (line_at path n @ lit '': '' @ w) f" by blast
    with nw show ?thesis by (intro exI [of _ "n # ns"] exI [of _ "w # ws"]) (simp add: l warn_def)
  qed
qed (auto intro: exI [of _ "[]"])

section \<open>Properties\<close>

text \<open>C30. Every configuration a file can produce is well typed for its mode: a server's has no client value set and a client's no
  server value, whatever keys the file has, and every number is in the range its field promises.\<close>

theorem config_typed:
  assumes "config_load path server = Ok f"
  shows "config_ok server f"
proof (cases path)
  case (Some p)
  obtain name contents mode where p: "p = (name, contents, mode)" by (cases p)
  then obtain body where t: "contents = Ok body" using assms Some by (cases contents) (auto simp: config_load_def)
  obtain cur f' where r: "fold (load_line name server) (ini_lines body) (None, load_start name mode) = (cur, f')" by fastforce
  have "config_ok server (load_start name mode)" by (simp add: load_start_def split: option.splits)
  from load_lines_ok [OF r this] r assms show ?thesis by (simp add: Some p t config_load_def)
qed (use assms in \<open>simp add: config_load_def\<close>)


section \<open>Witnesses\<close>

text \<open>A client configuration with a port to redirect and a key of the server.\<close>

definition sample :: rstr where
  "sample = lit ''[ingress]'' @ [0x0A] @ lit ''DPort = 443'' @ [0x0A] @ lit ''[Interface]'' @ [0x0D, 0x0A] @ lit ''Listen=x'' @ [0x0A]"

theorem config_typed_witness:
  "config_load (Some (lit ''c'', Ok sample, None)) False =
     Ok (config_default\<lparr>fc_tproxy_dport := Some 443, fc_warnings :=
       [lit ''c:4: key '' @ quoted (lit ''Listen'') @ lit '' in [Interface] not valid for this mode; ignoring'']\<rparr>)
   \<and> config_ok False (config_default\<lparr>fc_tproxy_dport := Some 443, fc_warnings :=
       [lit ''c:4: key '' @ quoted (lit ''Listen'') @ lit '' in [Interface] not valid for this mode; ignoring'']\<rparr>)"
proof -
  have l: "config_load (Some (lit ''c'', Ok sample, None)) False =
     Ok (config_default\<lparr>fc_tproxy_dport := Some 443, fc_warnings :=
       [lit ''c:4: key '' @ quoted (lit ''Listen'') @ lit '' in [Interface] not valid for this mode; ignoring'']\<rparr>)" by code_simp
  from l config_typed [OF l] show ?thesis by blast
qed


end
