(* ===== verification/Spec2Isabelle.thy ===== *)
theory Spec2Isabelle
  imports Wire_Varint Wire_Frames Wire_UdpMsg Net_Types Udp_Defrag Udp_Lane Ingress Http_Head Http_Rules Http_Metrics Ring_Buf Slot_Table Tx_Queues Event_Queue Tcp_Relay App_Cx Server_Thms Mitm_Policy Client_Sched Mqproxy_Config "HOL-Library.Multiset"
begin

text \<open>
  A verification library for mqproxy, a proxy that carries TCP connections, HTTP requests and UDP sessions over
  one multipath QUIC connection between a client and a server.

  \<^bold>\<open>The program.\<close> The workspace under \<^verbatim>\<open>src/crates\<close> is layered. \<^verbatim>\<open>mq-wire\<close> defines the control frames and the
  datagram header that client and server exchange. \<^verbatim>\<open>mq-transport-api\<close> and \<^verbatim>\<open>mq-transport\<close> wrap the QUIC library xquic
  (a submodule): tables of connections and streams with generational ids, queues of outgoing packets, a queue of events.
  \<^verbatim>\<open>mq-runtime\<close> runs one event loop per shard and owns the sockets; its relay copies bytes between a stream and
  a TCP socket. \<^verbatim>\<open>mq-http\<close> has the HTTP/1.1 heads, the header rules and the request log. \<^verbatim>\<open>mq-proxy\<close> is the
  application: the ingress parsers, the UDP lane, the client and the server. \<^verbatim>\<open>mqproxy\<close> is the binary with its configuration file.

  \<^bold>\<open>Conventions.\<close> Machine integers are words (\<open>u8\<close> to \<open>u64\<close>) wherever they can wrap; \<open>usize\<close> is \<open>nat\<close>. A struct
  is a record, an enum a datatype, a hash map an association list or a list without repetition. A \<open>Result\<close> is \<open>result\<close>; a panic (a failed
  index, \<open>expect\<close> or \<open>unreachable\<close>) is \<open>None\<close> in an option. Debug assertions are not modelled. A loop that
  could run forever is a partial function into \<open>option\<close>, \<open>None\<close> being the run that never ends, and each is proved to return;
  there is no fuel. Code outside the repository is a parameter: the QUIC transport is a record of functions over a state of its own, a
  random number, the time and the contents of a file are arguments.

  \<^bold>\<open>The theories\<close>, bottom up.

  \<^item> \<open>Mq_Prelude\<close>, \<open>Rust_Std\<close>, \<open>Net_Types\<close>: the word and byte lemmas, the parts of Rust's standard library the code uses
    (searching, splitting, number and address parsing, UTF-8 validation), and \<^verbatim>\<open>mq-transport-api/src/time.rs\<close>.
  \<^item> \<open>Wire_Varint\<close>, \<open>Wire_Frames\<close>, \<open>Wire_UdpMsg\<close>: \<^verbatim>\<open>mq-wire/src/varint.rs\<close>, \<^verbatim>\<open>frames.rs\<close>, \<^verbatim>\<open>udp_msg.rs\<close>. The six frame codecs
    interpret one locale \<open>frame_codec\<close>; round trips, exact limits, and the behaviour on prefixes and longer buffers follow
    from it for all six.
  \<^item> \<open>Udp_Defrag\<close>, \<open>Udp_Lane\<close>: \<^verbatim>\<open>mq-proxy/src/udp\<close>. The four-slot reassembler refines an unbounded one, is bounded for every
    input and reassembles interleaved packets exactly; the fragment sender, the pre-OPEN buffer and the SOCKS5 UDP header.
  \<^item> \<open>Ingress\<close>: \<^verbatim>\<open>mq-proxy/src/ingress\<close>. SOCKS5 and HTTP CONNECT interpret the locales \<open>prefix_parser\<close> and
    \<open>ingress_parser\<close>: the decision does not depend on how the bytes arrive.
  \<^item> \<open>Http_Head\<close>, \<open>Http_Rules\<close>, \<open>Http_Metrics\<close>: \<^verbatim>\<open>mq-http/src/h1.rs\<close> with \<^verbatim>\<open>limits.rs\<close>, \<^verbatim>\<open>headers.rs\<close>, \<^verbatim>\<open>metrics.rs\<close>. Soundness,
    round trip and stability of the head parser, the fetch target and the control headers, and readability of the log line.
  \<^item> \<open>Ring_Buf\<close>: \<^verbatim>\<open>mq-transport-api/src/ringbuf.rs\<close>, \<^verbatim>\<open>mq-runtime/src/shard/tx_ring.rs\<close> and the receive ring of
    \<^verbatim>\<open>mq-transport/src/datagram.rs\<close>. The byte buffer interprets \<open>byte_fifo\<close>; both rings interpret \<open>record_fifo\<close> over it.
  \<^item> \<open>Slot_Table\<close>: \<^verbatim>\<open>mq-transport-api/src/ids.rs\<close> and \<^verbatim>\<open>mq-transport/src/slots.rs\<close>. The table implements a finite map from ids, and a
    removed id stays dead until its 32-bit generation has gone round.
  \<^item> \<open>Tx_Queues\<close>: \<^verbatim>\<open>mq-transport/src/txq.rs\<close>. Bounds, the FIFO refinement and resumption of blocked connections.
  \<^item> \<open>Event_Queue\<close>: \<^verbatim>\<open>mq-transport/src/events.rs\<close> with \<open>poll_event\<close> of \<^verbatim>\<open>lib.rs\<close>. Level events coalesce; stale ones are dropped.
  \<^item> \<open>Tcp_Relay\<close>: \<^verbatim>\<open>mq-runtime/src/shard/relay.rs\<close>. Every run, for every transport and every order of steps, moves the bytes
    unchanged, and a pump always returns and does not spin.
  \<^item> \<open>App_Cx\<close>: \<^verbatim>\<open>mq-runtime/src/app.rs\<close> as an interface, and \<^verbatim>\<open>mq-proxy/src/app_stream.rs\<close>. The callbacks of an application are a datatype, the
    calls it may make are a record of functions over a world of its own. \<open>returns\<close> says that a call neither panics nor hangs;
    \<open>env_ok\<close> says that what has arrived is finite and that the world records what was read.
  \<^item> \<open>Server_App\<close>: \<^verbatim>\<open>mq-proxy/src/server/mod.rs\<close>, \<^verbatim>\<open>server/udp_session.rs\<close> and the server's part of \<^verbatim>\<open>config.rs\<close>: every callback and
    handler. The HTTP gateway is a parameter. \<open>Server_Inv\<close> and \<open>Server_Safe\<close> hold the invariant of its tables and that the handlers of streams and
    UDP sessions keep it, \<open>Server_Run\<close> the control streams and all callbacks, \<open>Server_Thms\<close> what follows for every state a run
    reaches: no panic and no endless loop, service only after the token was presented, exact budgets, nothing left of a closed connection.
  \<^item> \<open>Client_Sched\<close>: \<^verbatim>\<open>mq-proxy/src/client/backoff.rs\<close> and \<^verbatim>\<open>pending.rs\<close>. The reconnect schedule and the queue of waiting requests.
  \<^item> \<open>Mitm_Policy\<close>: \<^verbatim>\<open>mq-proxy/src/client/mitm/policy.rs\<close>. The routing decision equals the one read off the labels of the name.
  \<^item> \<open>Mqproxy_Config\<close>: \<^verbatim>\<open>mqproxy/src/ini.rs\<close> and \<^verbatim>\<open>config.rs\<close>. Configurations are well typed, and a bad line warns and changes nothing.
  \<^item> This theory joins the sender, the wire format and the reassembler of the UDP lane.

  \<^bold>\<open>Reachability.\<close> Components with state that several callers drive have a step relation or a run function over all
  their operations (\<open>relay_step\<close>, \<open>ev_step\<close>, \<open>srv_reach\<close>, the runs of the queues and rings), and their invariants hold in every
  state these reach.

  \<^bold>\<open>Not modelled.\<close> The C boundary of \<^verbatim>\<open>mq-transport\<close> and the generated bindings; \<^verbatim>\<open>mq-h3\<close>, the HTTP gateway, the TLS
  interception and the origin bridge, which drive third-party HTTP/3, HTTP and TLS libraries whose behaviour would be most
  of the model; the event loop's sockets, \<^verbatim>\<open>mq-linux\<close> and the start of the binary, which are system calls; and test support. IPv6 flow
  labels do not survive the send ring, as in the code: its theorem speaks of addresses without them.
\<close>

section \<open>The UDP lane, end to end\<close>

text \<open>What the receiving side makes of a datagram: its header, and the bytes behind it.\<close>

definition receive :: "bytes \<Rightarrow> udp_msg_hdr \<times> bytes" where
  "receive d = (the (udp_msg_hdr_decode d), drop UDP_MSG_HDR d)"

text \<open>A transport that delivers every datagram, in the order sent.\<close>

definition record_send :: "bytes list \<Rightarrow> bytes \<Rightarrow> (unit, unit) result \<times> bytes list" where
  "record_send t d = (Ok (), t @ [d])"

lemma receive_datagram [simp]: "receive (udp_msg_hdr_encode h @ body) = (h, body)"
  using udp_msg_hdr_roundtrip [of h body] by (simp add: receive_def)

lemma receive_datagrams: "map receive (datagrams frags) = frags"
  by (induction frags) (auto simp: datagrams_def)

lemma send_all_record: "send_all record_send t ds = (replicate (length ds) True, t @ ds)"
  by (induction ds arbitrary: t) (simp_all add: record_send_def)

lemma sent_datagrams:
  assumes "mss_payload mss dmss = (mp, mss1)" and "0 < mp" and "length payload \<le> 255 * mp"
    and "send_packet (\<lambda>_. dmss) record_send [] mss sid pid payload c = (out, sent, mss', c')"
  shows "map receive sent = map (frag_of sid [pid \<mapsto> fragments mp payload]) (map (Pair pid) [0 ..< length (fragments mp payload)])"
proof -
  have n: "length (fragments mp payload) \<le> 255" using assms(2,3) length_fragments_le [of mp 255 payload] by simp
  have "sent = datagrams (snd (udp_split sid pid payload mp))"
    using send_packet_frags [where dg_mss = "\<lambda>_. dmss" and t = "[]" and c = c and sid = sid and pid = pid,
        OF assms(1-3) send_all_record] assms(4) by auto
  then show ?thesis
    using assms(2) n by (auto simp: receive_datagrams udp_split_Ok frag_of_def intro: nth_equalityI)
qed

text \<open>Fragments of one packet in any order are the arrivals of its numbers in that order.\<close>

lemma arrivals_of_permutation:
  assumes "mset rs = mset (map (frag_of sid [pid \<mapsto> fs]) (map (Pair pid) [0 ..< length fs]))" and "length fs \<le> 255"
  obtains js where "rs = map (frag_of sid [pid \<mapsto> fs]) (map (Pair pid) js)" and "mset js = mset [0 ..< length fs]"
proof
  let ?f = "frag_of sid [pid \<mapsto> fs]"
  let ?g = "\<lambda>r :: udp_msg_hdr \<times> bytes. unat (umh_frag_id (fst r))"
  have g: "?g (?f (pid, i)) = i" if "i < length fs" for i
    using that assms(2) by (simp add: frag_of_def frag_hdr_def unat_of_nat)
  have "?f (pid, ?g r) = r" if "r \<in> set rs" for r
  proof -
    have "r \<in> set (map ?f (map (Pair pid) [0 ..< length fs]))" using that mset_eq_setD [OF assms(1)] by simp
    then show ?thesis using g by auto
  qed
  then show "rs = map ?f (map (Pair pid) (map ?g rs))" by (simp add: map_idI)
  have "mset (map ?g rs) = image_mset ?g (mset rs)" by simp
  also have "\<dots> = mset (map ?g (map ?f (map (Pair pid) [0 ..< length fs])))" unfolding assms(1) mset_map ..
  also have "map ?g (map ?f (map (Pair pid) [0 ..< length fs])) = [0 ..< length fs]" using g by (intro nth_equalityI) simp_all
  finally show "mset (map ?g rs) = mset [0 ..< length fs]" .
qed

lemma outcome_last:
  assumes "mset js = mset [0 ..< length fs]" and "k < length fs"
  shows "outcome [pid \<mapsto> fs] (take k (map (Pair pid) js)) (pid, js ! k) = (if Suc k = length fs then Complete (concat fs) else Pending)"
proof -
  have d: "distinct js" and s: "set js = {0 ..< length fs}" and l: "length js = length fs"
    using assms(1) mset_eq_imp_distinct_iff [of js "[0 ..< length fs]"] mset_eq_setD [OF assms(1)] mset_eq_length [OF assms(1)] by simp_all
  have sub: "set (take (Suc k) js) = insert (js ! k) (set (take k js))" using assms(2) l by (simp add: take_Suc_conv_app_nth)
  have "list_all (\<lambda>j. j = js ! k \<or> j \<in> set (take k js)) [0 ..< length fs] \<longleftrightarrow> set js \<subseteq> set (take (Suc k) js)"
    unfolding sub s by (auto simp: list_all_iff)
  also have "\<dots> \<longleftrightarrow> Suc k = length fs"
  proof
    assume "set js \<subseteq> set (take (Suc k) js)"
    then have "card (set js) \<le> card (set (take (Suc k) js))" by (intro card_mono) simp_all
    then show "Suc k = length fs" using d l assms(2) by (simp add: distinct_card)
  qed (use l in simp)
  finally show ?thesis by (simp add: outcome_def take_map image_iff)
qed

text \<open>C7. The UDP lane end to end, over the sender, the wire format and the reassembler: whatever order the network delivers a
  packet's datagrams in, decoding each and feeding it to a fresh reassembler yields the payload, byte for byte, at the last one and
  nothing before.\<close>

theorem udp_lane_end_to_end:
  assumes "mss_payload mss dmss = (mp, mss1)" and "0 < mp" and "length payload \<le> 255 * mp" and "length payload \<le> MAX_TOTAL"
    and "send_packet (\<lambda>_. dmss) record_send [] mss sid pid payload c = (out, sent, mss', c')"
    and "mset ds = mset sent"
  shows "fst (defrag_run defrag_new (map receive ds)) = replicate (length ds - 1) Pending @ [Complete payload]"
proof -
  let ?fs = "fragments mp payload" and ?P = "[pid \<mapsto> fragments mp payload]"
  have n: "0 < length ?fs" "length ?fs \<le> 255"
    using assms(2,3) length_fragments_le [of mp 255 payload] by (simp_all add: length_fragments)
  have "mset (map receive ds) = mset (map (frag_of sid ?P) (map (Pair pid) [0 ..< length ?fs]))"
    unfolding sent_datagrams [OF assms(1-3,5), symmetric] using assms(6) by simp
  then obtain js where r: "map receive ds = map (frag_of sid ?P) (map (Pair pid) js)" and m: "mset js = mset [0 ..< length ?fs]"
    using n(2) by (rule arrivals_of_permutation)
  have l: "length js = length ?fs" "length ds = length ?fs" using mset_eq_length [OF m] arg_cong [OF r, of length] by simp_all
  show ?thesis
  proof (cases "length ?fs = 1")
    case True
    then have fs: "?fs = [payload]" using concat_fragments [OF assms(2), of payload] by (cases ?fs) auto
    then have "js = [0]" using m by simp
    then show ?thesis using l unfolding r by (simp add: frag_of_def fs defrag_feed_def frag_hdr_def)
  next
    case False
    have "2 \<le> length ?fs" using False n(1) by linarith
    then have "family_ok ?P" using n assms(2,4) by (simp add: family_ok_def SLOTS_def)
    moreover have "distinct ([] @ map (Pair pid) js)" "list_all (arrival_ok ?P) (map (Pair pid) js)"
      using m mset_eq_imp_distinct_iff [OF m] mset_eq_setD [OF m] by (auto simp: distinct_map inj_on_def list_all_iff arrival_ok_def)
    ultimately have "fst (defrag_run defrag_new (map receive ds))
        = map (\<lambda>k. outcome ?P ([] @ take k (map (Pair pid) js)) (map (Pair pid) js ! k)) [0 ..< length (map (Pair pid) js)]"
      unfolding r by (rule conjunct1 [OF defrag_run_arrivals [OF _ _ _ defrag_inv_new defrag_abs_new]])
    also have "\<dots> = map (\<lambda>k. outcome ?P (take k (map (Pair pid) js)) (map (Pair pid) js ! k)) [0 ..< length js]" by simp
    also have "\<dots> = map (\<lambda>k. if Suc k = length ?fs then Complete (concat ?fs) else Pending) [0 ..< length ?fs]"
      using l outcome_last [OF m] by simp
    also have "\<dots> = replicate (length ?fs - 1) Pending @ [Complete payload]"
      using n(1) assms(2) by (intro nth_equalityI) (auto simp: nth_append)
    finally show ?thesis using l(2) by simp
  qed
qed

theorem udp_lane_end_to_end_witness:
  "\<exists>out sent mss' c'. send_packet (\<lambda>_. UDP_MSG_HDR + 1) record_send [] mss_cache_new 9 4 [1, 2] counters_default = (out, sent, mss', c')
     \<and> fst (defrag_run defrag_new (map receive (rev sent))) = [Pending, Complete [1, 2]]"
proof -
  obtain out sent mss' c' where s: "send_packet (\<lambda>_. UDP_MSG_HDR + 1) record_send [] mss_cache_new 9 4 [1, 2] counters_default = (out, sent, mss', c')"
    by (metis prod_cases4)
  have p: "mss_payload mss_cache_new (UDP_MSG_HDR + 1) = (1, snd (mss_payload mss_cache_new (UDP_MSG_HDR + 1)))" by code_simp
  have l: "length (rev sent) = 2"
    using arg_cong [OF sent_datagrams [OF p _ _ s], of length] by (simp add: length_fragments div_ceil_def)
  from udp_lane_end_to_end [OF p _ _ _ s, of "rev sent"] l have "fst (defrag_run defrag_new (map receive (rev sent))) = [Pending, Complete [1, 2]]"
    by (simp add: MAX_TOTAL_def)
  with s show ?thesis by blast
qed

end
